(* ===== verification/Prelude.thy ===== *)
theory Prelude
  imports Main "HOL-Library.Word" "HOL-Library.Monad_Syntax"
begin

unbundle bit_operations_syntax

text \<open>
  The shared base of the development: the machine types, the pieces of Rust's
  \<^verbatim>\<open>core\<close> library that the kernel calls, and the facts on bits, lists and
  options that several components use.

  Conventions used by every theory:
  \<^item> \<open>usize\<close> values (addresses, page numbers, indices, lengths, counters) are natural
    numbers. The kernel is built with \<^verbatim>\<open>overflow-checks = true\<close> in the release
    profile, so an addition, subtraction or multiplication that leaves the 64-bit range
    is a panic, never a wrap-around. A definition whose arithmetic can leave the range
    returns an option and \<open>None\<close> is the panic; where it cannot, a bound is proved.
  \<^item> Values whose individual bits matter (page table entries, bitmap words, memory
    contents, saved registers) are 64-bit words.
  \<^item> A Rust \<open>Option\<close> is an \<open>option\<close>, a Rust \<open>Result\<close> is a sum with the error on the
    left; when the call may also panic, the whole result sits in a further option.
\<close>

type_synonym usize = nat
type_synonym u8 = "8 word"
type_synonym u16 = "16 word"
type_synonym u32 = "32 word"
type_synonym u64 = "64 word"
type_synonym isize = int

abbreviation usize_lim :: nat where
  "usize_lim \<equiv> 2 ^ 64"

named_theorems addr_simps \<open>address arithmetic turned into div and mod\<close>
named_theorems mem_simps \<open>reads after writes of physical memory\<close>
named_theorems buddy_simps \<open>field projections of the buddy allocator\<close>
named_theorems pt_simps \<open>page table entries and walks\<close>
named_theorems sched_simps \<open>the scheduler's elementary updates\<close>

section \<open>Rust's integer operations\<close>

text \<open>Bitwise complement of a 64-bit \<open>usize\<close>, as in \<^verbatim>\<open>!(PAGE_SIZE - 1)\<close>.\<close>

definition usize_not :: "usize \<Rightarrow> usize" where
  "usize_not m = usize_lim - 1 - m"

definition checked_add :: "usize \<Rightarrow> usize \<Rightarrow> usize option" where
  "checked_add a b = (if a + b < usize_lim then Some (a + b) else None)"

definition checked_sub :: "usize \<Rightarrow> usize \<Rightarrow> usize option" where
  "checked_sub a b = (if b \<le> a then Some (a - b) else None)"

definition checked_add_signed :: "usize \<Rightarrow> isize \<Rightarrow> usize option" where
  "checked_add_signed a d =
     (if 0 \<le> int a + d \<and> int a + d < int usize_lim then Some (nat (int a + d)) else None)"

definition div_ceil :: "usize \<Rightarrow> usize \<Rightarrow> usize" where
  "div_ceil a b = (if 0 < a mod b then a div b + 1 else a div b)"

definition next_multiple_of :: "usize \<Rightarrow> usize \<Rightarrow> usize" where
  "next_multiple_of a b = (if a mod b = 0 then a else a + (b - a mod b))"

text \<open>\<^verbatim>\<open>usize::leading_zeros\<close>, through the length of the binary representation.\<close>

fun bit_len :: "nat \<Rightarrow> nat" where
  "bit_len n = (if n = 0 then 0 else Suc (bit_len (n div 2)))"

declare bit_len.simps [simp del]

definition leading_zeros :: "usize \<Rightarrow> nat" where
  "leading_zeros n = 64 - bit_len n"

section \<open>Bits of natural numbers\<close>

lemma nat_and_mask [addr_simps]: "(x::nat) AND (2 ^ k - 1) = x mod 2 ^ k"
  by (metis mask_eq_exp_minus_1 take_bit_eq_mask take_bit_eq_mod)

lemma nat_and_mask_num [addr_simps]:
  "(x::nat) AND 4095 = x mod 4096" "(x::nat) AND 511 = x mod 512"
  using nat_and_mask [of x 12] nat_and_mask [of x 9] by simp_all

lemma nat_and_not_mask:
  assumes "(x::nat) < 2 ^ 64" and "k \<le> 64"
  shows "x AND usize_not (2 ^ k - 1) = x - x mod 2 ^ k"
proof -
  have lim: "usize_not (2 ^ k - 1) = push_bit k (mask (64 - k))"
    using assms(2) by (simp add: usize_not_def push_bit_eq_mult mask_eq_exp_minus_1
        diff_mult_distrib flip: power_add)
  have "x AND push_bit k (mask (64 - k)) = push_bit k (drop_bit k x)"
  proof (rule bit_eqI)
    fix n
    have "bit x n \<Longrightarrow> n < 64"
      using assms(1) by (metis bit_take_bit_iff take_bit_nat_eq_self)
    then show "bit (x AND push_bit k (mask (64 - k))) n = bit (push_bit k (drop_bit k x)) n"
      by (auto simp: bit_simps)
  qed
  also have "\<dots> = x - x mod 2 ^ k"
    by (simp add: push_bit_eq_mult drop_bit_eq_div minus_mod_eq_div_mult)
  finally show ?thesis using lim by simp
qed

lemma nat_xor_pow2:
  assumes "2 ^ k dvd (i::nat)"
  shows "i XOR 2 ^ k = (if even (i div 2 ^ k) then i + 2 ^ k else i - 2 ^ k)"
proof -
  obtain q where q: "i = push_bit k q"
    using assms by (auto simp: push_bit_eq_mult dvd_def mult.commute)
  have "i XOR 2 ^ k = push_bit k (q XOR 1)"
    by (simp only: q push_bit_xor push_bit_of_1)
  also have "q XOR 1 = (if even q then q + 1 else q - 1)"
    by (simp add: xor_Suc_0_eq)
  finally show ?thesis
    by (auto simp: q push_bit_eq_mult algebra_simps diff_mult_distrib)
qed

section \<open>Rounding\<close>

lemma div_ceil_bound:
  assumes "0 < b"
  shows "a \<le> div_ceil a b * b"
proof -
  have split: "a = a div b * b + a mod b" and lt: "a mod b < b"
    using assms by simp_all
  show ?thesis
  proof (cases "0 < a mod b")
    case True
    then have "div_ceil a b * b = a div b * b + b" by (simp add: div_ceil_def)
    then show ?thesis using split lt by linarith
  next
    case False
    then show ?thesis using split by (simp add: div_ceil_def)
  qed
qed

lemma div_ceil_least:
  assumes "0 < b" "a \<le> c * b"
  shows "div_ceil a b \<le> c"
proof (cases "0 < a mod b")
  case True
  then have "a div b * b < a" by (metis div_mult_mod_eq less_add_same_cancel1)
  then have "a div b * b < c * b" using assms(2) by linarith
  then have "a div b < c" by simp
  then show ?thesis using True by (simp add: div_ceil_def)
next
  case False
  then show ?thesis using div_le_mono [OF assms(2), of b] assms(1) by (simp add: div_ceil_def)
qed

lemma div_ceil_mono: "a \<le> b \<Longrightarrow> 0 < d \<Longrightarrow> div_ceil a d \<le> div_ceil b d"
  by (rule div_ceil_least) (use div_ceil_bound [of d b] in simp_all)

lemma next_multiple_of_props:
  assumes "0 < b"
  shows "a \<le> next_multiple_of a b" and "b dvd next_multiple_of a b"
    and "next_multiple_of a b < a + b"
proof -
  have lt: "a mod b < b" using assms by simp
  show "a \<le> next_multiple_of a b" by (simp add: next_multiple_of_def)
  show "next_multiple_of a b < a + b" using assms by (simp add: next_multiple_of_def)
  show "b dvd next_multiple_of a b"
  proof (cases "a mod b = 0")
    case True then show ?thesis by (simp add: next_multiple_of_def mod_eq_0_iff_dvd)
  next
    case False
    have "a + (b - a mod b) = b * (a div b) + b"
      using lt by (metis add.assoc add_diff_inverse_nat le_add_diff_inverse less_imp_le_nat
          mult_div_mod_eq)
    then show ?thesis using False by (simp add: next_multiple_of_def)
  qed
qed

lemma next_multiple_of_alt:
  assumes "0 < b"
  shows "next_multiple_of a b = (a + b - 1) - (a + b - 1) mod b"
proof -
  have split: "a = b * (a div b) + a mod b" and lt: "a mod b < b"
    using assms by simp_all
  have "a + b - 1 = a + (b - 1)" using assms by simp
  then have "(a + b - 1) mod b = (a mod b + (b - 1)) mod b"
    by (simp only: mod_add_left_eq)
  also have "\<dots> = (if a mod b = 0 then b - 1 else a mod b - 1)"
  proof (cases "a mod b = 0")
    case False
    then have "a mod b + (b - 1) = (a mod b - 1) + b" using lt by linarith
    then have "(a mod b + (b - 1)) mod b = (a mod b - 1) mod b" by (simp only: mod_add_self2)
    then show ?thesis using False lt by simp
  qed (use assms in simp)
  finally show ?thesis using lt assms by (auto simp: next_multiple_of_def)
qed

lemma bit_len_le_iff: "bit_len n \<le> k \<longleftrightarrow> n < 2 ^ k"
proof (induction n arbitrary: k rule: bit_len.induct)
  case (1 n)
  show ?case
  proof (cases "n = 0")
    case True then show ?thesis by (simp add: bit_len.simps)
  next
    case False
    show ?thesis
    proof (cases k)
      case 0 then show ?thesis using False by (simp add: bit_len.simps [of n])
    next
      case (Suc j)
      then show ?thesis using False 1 [of j] by (auto simp: bit_len.simps [of n])
    qed
  qed
qed

end
