(* ===== verification/Addr.thy ===== *)
theory Addr
  imports Prelude
begin

text \<open>
  The machine's layout (\<^verbatim>\<open>kernel/src/config.rs\<close>), the direct map
  (\<^verbatim>\<open>kernel/src/mm/mod.rs\<close>) and the typed addresses of
  \<^verbatim>\<open>kernel/src/mm/addr.rs\<close>. Physical and virtual addresses and page numbers
  are \<open>usize\<close> newtypes in the source; here they are synonyms of \<open>usize\<close>, named where they
  are used. The lemmas turn the masks and shifts of the source into division and
  remainder by the page size, and bound the results.
\<close>

unbundle bit_operations_syntax

type_synonym phys_addr = usize
type_synonym virt_addr = usize
type_synonym phys_page_num = usize
type_synonym virt_page_num = usize

section \<open>Layout constants\<close>

abbreviation (input) PAGE_SIZE :: usize where "PAGE_SIZE \<equiv> 4096"
abbreviation (input) PAGE_SHIFT :: usize where "PAGE_SHIFT \<equiv> 12"
abbreviation (input) SV39_LEVELS :: usize where "SV39_LEVELS \<equiv> 3"
abbreviation (input) PTE_PER_TABLE :: usize where "PTE_PER_TABLE \<equiv> 512"
abbreviation (input) VIRT_OFFSET :: usize where "VIRT_OFFSET \<equiv> 0xffffffc000000000"
abbreviation (input) DRAM_BASE :: usize where "DRAM_BASE \<equiv> 0x80000000"
abbreviation (input) DRAM_SIZE :: usize where "DRAM_SIZE \<equiv> 128 * 1024 * 1024"
abbreviation (input) KERNEL_STACK_SIZE :: usize where "KERNEL_STACK_SIZE \<equiv> 32 * 1024"
abbreviation (input) MAX_HARTS :: usize where "MAX_HARTS \<equiv> 4"
abbreviation (input) USER_STACK_TOP :: usize where "USER_STACK_TOP \<equiv> 0x3ffffff000"
abbreviation (input) USER_STACK_SIZE :: usize where "USER_STACK_SIZE \<equiv> 256 * 1024"
abbreviation (input) USER_HEAP_BASE :: usize where "USER_HEAP_BASE \<equiv> 0x10000000"
abbreviation (input) USER_MAX_ADDR :: usize where "USER_MAX_ADDR \<equiv> 0x4000000000"

section \<open>Addresses within a page\<close>

definition page_offset :: "usize \<Rightarrow> usize" where
  "page_offset a = a AND (PAGE_SIZE - 1)"

definition is_aligned :: "usize \<Rightarrow> bool" where
  "is_aligned a \<longleftrightarrow> page_offset a = 0"

definition align_down :: "usize \<Rightarrow> usize" where
  "align_down a = a AND usize_not (PAGE_SIZE - 1)"

text \<open>\<^verbatim>\<open>self.0 + PAGE_SIZE - 1\<close> overflows, and panics, in the last page of the
  64-bit range.\<close>

definition align_up :: "usize \<Rightarrow> usize option" where
  "align_up a =
     (if a + PAGE_SIZE < usize_lim then Some ((a + PAGE_SIZE - 1) AND usize_not (PAGE_SIZE - 1))
      else None)"

section \<open>Physical addresses and frames\<close>

definition pa_ppn :: "phys_addr \<Rightarrow> phys_page_num" where
  "pa_ppn a = drop_bit PAGE_SHIFT a"

text \<open>\<^verbatim>\<open>self.0 + VIRT_OFFSET\<close> and \<^verbatim>\<open>self.0 - VIRT_OFFSET\<close> panic on
  overflow and underflow.\<close>

definition to_virt :: "phys_addr \<Rightarrow> virt_addr option" where
  "to_virt a = checked_add a VIRT_OFFSET"

definition to_phys :: "virt_addr \<Rightarrow> phys_addr option" where
  "to_phys a = checked_sub a VIRT_OFFSET"

text \<open>Shifting left drops the bits above 63; \<^verbatim>\<open>wrapping_add\<close> wraps.\<close>

definition ppn_base_addr :: "phys_page_num \<Rightarrow> phys_addr" where
  "ppn_base_addr p = push_bit PAGE_SHIFT p mod usize_lim"

definition ppn_as_ptr :: "phys_page_num \<Rightarrow> virt_addr" where
  "ppn_as_ptr p = (push_bit PAGE_SHIFT p mod usize_lim + VIRT_OFFSET) mod usize_lim"

section \<open>Virtual addresses and pages\<close>

definition va_vpn :: "virt_addr \<Rightarrow> virt_page_num" where
  "va_vpn a = drop_bit PAGE_SHIFT a"

definition is_kernel :: "virt_addr \<Rightarrow> bool" where
  "is_kernel a \<longleftrightarrow> VIRT_OFFSET \<le> a"

text \<open>\<^verbatim>\<open>((self.0 as i64) << 25 >> 25) as usize\<close>: the right shift of an \<open>i64\<close> is
  arithmetic.\<close>

definition is_canonical :: "virt_addr \<Rightarrow> bool" where
  "is_canonical a \<longleftrightarrow>
     unat (signed_drop_bit 25 (push_bit 25 (word_of_nat a :: u64))) = a"

definition vpn_base_addr :: "virt_page_num \<Rightarrow> virt_addr" where
  "vpn_base_addr v = push_bit PAGE_SHIFT v mod usize_lim"

definition vpn_indices :: "virt_page_num \<Rightarrow> usize list" where
  "vpn_indices v = [drop_bit 18 v AND 0x1ff, drop_bit 9 v AND 0x1ff, v AND 0x1ff]"

definition range_len :: "virt_addr \<Rightarrow> virt_addr \<Rightarrow> usize option" where
  "range_len start end = do {
     e \<leftarrow> align_up end;
     checked_sub (drop_bit PAGE_SHIFT e) (drop_bit PAGE_SHIFT (align_down start))
   }"

section \<open>Masks and shifts as arithmetic\<close>

lemma page_offset_mod [addr_simps]: "page_offset a = a mod 4096"
  by (simp add: page_offset_def addr_simps)

lemma pa_ppn_div [addr_simps]: "pa_ppn a = a div 4096"
  by (simp add: pa_ppn_def drop_bit_eq_div)

lemma va_vpn_div [addr_simps]: "va_vpn a = a div 4096"
  by (simp add: va_vpn_def drop_bit_eq_div)

lemma is_aligned_dvd [addr_simps]: "is_aligned a \<longleftrightarrow> 4096 dvd a"
  by (simp add: is_aligned_def addr_simps dvd_eq_mod_eq_0)

lemma align_down_eq [addr_simps]: "a < usize_lim \<Longrightarrow> align_down a = a - a mod 4096"
  using nat_and_not_mask [of a 12] by (simp add: align_down_def)

lemma align_up_eq [addr_simps]:
  "align_up a = (if a + 4096 < usize_lim then Some (next_multiple_of a 4096) else None)"
proof (cases "a + 4096 < usize_lim")
  case True
  have "(a + 4095) AND usize_not 4095 = a + 4095 - (a + 4095) mod 4096"
    using nat_and_not_mask [of "a + 4095" 12] True by simp
  also have "\<dots> = next_multiple_of a 4096"
    using next_multiple_of_alt [of 4096 a] by (simp add: add.commute)
  finally show ?thesis using True by (simp add: align_up_def add.commute)
qed (simp add: align_up_def)

lemma vpn_indices_eq [addr_simps]:
  "vpn_indices v = [v div 2 ^ 18 mod 512, v div 512 mod 512, v mod 512]"
  by (simp add: vpn_indices_def addr_simps drop_bit_eq_div)

lemma ppn_base_addr_eq [addr_simps]: "p < 2 ^ 52 \<Longrightarrow> ppn_base_addr p = p * 4096"
  by (simp add: ppn_base_addr_def push_bit_eq_mult)

lemma vpn_base_addr_eq [addr_simps]: "v < 2 ^ 52 \<Longrightarrow> vpn_base_addr v = v * 4096"
  by (simp add: vpn_base_addr_def push_bit_eq_mult)

lemma div_4096_split: "a = a div 4096 * 4096 + a mod (4096::nat)"
  by simp

text \<open>A page number of a 39-bit address is determined by its three table indices.\<close>

lemma vpn_indices_inj:
  assumes "v < 2 ^ 27" "w < 2 ^ 27" "vpn_indices v = vpn_indices w"
  shows "v = w"
proof -
  have 0: "x = x div 2 ^ 18 mod 512 * 2 ^ 18 + x div 512 mod 512 * 512 + x mod 512"
    if "x < 2 ^ 27" for x :: nat
  proof -
    define y where "y = x div 512"
    have "x div 2 ^ 18 mod 512 = y div 512"
      using that by (simp add: y_def div_mult2_eq [symmetric])
    moreover have "x = y * 512 + x mod 512" by (simp add: y_def)
    moreover have "y * 512 = y div 512 * 2 ^ 18 + y mod 512 * 512"
    proof -
      have "(y div 512 * 512 + y mod 512) * 512 = y div 512 * 2 ^ 18 + y mod 512 * 512"
        unfolding add_mult_distrib by simp
      then show ?thesis unfolding div_mult_mod_eq .
    qed
    ultimately show ?thesis unfolding y_def by metis
  qed
  show ?thesis using assms 0 [of v] 0 [of w] by (simp add: vpn_indices_eq)
qed

lemma vpn_indices_bound: "i \<in> set (vpn_indices v) \<Longrightarrow> i < 512"
  by (auto simp: vpn_indices_eq)

end
