(* ===== verification/Phys_Mem.thy ===== *)
theory Phys_Mem
  imports Addr
begin

text \<open>
  Physical memory. The kernel reaches every frame through the direct map, by a pointer
  \<^verbatim>\<open>PhysPageNum::as_ptr\<close> that is the physical address plus \<open>VIRT_OFFSET\<close>; the
  model addresses memory by the physical address. RISC-V is little-endian and all the
  kernel's 64-bit accesses are 8-byte aligned, so memory is one 64-bit doubleword per
  8-byte slot, and a byte is a slice of its doubleword.

  The lemmas are the read-after-write laws every component with data in frames uses.
\<close>

unbundle bit_operations_syntax

type_synonym phys_mem = "nat \<Rightarrow> u64"

section \<open>Loads and stores\<close>

definition read_u64 :: "phys_mem \<Rightarrow> phys_addr \<Rightarrow> u64" where
  "read_u64 m a = m (a div 8)"

definition write_u64 :: "phys_addr \<Rightarrow> u64 \<Rightarrow> phys_mem \<Rightarrow> phys_mem" where
  "write_u64 a v m = m(a div 8 := v)"

definition read_u8 :: "phys_mem \<Rightarrow> phys_addr \<Rightarrow> u8" where
  "read_u8 m a = ucast (drop_bit (8 * (a mod 8)) (m (a div 8)))"

definition write_u8 :: "phys_addr \<Rightarrow> u8 \<Rightarrow> phys_mem \<Rightarrow> phys_mem" where
  "write_u8 a b m =
     m(a div 8 := (m (a div 8) AND NOT (push_bit (8 * (a mod 8)) (mask 8)))
                    OR push_bit (8 * (a mod 8)) (ucast b))"

text \<open>\<^verbatim>\<open>ptr::write_bytes(p, 0, n)\<close> for a page-aligned \<open>p\<close> and whole pages.\<close>

definition zero_bytes :: "phys_addr \<Rightarrow> usize \<Rightarrow> phys_mem \<Rightarrow> phys_mem" where
  "zero_bytes a n m = (\<lambda>d. if a div 8 \<le> d \<and> d < (a + n) div 8 then 0 else m d)"

text \<open>\<^verbatim>\<open>PhysPageNum::zero\<close>.\<close>

definition ppn_zero :: "phys_page_num \<Rightarrow> phys_mem \<Rightarrow> phys_mem" where
  "ppn_zero p m = zero_bytes (ppn_base_addr p) PAGE_SIZE m"

text \<open>\<^verbatim>\<open>ptr::copy_nonoverlapping\<close> into and out of a byte buffer.\<close>

primrec write_buf :: "phys_addr \<Rightarrow> u8 list \<Rightarrow> phys_mem \<Rightarrow> phys_mem" where
  "write_buf a [] m = m"
| "write_buf a (b # bs) m = write_buf (a + 1) bs (write_u8 a b m)"

definition read_buf :: "phys_mem \<Rightarrow> phys_addr \<Rightarrow> usize \<Rightarrow> u8 list" where
  "read_buf m a n = map (\<lambda>i. read_u8 m (a + i)) [0..<n]"

section \<open>Frames of a doubleword\<close>

text \<open>Doublewords \<open>512 * p\<close> to \<open>512 * p + 511\<close> make up frame \<open>p\<close>.\<close>

definition dw_frame :: "nat \<Rightarrow> phys_page_num" where
  "dw_frame d = d div 512"

text \<open>Two memories that agree on a set of frames.\<close>

definition same_frames :: "phys_page_num set \<Rightarrow> phys_mem \<Rightarrow> phys_mem \<Rightarrow> bool" where
  "same_frames P m m' \<longleftrightarrow> (\<forall>d. dw_frame d \<in> P \<longrightarrow> m' d = m d)"

lemma same_frames_refl [simp, intro]: "same_frames P m m"
  by (simp add: same_frames_def)

lemma same_frames_trans [trans]:
  "same_frames P m m' \<Longrightarrow> same_frames P m' m'' \<Longrightarrow> same_frames P m m''"
  by (simp add: same_frames_def)

lemma same_frames_mono: "same_frames P m m' \<Longrightarrow> Q \<subseteq> P \<Longrightarrow> same_frames Q m m'"
  by (auto simp: same_frames_def)

lemma same_framesD: "same_frames P m m' \<Longrightarrow> dw_frame d \<in> P \<Longrightarrow> m' d = m d"
  by (simp add: same_frames_def)

lemma dw_frame_slot [simp]: "i < 512 \<Longrightarrow> dw_frame (p * 512 + i) = p"
  by (simp add: dw_frame_def)

lemma dw_frame_div8: "dw_frame (a div 8) = a div 4096"
  by (simp add: dw_frame_def div_mult2_eq [symmetric])

lemma ppn_zero_apply:
  assumes "p < 2 ^ 52"
  shows "ppn_zero p m d = (if dw_frame d = p then 0 else m d)"
proof -
  have "(p * 4096) div 8 = p * 512" "(p * 4096 + 4096) div 8 = p * 512 + 512"
    by (simp_all add: div_add1_eq mult.commute [of p])
  moreover have "(p * 512 \<le> d \<and> d < p * 512 + 512) = (d div 512 = p)"
    by arith
  ultimately show ?thesis
    using assms by (simp only: ppn_zero_def zero_bytes_def ppn_base_addr_eq dw_frame_def)
qed

section \<open>Bytes\<close>

lemma read_write_u8_same [mem_simps]: "read_u8 (write_u8 a b m) a = b"
  by (rule bit_word_eqI)
    (auto simp: read_u8_def write_u8_def bit_simps dest: bit_imp_le_length)

lemma read_write_u8_other:
  assumes "a \<noteq> a'"
  shows "read_u8 (write_u8 a b m) a' = read_u8 m a'"
proof (cases "a div 8 = a' div 8")
  case False
  then show ?thesis by (simp add: read_u8_def write_u8_def)
next
  case True
  then have "a mod 8 \<noteq> a' mod 8" using assms by (metis div_mult_mod_eq)
  then have apart: "8 * (a' mod 8) + n < 8 * (a mod 8) \<or> 8 * (a mod 8) + 8 \<le> 8 * (a' mod 8) + n"
    if "n < 8" for n using that by linarith
  show ?thesis
  proof (rule bit_word_eqI)
    fix n assume "n < LENGTH(8)"
    then have n: "n < 8" by simp
    show "bit (read_u8 (write_u8 a b m) a') n = bit (read_u8 m a') n"
      using apart [OF n] True n
      by (auto simp: read_u8_def write_u8_def bit_simps dest: bit_imp_le_length)
  qed
qed

lemma read_write_u8 [mem_simps]:
  "read_u8 (write_u8 a b m) a' = (if a' = a then b else read_u8 m a')"
  by (simp add: read_write_u8_same read_write_u8_other)

lemma write_u8_frame: "dw_frame d \<noteq> a div 4096 \<Longrightarrow> write_u8 a b m d = m d"
  by (auto simp: write_u8_def dw_frame_div8)

lemma read_write_buf:
  "read_u8 (write_buf a bs m) x = (if a \<le> x \<and> x < a + length bs then bs ! (x - a) else read_u8 m x)"
  by (induction bs arbitrary: a m) (auto simp: read_write_u8 nth_Cons')

lemma read_buf_length [simp]: "length (read_buf m a n) = n"
  by (simp add: read_buf_def)

lemma read_buf_write_buf [mem_simps]: "read_buf (write_buf a bs m) a (length bs) = bs"
  by (rule nth_equalityI) (auto simp: read_buf_def read_write_buf)

lemma read_buf_write_buf_other:
  "x + n \<le> a \<or> a + length bs \<le> x \<Longrightarrow> read_buf (write_buf a bs m) x n = read_buf m x n"
  by (auto simp: read_buf_def read_write_buf)

text \<open>A store inside one frame leaves the doublewords of the others alone.\<close>

lemma write_buf_frame:
  "a mod 4096 + length bs \<le> 4096 \<Longrightarrow> dw_frame d \<noteq> a div 4096 \<Longrightarrow> write_buf a bs m d = m d"
proof (induction bs arbitrary: a m)
  case Nil
  then show ?case by simp
next
  case (Cons b bs)
  show ?case
  proof (cases bs)
    case Nil
    then show ?thesis using Cons.prems by (simp add: write_u8_frame)
  next
    case (Cons c cs)
    have lt: "a mod 4096 + 1 < 4096" using Cons.prems(1) Cons by simp
    then have "(a + 1) mod 4096 = a mod 4096 + 1" "(a + 1) div 4096 = a div 4096"
      by (simp_all add: mod_Suc div_Suc)
    then show ?thesis using Cons.prems Cons.IH [of "a + 1"] by (simp add: write_u8_frame)
  qed
qed

lemma write_buf_same_frames:
  assumes "a mod 4096 + length bs \<le> 4096" and "a div 4096 \<notin> P"
  shows "same_frames P m (write_buf a bs m)"
  unfolding same_frames_def
proof (intro allI impI)
  fix d assume "dw_frame d \<in> P"
  then have "dw_frame d \<noteq> a div 4096" using assms(2) by auto
  with assms(1) show "write_buf a bs m d = m d" by (rule write_buf_frame)
qed

end
