(* ===== verification/Frame_Alloc.thy ===== *)
theory Frame_Alloc
  imports Phys_Mem
begin

text \<open>
  The physical frame allocator of \<^verbatim>\<open>kernel/src/mm/frame.rs\<close>: a binary buddy
  system whose free lists are doubly linked through the free frames and whose bitmap
  lies in the frames in front of the managed region. Both live in physical memory here
  too, so an operation takes and returns the allocator together with memory.

  This theory holds the operations. \<^verbatim>\<open>Frame_Lists\<close> shows that the linked lists
  and the bitmap represent a list of free blocks per order, and \<^verbatim>\<open>Frame_Correct\<close>
  proves the allocator correct against the set of free frames.
\<close>

unbundle bit_operations_syntax

section \<open>State\<close>

abbreviation (input) MAX_ORDER :: usize where "MAX_ORDER \<equiv> 10"
abbreviation (input) NIL :: usize where "NIL \<equiv> 0xffffffffffffffff"

text \<open>\<open>b_bitmap\<close> is the physical address the source's pointer \<^verbatim>\<open>bitmap\<close> maps to.\<close>

record buddy_allocator =
  b_base :: phys_page_num
  b_frames :: usize
  b_free_lists :: "usize list"
  b_bitmap :: phys_addr
  b_order_bit_base :: "usize list"
  b_allocated :: usize
  b_peak :: usize

record mm_state =
  fa :: buddy_allocator
  ram :: phys_mem

definition buddy_empty :: buddy_allocator where
  "buddy_empty = \<lparr>b_base = 0, b_frames = 0, b_free_lists = replicate (MAX_ORDER + 1) NIL,
     b_bitmap = 0, b_order_bit_base = replicate (MAX_ORDER + 1) 0, b_allocated = 0, b_peak = 0\<rparr>"

section \<open>The bitmap\<close>

definition bit_index :: "buddy_allocator \<Rightarrow> usize \<Rightarrow> usize \<Rightarrow> usize" where
  "bit_index b order idx = b_order_bit_base b ! order + drop_bit order idx"

definition is_free :: "mm_state \<Rightarrow> usize \<Rightarrow> usize \<Rightarrow> bool" where
  "is_free s order idx =
     (let bt = bit_index (fa s) order idx;
          w = read_u64 (ram s) (b_bitmap (fa s) + 8 * (bt div 64))
      in drop_bit (bt mod 64) w AND 1 \<noteq> 0)"

definition set_free :: "usize \<Rightarrow> usize \<Rightarrow> bool \<Rightarrow> mm_state \<Rightarrow> mm_state" where
  "set_free order idx free s =
     (let bt = bit_index (fa s) order idx;
          a = b_bitmap (fa s) + 8 * (bt div 64);
          w = read_u64 (ram s) a
      in s\<lparr>ram := write_u64 a (if free then w OR push_bit (bt mod 64) 1
                               else w AND NOT (push_bit (bt mod 64) 1)) (ram s)\<rparr>)"

section \<open>The intrusive lists\<close>

text \<open>\<^verbatim>\<open>FreeNode\<close> is the first 16 bytes of a free block: \<open>next\<close>, then \<open>prev\<close>.\<close>

definition node_addr :: "mm_state \<Rightarrow> usize \<Rightarrow> phys_addr" where
  "node_addr s idx = (b_base (fa s) + idx) * PAGE_SIZE"

definition node_next :: "mm_state \<Rightarrow> usize \<Rightarrow> usize" where
  "node_next s idx = unat (read_u64 (ram s) (node_addr s idx))"

definition node_prev :: "mm_state \<Rightarrow> usize \<Rightarrow> usize" where
  "node_prev s idx = unat (read_u64 (ram s) (node_addr s idx + 8))"

definition set_node_next :: "usize \<Rightarrow> usize \<Rightarrow> mm_state \<Rightarrow> mm_state" where
  "set_node_next idx v s = s\<lparr>ram := write_u64 (node_addr s idx) (word_of_nat v) (ram s)\<rparr>"

definition set_node_prev :: "usize \<Rightarrow> usize \<Rightarrow> mm_state \<Rightarrow> mm_state" where
  "set_node_prev idx v s = s\<lparr>ram := write_u64 (node_addr s idx + 8) (word_of_nat v) (ram s)\<rparr>"

definition set_head :: "usize \<Rightarrow> usize \<Rightarrow> mm_state \<Rightarrow> mm_state" where
  "set_head order v s = s\<lparr>fa := (fa s)\<lparr>b_free_lists := (b_free_lists (fa s))[order := v]\<rparr>\<rparr>"

definition buddy_push :: "usize \<Rightarrow> usize \<Rightarrow> mm_state \<Rightarrow> mm_state" where
  "buddy_push order idx s =
     (let head = b_free_lists (fa s) ! order;
          s1 = set_node_prev idx NIL (set_node_next idx head s);
          s2 = (if head \<noteq> NIL then set_node_prev head idx s1 else s1)
      in set_free order idx True (set_head order idx s2))"

definition buddy_remove :: "usize \<Rightarrow> usize \<Rightarrow> mm_state \<Rightarrow> mm_state" where
  "buddy_remove order idx s =
     (let next = node_next s idx; prev = node_prev s idx;
          s1 = (if prev \<noteq> NIL then set_node_next prev next s else set_head order next s);
          s2 = (if next \<noteq> NIL then set_node_prev next prev s1 else s1)
      in set_free order idx False s2)"

section \<open>Allocation and release\<close>

text \<open>The loop that looks for the smallest order with a free block.\<close>

function find_donor :: "usize list \<Rightarrow> usize \<Rightarrow> usize" where
  "find_donor fl donor =
     (if donor \<le> MAX_ORDER \<and> fl ! donor = NIL then find_donor fl (donor + 1) else donor)"
  by pat_completeness auto
termination
  by (relation "measure (\<lambda>(fl, donor). Suc MAX_ORDER - donor)") auto

declare find_donor.simps [simp del]

text \<open>The loop that splits a block, freeing each upper half.\<close>

fun split_down :: "usize \<Rightarrow> usize \<Rightarrow> usize \<Rightarrow> mm_state \<Rightarrow> mm_state" where
  "split_down order idx level s =
     (if order < level
      then split_down order idx (level - 1) (buddy_push (level - 1) (idx + 2 ^ (level - 1)) s)
      else s)"

declare split_down.simps [simp del]

definition buddy_alloc :: "usize \<Rightarrow> mm_state \<Rightarrow> phys_page_num option \<times> mm_state" where
  "buddy_alloc order s =
     (if MAX_ORDER < order then (None, s)
      else let donor = find_donor (b_free_lists (fa s)) order
           in if MAX_ORDER < donor then (None, s)
              else let idx = b_free_lists (fa s) ! donor;
                       s1 = split_down order idx donor (buddy_remove donor idx s);
                       used = b_allocated (fa s1) + 2 ^ order
                   in (Some (b_base (fa s1) + idx),
                       s1\<lparr>fa := (fa s1)\<lparr>b_allocated := used, b_peak := max (b_peak (fa s1)) used\<rparr>\<rparr>))"

text \<open>The loop that merges a block with its free buddies.\<close>

function merge_up :: "usize \<Rightarrow> usize \<Rightarrow> mm_state \<Rightarrow> usize \<times> usize \<times> mm_state" where
  "merge_up idx level s =
     (if level < MAX_ORDER
      then let buddy = idx XOR 2 ^ level
           in if b_frames (fa s) < buddy + 2 ^ level \<or> \<not> is_free s level buddy
              then (idx, level, s)
              else merge_up (min idx buddy) (level + 1) (buddy_remove level buddy s)
      else (idx, level, s))"
  by pat_completeness auto
termination
  by (relation "measure (\<lambda>(idx, level, s). MAX_ORDER - level)") auto

declare merge_up.simps [simp del]

text \<open>
  \<open>None\<close> is a panic: the two assertions, the underflow of \<^verbatim>\<open>allocated\<close>, and the
  index into \<^verbatim>\<open>free_lists\<close> for an order above \<open>MAX_ORDER\<close>. The
  \<^verbatim>\<open>debug_assert\<close> on a double free is compiled out of the release build.
\<close>

definition buddy_free :: "phys_page_num \<Rightarrow> usize \<Rightarrow> mm_state \<Rightarrow> mm_state option" where
  "buddy_free ppn order s = do {
     idx \<leftarrow> checked_sub ppn (b_base (fa s));
     if b_frames (fa s) < idx + 2 ^ order \<or> idx AND (2 ^ order - 1) \<noteq> 0 then None
     else do {
       left \<leftarrow> checked_sub (b_allocated (fa s)) (2 ^ order);
       let s1 = s\<lparr>fa := (fa s)\<lparr>b_allocated := left\<rparr>\<rparr>;
           (idx', level, s2) = merge_up idx order s1
       in if MAX_ORDER < level then None else Some (buddy_push level idx' s2)
     }
   }"

definition used_frames :: "buddy_allocator \<Rightarrow> usize" where
  "used_frames b = b_allocated b"

definition free_frame_count :: "buddy_allocator \<Rightarrow> usize option" where
  "free_frame_count b = checked_sub (b_frames b) (b_allocated b)"

definition total_frames :: "buddy_allocator \<Rightarrow> usize" where
  "total_frames b = b_frames b"

definition peak_frames :: "buddy_allocator \<Rightarrow> usize" where
  "peak_frames b = b_peak b"

definition order_for :: "usize \<Rightarrow> usize" where
  "order_for count = (if count \<le> 1 then 0 else 64 - leading_zeros (count - 1))"

section \<open>Initialisation\<close>

text \<open>The inner loop of the seeding: the largest order that is aligned at \<open>idx\<close> and fits.\<close>

fun seed_order :: "usize \<Rightarrow> usize \<Rightarrow> usize \<Rightarrow> usize" where
  "seed_order frames idx order =
     (if 0 < order \<and> (idx AND (2 ^ order - 1) \<noteq> 0 \<or> frames < idx + 2 ^ order)
      then seed_order frames idx (order - 1) else order)"

declare seed_order.simps [simp del]

function seed_lists :: "usize \<Rightarrow> mm_state \<Rightarrow> mm_state" where
  "seed_lists idx s =
     (if idx < b_frames (fa s)
      then let order = seed_order (b_frames (fa s)) idx MAX_ORDER
           in seed_lists (idx + 2 ^ order) (buddy_push order idx s)
      else s)"
  by pat_completeness auto
termination
proof (relation "measure (\<lambda>(idx, s). b_frames (fa s) - idx)", goal_cases)
  case 1
  then show ?case by simp
next
  case (2 idx s order)
  have "b_frames (fa (buddy_push order idx s)) = b_frames (fa s)"
    by (simp add: buddy_push_def set_free_def set_head_def set_node_next_def set_node_prev_def
        Let_def)
  then show ?case using 2 by (simp add: diff_less_mono2)
qed

declare seed_lists.simps [simp del]

text \<open>The number of bits each order's part of the bitmap takes, and where each part starts.\<close>

definition order_bits :: "usize \<Rightarrow> usize \<Rightarrow> usize" where
  "order_bits frames k = div_ceil frames (2 ^ k)"

definition bit_bases :: "usize \<Rightarrow> usize list" where
  "bit_bases frames = map (\<lambda>k. \<Sum>j<k. order_bits frames j) [0..<MAX_ORDER + 1]"

definition buddy_init :: "phys_addr \<Rightarrow> phys_addr \<Rightarrow> mm_state \<Rightarrow> mm_state option" where
  "buddy_init start end s = do {
     up \<leftarrow> align_up start;
     let first = pa_ppn up; last = pa_ppn (align_down end)
     in if last \<le> first then None
        else let total = last - first;
                 bits = (\<Sum>k\<le>MAX_ORDER. order_bits total k);
                 bitmap_bytes = next_multiple_of (div_ceil bits 8) 8;
                 bitmap_frames = div_ceil bitmap_bytes PAGE_SIZE;
                 m1 = zero_bytes (ppn_base_addr first) (bitmap_frames * PAGE_SIZE) (ram s);
                 aligned = next_multiple_of (first + bitmap_frames) (2 ^ MAX_ORDER)
             in do {
               frames \<leftarrow> checked_sub total (aligned - first);
               Some (seed_lists 0
                 \<lparr>fa = \<lparr>b_base = aligned, b_frames = frames,
                        b_free_lists = replicate (MAX_ORDER + 1) NIL,
                        b_bitmap = ppn_base_addr first,
                        b_order_bit_base = bit_bases frames,
                        b_allocated = 0, b_peak = 0\<rparr>,
                  ram = m1\<rparr>)
             }
   }"

section \<open>Frames as values\<close>

text \<open>
  \<^verbatim>\<open>alloc_frame\<close>, \<^verbatim>\<open>alloc_frames\<close> and \<^verbatim>\<open>free_frames\<close>, and the owning
  \<^verbatim>\<open>Frame\<close>, whose \<^verbatim>\<open>Drop\<close> is \<open>frame_drop\<close>.
\<close>

definition alloc_frame :: "mm_state \<Rightarrow> phys_page_num option \<times> mm_state" where
  "alloc_frame s =
     (case buddy_alloc 0 s of
        (None, s1) \<Rightarrow> (None, s1)
      | (Some ppn, s1) \<Rightarrow> (Some ppn, s1\<lparr>ram := ppn_zero ppn (ram s1)\<rparr>))"

definition alloc_frames :: "usize \<Rightarrow> mm_state \<Rightarrow> phys_page_num option \<times> mm_state" where
  "alloc_frames order s =
     (case buddy_alloc order s of
        (None, s1) \<Rightarrow> (None, s1)
      | (Some ppn, s1) \<Rightarrow>
          (Some ppn, s1\<lparr>ram := zero_bytes (ppn_base_addr ppn) (PAGE_SIZE * 2 ^ order) (ram s1)\<rparr>))"

definition free_frames :: "phys_page_num \<Rightarrow> usize \<Rightarrow> mm_state \<Rightarrow> mm_state option" where
  "free_frames ppn order s = buddy_free ppn order s"

record frame =
  fr_ppn :: phys_page_num
  fr_order :: usize

definition frame_alloc :: "mm_state \<Rightarrow> frame option \<times> mm_state" where
  "frame_alloc s =
     (case alloc_frame s of
        (None, s1) \<Rightarrow> (None, s1)
      | (Some ppn, s1) \<Rightarrow> (Some \<lparr>fr_ppn = ppn, fr_order = 0\<rparr>, s1))"

definition frame_alloc_order :: "usize \<Rightarrow> mm_state \<Rightarrow> frame option \<times> mm_state" where
  "frame_alloc_order order s =
     (case alloc_frames order s of
        (None, s1) \<Rightarrow> (None, s1)
      | (Some ppn, s1) \<Rightarrow> (Some \<lparr>fr_ppn = ppn, fr_order = order\<rparr>, s1))"

definition frame_count :: "frame \<Rightarrow> usize" where
  "frame_count f = 2 ^ fr_order f"

text \<open>\<^verbatim>\<open>into_raw\<close> forgets the value, so nothing is released.\<close>

definition frame_into_raw :: "frame \<Rightarrow> phys_page_num" where
  "frame_into_raw f = fr_ppn f"

definition frame_drop :: "frame \<Rightarrow> mm_state \<Rightarrow> mm_state option" where
  "frame_drop f s = free_frames (fr_ppn f) (fr_order f) s"

end
