(* ===== verification/Frame_Lists.thy ===== *)
theory Frame_Lists
  imports Frame_Alloc
begin

text \<open>
  The buddy allocator's data structure: the doubly linked free lists threaded through
  the free frames and the bitmap, as a list of block indices per order. The two
  elementary operations, \<open>buddy_push\<close> and \<open>buddy_remove\<close>, are shown to be
  a cons and a removal on that list, to keep every other list, and to write only
  to the bitmap and to free blocks.
\<close>

unbundle bit_operations_syntax

section \<open>Doubly linked lists\<close>

text \<open>
  \<open>dll nx pv p h xs\<close>: from head \<open>h\<close>, whose predecessor is \<open>p\<close>, the
  links spell out \<open>xs\<close>.
\<close>

fun dll :: "(nat \<Rightarrow> nat) \<Rightarrow> (nat \<Rightarrow> nat) \<Rightarrow> nat \<Rightarrow> nat \<Rightarrow> nat list \<Rightarrow> bool" where
  "dll nx pv p h [] \<longleftrightarrow> h = NIL"
| "dll nx pv p h (x # xs) \<longleftrightarrow> h = x \<and> x \<noteq> NIL \<and> pv x = p \<and> dll nx pv x (nx x) xs"

lemma dll_cong:
  "(\<And>x. x \<in> set xs \<Longrightarrow> nx' x = nx x) \<Longrightarrow> (\<And>x. x \<in> set xs \<Longrightarrow> pv' x = pv x)
    \<Longrightarrow> dll nx' pv' p h xs = dll nx pv p h xs"
  by (induction xs arbitrary: p h) auto

lemma dll_transfer:
  "dll nx pv p h xs \<Longrightarrow> (\<And>x. x \<in> set xs \<Longrightarrow> nx' x = nx x) \<Longrightarrow> (\<And>x. x \<in> set xs \<Longrightarrow> pv' x = pv x)
    \<Longrightarrow> dll nx' pv' p h xs"
  by (simp cong: dll_cong)

lemma dll_head: "dll nx pv p h xs \<Longrightarrow> h = (case xs of [] \<Rightarrow> NIL | x # _ \<Rightarrow> x)"
  by (cases xs) auto

lemma dll_head_NIL: "dll nx pv p h xs \<Longrightarrow> h = NIL \<longleftrightarrow> xs = []"
  by (cases xs) auto

text \<open>Changing the predecessor of the first element.\<close>

lemma dll_set_prev:
  "dll nx pv p h xs \<Longrightarrow> distinct xs \<Longrightarrow> h \<noteq> NIL \<Longrightarrow> dll nx (pv(h := q)) q h xs"
  by (cases xs) (auto elim!: dll_transfer)

lemma dll_cons:
  assumes "dll nx pv NIL h xs" "distinct xs" "i \<notin> set xs" "i \<noteq> NIL"
  shows "dll (nx(i := h)) (if h \<noteq> NIL then pv(i := NIL, h := i) else pv(i := NIL)) NIL i (i # xs)"
proof (cases xs)
  case Nil
  then show ?thesis using assms by simp
next
  case (Cons x ys)
  then have "h = x" "x \<noteq> i" using assms by auto
  moreover have "dll (nx(i := x)) (pv(i := NIL, x := i)) x (nx x) ys = dll nx pv x (nx x) ys"
    using assms Cons by (intro dll_cong) auto
  ultimately show ?thesis using assms Cons by simp
qed

lemma dll_links:
  "dll nx pv p h (xs @ x # ys) \<Longrightarrow>
     pv x = (if xs = [] then p else last xs) \<and> nx x = (if ys = [] then NIL else hd ys)"
proof (induction xs arbitrary: p h)
  case Nil
  then show ?case by (cases ys) simp_all
next
  case (Cons a xs)
  then have "dll nx pv a (nx a) (xs @ x # ys)" by simp
  from Cons.IH [OF this] show ?case by simp
qed

lemma dll_unlink:
  assumes "dll nx pv p h (xs @ x # ys)" "distinct (xs @ x # ys)" "p \<notin> set (xs @ x # ys)"
  shows "dll (if xs \<noteq> [] then nx(last xs := nx x) else nx)
             (if nx x \<noteq> NIL then pv(nx x := pv x) else pv) p
             (if xs \<noteq> [] then h else nx x) (xs @ ys)"
  using assms
proof (induction xs arbitrary: p h)
  case Nil
  then show ?case
    by (cases ys) (auto elim!: dll_transfer)
next
  case (Cons a xs)
  let ?nx = "\<lambda>zs. if zs \<noteq> [] then nx(last zs := nx x) else nx"
  let ?pv = "if nx x \<noteq> NIL then pv(nx x := pv x) else pv"
  have tail: "dll nx pv a (nx a) (xs @ x # ys)" and a: "h = a" "a \<noteq> NIL" "pv a = p"
    using Cons.prems(1) by auto
  have ih: "dll (?nx xs) ?pv a (if xs \<noteq> [] then nx a else nx x) (xs @ ys)"
    using Cons.IH [OF tail] Cons.prems(2) by auto
  have "nx x \<noteq> a" if "nx x \<noteq> NIL"
    using dll_links [OF tail] that Cons.prems(2) by (cases ys) auto
  then have "?pv a = p" using a by auto
  moreover have "dll (?nx (a # xs)) ?pv a (if xs \<noteq> [] then nx a else nx x) (xs @ ys)"
  proof (cases "xs = []")
    case True
    then show ?thesis using ih Cons.prems(2) by (auto elim!: dll_transfer)
  qed (use ih in simp)
  moreover have "?nx (a # xs) a = (if xs \<noteq> [] then nx a else nx x)"
    using Cons.prems(2) by auto
  ultimately show ?case using a by (simp only: append_Cons dll.simps) simp
qed

section \<open>Reading back the allocator's stores\<close>

lemma fa_updates [buddy_simps]:
  "fa (set_free k i b s) = fa s"
  "fa (set_node_next i v s) = fa s"
  "fa (set_node_prev i v s) = fa s"
  "fa (set_head k v s) = (fa s)\<lparr>b_free_lists := (b_free_lists (fa s))[k := v]\<rparr>"
  by (simp_all add: set_free_def set_node_next_def set_node_prev_def set_head_def Let_def)

lemma slot_simps [buddy_simps]:
  "(p * 4096) div 8 = p * (512::nat)" "(p * 4096 + 8) div 8 = p * 512 + (1::nat)"
proof -
  have "p * 4096 = (p * 512) * 8" by simp
  then show "(p * 4096) div 8 = p * (512::nat)" by (metis nonzero_mult_div_cancel_right
        zero_neq_numeral)
  have "p * 4096 + 8 = (p * 512 + 1) * 8" by simp
  then show "(p * 4096 + 8) div 8 = p * 512 + (1::nat)" by (metis nonzero_mult_div_cancel_right
        zero_neq_numeral)
qed

lemma slot_neq: "p * 512 + 1 \<noteq> q * (512::nat)"
proof
  assume "p * 512 + 1 = q * (512::nat)"
  then have "(p * 512 + 1) mod 512 = (q * 512) mod (512::nat)" by (rule arg_cong)
  then show False unfolding mod_mult_self3 by simp
qed

lemma unat_of_nat_usize [simp]: "v < 2 ^ 64 \<Longrightarrow> unat (word_of_nat v :: u64) = v"
  by (simp add: unsigned_of_nat take_bit_nat_eq_self)

lemma unat_usize_less: "unat (w :: u64) < 2 ^ 64"
proof -
  have "unat w < 2 ^ LENGTH(64)" by (rule unsigned_less)
  then show ?thesis by simp
qed

lemma node_after_next [buddy_simps]:
  "v < 2 ^ 64 \<Longrightarrow> node_next (set_node_next i v s) = (node_next s)(i := v)"
  "node_prev (set_node_next i v s) = node_prev s"
proof -
  show "v < 2 ^ 64 \<Longrightarrow> node_next (set_node_next i v s) = (node_next s)(i := v)"
    by (rule ext) (simp add: node_next_def set_node_next_def node_addr_def read_u64_def
        write_u64_def slot_simps)
  show "node_prev (set_node_next i v s) = node_prev s"
    using slot_neq by (intro ext) (simp add: node_prev_def set_node_next_def node_addr_def
        read_u64_def write_u64_def slot_simps)
qed

lemma node_after_prev [buddy_simps]:
  "v < 2 ^ 64 \<Longrightarrow> node_prev (set_node_prev i v s) = (node_prev s)(i := v)"
  "node_next (set_node_prev i v s) = node_next s"
proof -
  show "v < 2 ^ 64 \<Longrightarrow> node_prev (set_node_prev i v s) = (node_prev s)(i := v)"
    by (rule ext) (simp add: node_prev_def set_node_prev_def node_addr_def read_u64_def
        write_u64_def slot_simps)
  show "node_next (set_node_prev i v s) = node_next s"
    using slot_neq [symmetric] by (intro ext) (simp add: node_next_def set_node_prev_def
        node_addr_def read_u64_def write_u64_def slot_simps)
qed

lemma node_after_head [buddy_simps]:
  "node_next (set_head k v s) = node_next s" "node_prev (set_head k v s) = node_prev s"
  by (simp_all add: fun_eq_iff node_next_def node_prev_def node_addr_def set_head_def)

section \<open>Blocks and the layout of the bitmap\<close>

text \<open>The frames of a block, and the blocks that exist among \<open>n\<close> frames.\<close>

definition blk :: "nat \<Rightarrow> nat \<Rightarrow> nat set" where
  "blk k i = {i..<i + 2 ^ k}"

definition valid_block :: "nat \<Rightarrow> nat \<Rightarrow> nat \<Rightarrow> bool" where
  "valid_block n k i \<longleftrightarrow> 2 ^ k dvd i \<and> i + 2 ^ k \<le> n"

definition total_bits :: "nat \<Rightarrow> nat" where
  "total_bits n = (\<Sum>k\<le>MAX_ORDER. order_bits n k)"

definition layout :: "buddy_allocator \<Rightarrow> bool" where
  "layout b \<longleftrightarrow> length (b_free_lists b) = MAX_ORDER + 1 \<and>
     b_order_bit_base b = bit_bases (b_frames b) \<and>
     8 dvd b_bitmap b \<and> b_bitmap b div 8 * 64 + total_bits (b_frames b) \<le> b_base b * 512 * 64 \<and>
     2 ^ MAX_ORDER dvd b_base b \<and> b_base b + b_frames b \<le> 2 ^ 52"

lemma valid_block_less: "valid_block n k i \<Longrightarrow> i < n"
  by (auto simp: valid_block_def) (metis add_leE le_neq_implies_less less_add_same_cancel1
      not_le zero_less_numeral zero_less_power)

lemma layout_not_NIL: "layout b \<Longrightarrow> valid_block (b_frames b) k i \<Longrightarrow> i < 2 ^ 52 \<and> i \<noteq> NIL"
  using valid_block_less by (fastforce simp: layout_def)

lemma bit_index_bounds:
  assumes "layout b" "k \<le> MAX_ORDER" "valid_block (b_frames b) k i"
  shows "(\<Sum>j<k. order_bits (b_frames b) j) \<le> bit_index b k i"
    and "bit_index b k i < (\<Sum>j<Suc k. order_bits (b_frames b) j)"
proof -
  have base: "b_order_bit_base b ! k = (\<Sum>j<k. order_bits (b_frames b) j)"
    using assms by (simp add: layout_def bit_bases_def del: upt_Suc)
  then show "(\<Sum>j<k. order_bits (b_frames b) j) \<le> bit_index b k i"
    by (simp add: bit_index_def)
  have "i < div_ceil (b_frames b) (2 ^ k) * 2 ^ k"
    using div_ceil_bound [of "2 ^ k" "b_frames b"] valid_block_less [OF assms(3)] by simp
  then have "i div 2 ^ k < order_bits (b_frames b) k"
    by (simp add: order_bits_def less_mult_imp_div_less)
  then show "bit_index b k i < (\<Sum>j<Suc k. order_bits (b_frames b) j)"
    using base by (simp add: bit_index_def drop_bit_eq_div)
qed

lemma bit_index_total:
  assumes "layout b" "k \<le> MAX_ORDER" "valid_block (b_frames b) k i"
  shows "bit_index b k i < total_bits (b_frames b)"
proof -
  have "(\<Sum>j<Suc k. order_bits (b_frames b) j) \<le> total_bits (b_frames b)"
    unfolding total_bits_def using assms(2) by (intro sum_mono2) auto
  then show ?thesis using bit_index_bounds(2) [OF assms] by simp
qed

lemma bit_index_inj:
  assumes "layout b" "k \<le> MAX_ORDER" "valid_block (b_frames b) k i"
    and "k' \<le> MAX_ORDER" "valid_block (b_frames b) k' i'"
    and "bit_index b k i = bit_index b k' i'"
  shows "k = k' \<and> i = i'"
proof -
  let ?S = "\<lambda>k. \<Sum>j<k. order_bits (b_frames b) j"
  have mono: "?S x \<le> ?S y" if "x \<le> y" for x y
    using that by (intro sum_mono2) auto
  have "\<not> Suc k \<le> k'" "\<not> Suc k' \<le> k"
    using mono [of "Suc k" k'] mono [of "Suc k'" k] bit_index_bounds [OF assms(1,2,3)]
      bit_index_bounds [OF assms(1,4,5)] assms(6) by linarith+
  then have k: "k = k'" by simp
  then have "i div 2 ^ k = i' div 2 ^ k"
    using assms(6) by (simp add: bit_index_def drop_bit_eq_div)
  then show ?thesis using k assms(3,5) by (auto simp: valid_block_def)
qed

text \<open>The doubleword of a block's bit lies below the managed frames.\<close>

lemma bit_slot:
  assumes "layout b" "k \<le> MAX_ORDER" "valid_block (b_frames b) k i"
  shows "(b_bitmap b + 8 * (bit_index b k i div 64)) div 8
           = b_bitmap b div 8 + bit_index b k i div 64"
    and "b_bitmap b div 8 + bit_index b k i div 64 < b_base b * 512"
proof -
  show "(b_bitmap b + 8 * (bit_index b k i div 64)) div 8
           = b_bitmap b div 8 + bit_index b k i div 64" by simp
  have "b_bitmap b div 8 * 64 + bit_index b k i < b_base b * 512 * 64"
    using bit_index_total [OF assms] assms(1) by (simp add: layout_def)
  then have "(b_bitmap b div 8 * 64 + bit_index b k i) div 64 < b_base b * 512"
    by (simp add: less_mult_imp_div_less)
  then show "b_bitmap b div 8 + bit_index b k i div 64 < b_base b * 512" by simp
qed

lemma and_one_drop_bit: "drop_bit n (w::u64) AND 1 \<noteq> 0 \<longleftrightarrow> bit w n"
  by (simp add: bit_iff_odd_drop_bit and_one_eq odd_iff_mod_2_eq_one)

lemma is_free_set_free:
  assumes lay: "layout (fa s)" and "k \<le> MAX_ORDER" "valid_block (b_frames (fa s)) k i"
    and "k' \<le> MAX_ORDER" "valid_block (b_frames (fa s)) k' i'"
  shows "is_free (set_free k i f s) k' i' = (if k' = k \<and> i' = i then f else is_free s k' i')"
proof -
  let ?t = "bit_index (fa s) k i" and ?t' = "bit_index (fa s) k' i'"
  have inj: "?t' = ?t \<longleftrightarrow> k' = k \<and> i' = i" using bit_index_inj assms by metis
  have "?t' div 64 = ?t div 64 \<Longrightarrow> ?t' mod 64 = ?t mod 64 \<longleftrightarrow> ?t' = ?t"
    by (metis div_mult_mod_eq)
  moreover have "?t mod 64 < 64" "?t' mod 64 < 64" by simp_all
  ultimately show ?thesis
    unfolding inj [symmetric]
    by (auto simp: is_free_def set_free_def Let_def read_u64_def write_u64_def and_one_drop_bit
        bit_simps)
qed

lemma is_free_set_node:
  assumes "layout (fa s)" "k \<le> MAX_ORDER" "valid_block (b_frames (fa s)) k i"
  shows "is_free (set_node_next j v s) k i = is_free s k i"
    and "is_free (set_node_prev j v s) k i = is_free s k i"
    and "is_free (set_head k' v s) k i = is_free s k i"
proof -
  have "b_bitmap (fa s) div 8 + bit_index (fa s) k i div 64 < (b_base (fa s) + j) * 512"
    using bit_slot(2) [OF assms] by simp
  then have "b_bitmap (fa s) div 8 + bit_index (fa s) k i div 64 \<noteq> (b_base (fa s) + j) * 512"
    "b_bitmap (fa s) div 8 + bit_index (fa s) k i div 64 \<noteq> (b_base (fa s) + j) * 512 + 1"
    by linarith+
  then show "is_free (set_node_next j v s) k i = is_free s k i"
    "is_free (set_node_prev j v s) k i = is_free s k i"
    by (simp_all add: is_free_def set_node_next_def set_node_prev_def Let_def read_u64_def
        write_u64_def node_addr_def slot_simps bit_slot(1) [OF assms])
  show "is_free (set_head k' v s) k i = is_free s k i"
    by (simp add: is_free_def set_head_def Let_def bit_index_def)
qed

lemma ram_set_free:
  assumes "layout (fa s)" "k \<le> MAX_ORDER" "valid_block (b_frames (fa s)) k i"
    and "d \<noteq> b_bitmap (fa s) div 8 + bit_index (fa s) k i div 64"
  shows "ram (set_free k i f s) d = ram s d"
  using assms(4) bit_slot(1) [OF assms(1-3)]
  by (simp only: set_free_def Let_def write_u64_def) simp

lemma node_after_set_free:
  assumes "layout (fa s)" "k \<le> MAX_ORDER" "valid_block (b_frames (fa s)) k i"
  shows "node_next (set_free k i f s) = node_next s" "node_prev (set_free k i f s) = node_prev s"
proof -
  have lt: "b_bitmap (fa s) div 8 + bit_index (fa s) k i div 64 < (b_base (fa s) + j) * 512" for j
    using bit_slot(2) [OF assms] by simp
  then have "ram (set_free k i f s) ((b_base (fa s) + j) * 512) = ram s ((b_base (fa s) + j) * 512)"
    "ram (set_free k i f s) ((b_base (fa s) + j) * 512 + 1)
       = ram s ((b_base (fa s) + j) * 512 + 1)" for j
    using ram_set_free [OF assms] by (metis less_irrefl, metis add_lessD1 less_irrefl)
  then show "node_next (set_free k i f s) = node_next s"
    "node_prev (set_free k i f s) = node_prev s"
    by (auto simp only: fun_eq_iff node_next_def node_prev_def node_addr_def fa_updates
        read_u64_def slot_simps)
qed

section \<open>The representation\<close>

text \<open>
  \<open>hrep s L\<close>: for every order \<open>k\<close> the free list spells out \<open>L k\<close>, a
  list of distinct blocks of that order, and the bitmap marks exactly these.
\<close>

definition hrep :: "mm_state \<Rightarrow> (nat \<Rightarrow> nat list) \<Rightarrow> bool" where
  "hrep s L \<longleftrightarrow> layout (fa s) \<and>
     (\<forall>k\<le>MAX_ORDER. dll (node_next s) (node_prev s) NIL (b_free_lists (fa s) ! k) (L k)
        \<and> distinct (L k) \<and> (\<forall>i\<in>set (L k). valid_block (b_frames (fa s)) k i)) \<and>
     (\<forall>k\<le>MAX_ORDER. \<forall>i. valid_block (b_frames (fa s)) k i \<longrightarrow> is_free s k i = (i \<in> set (L k))) \<and>
     (\<forall>k\<le>MAX_ORDER. \<forall>k'\<le>MAX_ORDER. k \<noteq> k' \<longrightarrow> set (L k) \<inter> set (L k') = {})"

lemma hrepI:
  assumes "layout (fa s)"
    and "\<And>k. k \<le> MAX_ORDER \<Longrightarrow> dll (node_next s) (node_prev s) NIL (b_free_lists (fa s) ! k) (L k)"
    and "\<And>k. k \<le> MAX_ORDER \<Longrightarrow> distinct (L k)"
    and "\<And>k i. k \<le> MAX_ORDER \<Longrightarrow> i \<in> set (L k) \<Longrightarrow> valid_block (b_frames (fa s)) k i"
    and "\<And>k i. k \<le> MAX_ORDER \<Longrightarrow> valid_block (b_frames (fa s)) k i
           \<Longrightarrow> is_free s k i = (i \<in> set (L k))"
    and "\<And>k k'. k \<le> MAX_ORDER \<Longrightarrow> k' \<le> MAX_ORDER \<Longrightarrow> k \<noteq> k' \<Longrightarrow> set (L k) \<inter> set (L k') = {}"
  shows "hrep s L"
  using assms unfolding hrep_def by blast

lemma hrepD:
  assumes "hrep s L"
  shows "layout (fa s)"
    and "k \<le> MAX_ORDER \<Longrightarrow> dll (node_next s) (node_prev s) NIL (b_free_lists (fa s) ! k) (L k)"
    and "k \<le> MAX_ORDER \<Longrightarrow> distinct (L k)"
    and "k \<le> MAX_ORDER \<Longrightarrow> i \<in> set (L k) \<Longrightarrow> valid_block (b_frames (fa s)) k i"
    and "k \<le> MAX_ORDER \<Longrightarrow> valid_block (b_frames (fa s)) k i \<Longrightarrow> is_free s k i = (i \<in> set (L k))"
    and "k \<le> MAX_ORDER \<Longrightarrow> k' \<le> MAX_ORDER \<Longrightarrow> i \<in> set (L k) \<Longrightarrow> i \<in> set (L k') \<Longrightarrow> k = k'"
  using assms unfolding hrep_def by blast+

lemma hrep_head:
  assumes "hrep s L" "k \<le> MAX_ORDER"
  shows "b_free_lists (fa s) ! k = (case L k of [] \<Rightarrow> NIL | x # _ \<Rightarrow> x)"
    and "b_free_lists (fa s) ! k = NIL \<longleftrightarrow> L k = []"
    and "b_free_lists (fa s) ! k < 2 ^ 64"
    and "b_free_lists (fa s) ! k \<noteq> NIL \<Longrightarrow> b_free_lists (fa s) ! k \<in> set (L k)"
proof -
  show head: "b_free_lists (fa s) ! k = (case L k of [] \<Rightarrow> NIL | x # _ \<Rightarrow> x)"
    using hrepD(2) [OF assms] by (rule dll_head)
  show "b_free_lists (fa s) ! k = NIL \<longleftrightarrow> L k = []"
    using hrepD(2) [OF assms] by (rule dll_head_NIL)
  show "b_free_lists (fa s) ! k \<noteq> NIL \<Longrightarrow> b_free_lists (fa s) ! k \<in> set (L k)"
    using head by (cases "L k") auto
  then show "b_free_lists (fa s) ! k < 2 ^ 64"
    using hrepD(4) [OF assms] layout_not_NIL [OF hrepD(1) [OF assms(1)]] by fastforce
qed

text \<open>What \<open>buddy_push\<close> does to each part of the structure.\<close>

lemma buddy_push_parts:
  assumes "hrep s L" "k \<le> MAX_ORDER" "valid_block (b_frames (fa s)) k i"
  defines "h \<equiv> b_free_lists (fa s) ! k"
  shows "fa (buddy_push k i s) = (fa s)\<lparr>b_free_lists := (b_free_lists (fa s))[k := i]\<rparr>"
    and "node_next (buddy_push k i s) = (node_next s)(i := h)"
    and "node_prev (buddy_push k i s) = (if h \<noteq> NIL then (node_prev s)(i := NIL, h := i)
           else (node_prev s)(i := NIL))"
    and "k' \<le> MAX_ORDER \<Longrightarrow> valid_block (b_frames (fa s)) k' i' \<Longrightarrow>
           is_free (buddy_push k i s) k' i' = (if k' = k \<and> i' = i then True else is_free s k' i')"
proof -
  let ?s1 = "set_node_prev i NIL (set_node_next i h s)"
  let ?s2 = "set_head k i (if h \<noteq> NIL then set_node_prev h i ?s1 else ?s1)"
  have push: "buddy_push k i s = set_free k i True ?s2"
    by (simp add: buddy_push_def h_def Let_def)
  have h: "h < 2 ^ 64" using hrep_head(3) [OF assms(1,2)] by (simp add: h_def)
  have i: "i < 2 ^ 64" using layout_not_NIL [OF hrepD(1) [OF assms(1)] assms(3)] by simp
  have fa2: "fa ?s2 = (fa s)\<lparr>b_free_lists := (b_free_lists (fa s))[k := i]\<rparr>"
    by (simp add: buddy_simps)
  have lay: "layout (fa s)" and lay2: "layout (fa ?s2)"
    using hrepD(1) [OF assms(1)] by (simp_all add: fa2 layout_def)
  show "fa (buddy_push k i s) = (fa s)\<lparr>b_free_lists := (b_free_lists (fa s))[k := i]\<rparr>"
    by (simp only: push fa_updates(1) fa2)
  have v2: "valid_block (b_frames (fa ?s2)) k i"
    using assms(3) by (simp only: fa2) simp
  note free2 = node_after_set_free [OF lay2 assms(2) v2]
  show "node_next (buddy_push k i s) = (node_next s)(i := h)"
    using h by (simp add: push free2 buddy_simps)
  show "node_prev (buddy_push k i s) = (if h \<noteq> NIL then (node_prev s)(i := NIL, h := i)
           else (node_prev s)(i := NIL))"
    using i by (simp add: push free2 buddy_simps)
  assume k': "k' \<le> MAX_ORDER" "valid_block (b_frames (fa s)) k' i'"
  have "is_free ?s2 k' i' = is_free s k' i'"
    using k' lay by (simp add: is_free_set_node fa_updates)
  moreover have "valid_block (b_frames (fa ?s2)) k' i'"
    using k'(2) by (simp only: fa2) simp
  ultimately show "is_free (buddy_push k i s) k' i' =
      (if k' = k \<and> i' = i then True else is_free s k' i')"
    using is_free_set_free [OF lay2 assms(2) v2 k'(1)] by (simp only: push)
qed

lemma hrep_push:
  assumes "hrep s L" "k \<le> MAX_ORDER" "valid_block (b_frames (fa s)) k i"
    and new: "\<And>k'. k' \<le> MAX_ORDER \<Longrightarrow> i \<notin> set (L k')"
  shows "hrep (buddy_push k i s) (L(k := i # L k))"
proof (rule hrepI)
  note parts = buddy_push_parts [OF assms(1-3)]
  let ?h = "b_free_lists (fa s) ! k"
  have lay: "layout (fa s)" by (rule hrepD(1) [OF assms(1)])
  show "layout (fa (buddy_push k i s))" using lay by (simp add: parts layout_def)
  fix k' assume k': "k' \<le> MAX_ORDER"
  show "dll (node_next (buddy_push k i s)) (node_prev (buddy_push k i s)) NIL
          (b_free_lists (fa (buddy_push k i s)) ! k') ((L(k := i # L k)) k')"
  proof (cases "k' = k")
    case True
    have "dll (node_next (buddy_push k i s)) (node_prev (buddy_push k i s)) NIL i (i # L k)"
      unfolding parts(2,3)
      using hrepD(2,3) [OF assms(1,2)] new [OF assms(2)] layout_not_NIL [OF lay assms(3)]
      by (intro dll_cons) auto
    then show ?thesis using True lay assms(2) by (simp add: parts(1) layout_def)
  next
    case False
    have "x \<noteq> i \<and> (?h \<noteq> NIL \<longrightarrow> x \<noteq> ?h)" if "x \<in> set (L k')" for x
      using that new [OF k'] hrep_head(4) [OF assms(1,2)] hrepD(6) [OF assms(1) k' assms(2)] False
      by metis
    then have "dll (node_next (buddy_push k i s)) (node_prev (buddy_push k i s)) NIL
        (b_free_lists (fa s) ! k') (L k')"
      unfolding parts(2,3)
      by (intro dll_transfer [OF hrepD(2) [OF assms(1) k']]) auto
    then show ?thesis using False by (simp add: parts(1))
  qed
  show "distinct ((L(k := i # L k)) k')"
    using hrepD(3) [OF assms(1) k'] new [OF k'] by auto
next
  fix k' i' assume "k' \<le> MAX_ORDER" "i' \<in> set ((L(k := i # L k)) k')"
  then show "valid_block (b_frames (fa (buddy_push k i s))) k' i'"
    using assms(3) hrepD(4) [OF assms(1)]
    by (auto simp: buddy_push_parts [OF assms(1-3)] split: if_splits)
next
  fix k' i' assume *: "k' \<le> MAX_ORDER" "valid_block (b_frames (fa (buddy_push k i s))) k' i'"
  then have "valid_block (b_frames (fa s)) k' i'" by (simp add: buddy_push_parts [OF assms(1-3)])
  with * show "is_free (buddy_push k i s) k' i' = (i' \<in> set ((L(k := i # L k)) k'))"
    using hrepD(5) [OF assms(1)] by (auto simp: buddy_push_parts(4) [OF assms(1-3)])
next
  fix k1 k2 :: nat assume "k1 \<le> MAX_ORDER" "k2 \<le> MAX_ORDER" "k1 \<noteq> k2"
  then show "set ((L(k := i # L k)) k1) \<inter> set ((L(k := i # L k)) k2) = {}"
    using new hrepD(6) [OF assms(1)] by auto
qed

text \<open>The same for \<open>buddy_remove\<close>.\<close>

lemma buddy_remove_parts:
  assumes "hrep s L" "k \<le> MAX_ORDER" "L k = xs @ i # ys"
  shows "fa (buddy_remove k i s) = (if xs = [] then
           (fa s)\<lparr>b_free_lists := (b_free_lists (fa s))[k := node_next s i]\<rparr> else fa s)"
    and "node_next (buddy_remove k i s) =
           (if xs \<noteq> [] then (node_next s)(last xs := node_next s i) else node_next s)"
    and "node_prev (buddy_remove k i s) =
           (if node_next s i \<noteq> NIL then (node_prev s)(node_next s i := node_prev s i)
            else node_prev s)"
    and "k' \<le> MAX_ORDER \<Longrightarrow> valid_block (b_frames (fa s)) k' i' \<Longrightarrow>
           is_free (buddy_remove k i s) k' i' = (if k' = k \<and> i' = i then False else is_free s k' i')"
proof -
  let ?n = "node_next s i" and ?p = "node_prev s i"
  let ?s1 = "if ?p \<noteq> NIL then set_node_next ?p ?n s else set_head k ?n s"
  let ?s2 = "if ?n \<noteq> NIL then set_node_prev ?n ?p ?s1 else ?s1"
  have rem: "buddy_remove k i s = set_free k i False ?s2"
    by (simp add: buddy_remove_def Let_def)
  have v: "valid_block (b_frames (fa s)) k x" if "x \<in> set (xs @ i # ys)" for x
    using hrepD(4) [OF assms(1,2)] assms(3) that by metis
  have lay: "layout (fa s)" by (rule hrepD(1) [OF assms(1)])
  have "xs \<noteq> [] \<Longrightarrow> last xs \<noteq> NIL"
    using layout_not_NIL [OF lay v [of "last xs"]] by simp
  then have p: "?p \<noteq> NIL \<longleftrightarrow> xs \<noteq> []" "xs \<noteq> [] \<Longrightarrow> ?p = last xs"
    using dll_links [OF hrepD(2) [OF assms(1,2), unfolded assms(3)]] by auto
  have lt: "?n < 2 ^ 64" "?p < 2 ^ 64"
    by (simp_all only: node_next_def node_prev_def unat_usize_less)
  have fa2: "fa ?s2 = (if xs = [] then
      (fa s)\<lparr>b_free_lists := (b_free_lists (fa s))[k := ?n]\<rparr> else fa s)"
    using p(1) by (simp add: buddy_simps)
  have lay2: "layout (fa ?s2)" and v2: "valid_block (b_frames (fa ?s2)) k i"
    using lay v by (simp_all add: fa2 layout_def)
  note free2 = node_after_set_free [OF lay2 assms(2) v2]
  show "fa (buddy_remove k i s) = (if xs = [] then
           (fa s)\<lparr>b_free_lists := (b_free_lists (fa s))[k := ?n]\<rparr> else fa s)"
    by (simp only: rem fa_updates(1) fa2)
  show "node_next (buddy_remove k i s) =
           (if xs \<noteq> [] then (node_next s)(last xs := ?n) else node_next s)"
    using p lt by (cases "xs = []") (simp_all add: rem free2 buddy_simps)
  show "node_prev (buddy_remove k i s) =
           (if ?n \<noteq> NIL then (node_prev s)(?n := ?p) else node_prev s)"
    using lt by (simp add: rem free2 buddy_simps)
  assume k': "k' \<le> MAX_ORDER" "valid_block (b_frames (fa s)) k' i'"
  have "is_free ?s2 k' i' = is_free s k' i'"
    using k' lay by (simp add: is_free_set_node fa_updates layout_def)
  moreover have "valid_block (b_frames (fa ?s2)) k' i'"
    using k'(2) by (simp only: fa2) simp
  ultimately show "is_free (buddy_remove k i s) k' i' =
      (if k' = k \<and> i' = i then False else is_free s k' i')"
    using is_free_set_free [OF lay2 assms(2) v2 k'(1)] by (simp only: rem)
qed

lemma hrep_remove:
  assumes "hrep s L" "k \<le> MAX_ORDER" "i \<in> set (L k)"
  shows "hrep (buddy_remove k i s) (L(k := remove1 i (L k)))"
proof -
  obtain xs ys where split: "L k = xs @ i # ys" using assms(3) by (meson split_list)
  note parts = buddy_remove_parts [OF assms(1,2) split]
  have dist: "distinct (xs @ i # ys)" using hrepD(3) [OF assms(1,2)] split by simp
  then have rem1: "remove1 i (L k) = xs @ ys" by (simp add: split remove1_append)
  have lay: "layout (fa s)" by (rule hrepD(1) [OF assms(1)])
  have old: "dll (node_next s) (node_prev s) NIL (b_free_lists (fa s) ! k) (xs @ i # ys)"
    using hrepD(2) [OF assms(1,2)] split by simp
  have nil: "NIL \<notin> set (xs @ i # ys)"
    using hrepD(4) [OF assms(1,2)] layout_not_NIL [OF lay] split by metis
  show ?thesis
  proof (rule hrepI)
    show "layout (fa (buddy_remove k i s))" using lay by (simp add: parts layout_def)
    fix k' assume k': "k' \<le> MAX_ORDER"
    show "dll (node_next (buddy_remove k i s)) (node_prev (buddy_remove k i s)) NIL
            (b_free_lists (fa (buddy_remove k i s)) ! k') ((L(k := remove1 i (L k))) k')"
    proof (cases "k' = k")
      case True
      then have "b_free_lists (fa (buddy_remove k i s)) ! k' =
          (if xs \<noteq> [] then b_free_lists (fa s) ! k else node_next s i)"
        using lay assms(2) by (simp add: parts(1) layout_def)
      then show ?thesis
        using True dll_unlink [OF old dist nil] by (simp only: fun_upd_same parts(2,3) rem1)
    next
      case False
      have mem: "xs \<noteq> [] \<Longrightarrow> last xs \<in> set (L k)" "node_next s i \<noteq> NIL \<Longrightarrow> node_next s i \<in> set (L k)"
        using dll_links [OF old] by (auto simp: split)
      have "(xs \<noteq> [] \<longrightarrow> x \<noteq> last xs) \<and> (node_next s i \<noteq> NIL \<longrightarrow> x \<noteq> node_next s i)"
        if "x \<in> set (L k')" for x
        using that mem hrepD(6) [OF assms(1) k' assms(2)] False by metis
      then have "dll (node_next (buddy_remove k i s)) (node_prev (buddy_remove k i s)) NIL
          (b_free_lists (fa s) ! k') (L k')"
        unfolding parts(2,3) by (intro dll_transfer [OF hrepD(2) [OF assms(1) k']]) auto
      then show ?thesis using False by (simp add: parts(1))
    qed
    show "distinct ((L(k := remove1 i (L k))) k')"
      using hrepD(3) [OF assms(1) k'] by auto
  next
    fix k' i' assume "k' \<le> MAX_ORDER" "i' \<in> set ((L(k := remove1 i (L k))) k')"
    then show "valid_block (b_frames (fa (buddy_remove k i s))) k' i'"
      using hrepD(4) [OF assms(1)] set_remove1_subset [of i "L k"] by (auto simp: parts split: if_splits)
  next
    fix k' i' assume *: "k' \<le> MAX_ORDER" "valid_block (b_frames (fa (buddy_remove k i s))) k' i'"
    then have "valid_block (b_frames (fa s)) k' i'" by (simp add: parts split: if_splits)
    with * show "is_free (buddy_remove k i s) k' i' = (i' \<in> set ((L(k := remove1 i (L k))) k'))"
      using hrepD(5) [OF assms(1)] dist by (auto simp: parts(4) rem1 split)
  next
    fix k1 k2 :: nat assume "k1 \<le> MAX_ORDER" "k2 \<le> MAX_ORDER" "k1 \<noteq> k2"
    then show "set ((L(k := remove1 i (L k))) k1) \<inter> set ((L(k := remove1 i (L k))) k2) = {}"
      using hrepD(6) [OF assms(1)] set_remove1_subset [of i "L k"] by (auto split: if_splits)
  qed
qed

section \<open>What the operations write\<close>

text \<open>The frames that hold the bitmap.\<close>

definition meta_frames :: "buddy_allocator \<Rightarrow> phys_page_num set" where
  "meta_frames b = {b_bitmap b div PAGE_SIZE..<b_base b}"

lemma same_frames_node:
  assumes "b_base (fa s) + i \<notin> P"
  shows "same_frames P (ram s) (ram (set_node_next i v s))"
    and "same_frames P (ram s) (ram (set_node_prev i v s))"
  using assms dw_frame_slot [of 0 "b_base (fa s) + i"] dw_frame_slot [of 1 "b_base (fa s) + i"]
  by (auto simp: same_frames_def set_node_next_def set_node_prev_def node_addr_def write_u64_def
      slot_simps)

lemma same_frames_set_free:
  assumes "layout (fa s)" "k \<le> MAX_ORDER" "valid_block (b_frames (fa s)) k i"
    and "meta_frames (fa s) \<inter> P = {}"
  shows "same_frames P (ram s) (ram (set_free k i f s))"
proof -
  let ?d = "b_bitmap (fa s) div 8 + bit_index (fa s) k i div 64"
  have "dw_frame (b_bitmap (fa s) div 8) \<le> dw_frame ?d" by (simp add: dw_frame_def div_le_mono)
  moreover have "dw_frame ?d < b_base (fa s)"
    using bit_slot(2) [OF assms(1-3)] by (simp add: dw_frame_def less_mult_imp_div_less)
  ultimately have "dw_frame ?d \<notin> P"
    using assms(4) by (auto simp: meta_frames_def dw_frame_div8)
  then show ?thesis
    using ram_set_free [OF assms(1-3)] by (auto simp: same_frames_def) metis
qed

text \<open>The frames of the nodes on the free lists.\<close>

definition node_frames :: "mm_state \<Rightarrow> (nat \<Rightarrow> nat list) \<Rightarrow> phys_page_num set" where
  "node_frames s L = (\<lambda>i. b_base (fa s) + i) ` (\<Union>k\<le>MAX_ORDER. set (L k))"

lemma same_frames_push:
  assumes "hrep s L" "k \<le> MAX_ORDER" "valid_block (b_frames (fa s)) k i"
    and "meta_frames (fa s) \<inter> P = {}" "node_frames s L \<inter> P = {}" "b_base (fa s) + i \<notin> P"
  shows "same_frames P (ram s) (ram (buddy_push k i s))"
proof -
  let ?h = "b_free_lists (fa s) ! k"
  let ?s1 = "set_node_prev i NIL (set_node_next i ?h s)"
  let ?s2 = "if ?h \<noteq> NIL then set_node_prev ?h i ?s1 else ?s1"
  have fa2: "fa ?s2 = fa s" by (simp add: buddy_simps)
  have lay: "layout (fa s)" by (rule hrepD(1) [OF assms(1)])
  have "?h \<noteq> NIL \<Longrightarrow> b_base (fa s) + ?h \<notin> P"
    using hrep_head(4) [OF assms(1,2)] assms(2,5) by (auto simp: node_frames_def)
  then have 2: "same_frames P (ram ?s1) (ram ?s2)"
    using same_frames_node [of ?s1 ?h P] by (simp add: buddy_simps)
  have "same_frames P (ram s) (ram (set_node_next i ?h s))"
    by (rule same_frames_node) (rule assms(6))
  also have "same_frames P (ram (set_node_next i ?h s)) (ram ?s1)"
    by (rule same_frames_node) (simp add: buddy_simps assms(6))
  also note 2
  also have "same_frames P (ram ?s2) (ram (set_head k i ?s2))"
    by (simp add: set_head_def)
  also have "same_frames P (ram (set_head k i ?s2)) (ram (set_free k i True (set_head k i ?s2)))"
    using lay assms(2,3,4)
    by (intro same_frames_set_free) (auto simp: buddy_simps layout_def meta_frames_def)
  finally show ?thesis by (simp add: buddy_push_def Let_def)
qed

lemma same_frames_remove:
  assumes "hrep s L" "k \<le> MAX_ORDER" "i \<in> set (L k)"
    and "meta_frames (fa s) \<inter> P = {}" "node_frames s L \<inter> P = {}"
  shows "same_frames P (ram s) (ram (buddy_remove k i s))"
proof -
  let ?n = "node_next s i" and ?p = "node_prev s i"
  let ?s1 = "if ?p \<noteq> NIL then set_node_next ?p ?n s else set_head k ?n s"
  let ?s2 = "if ?n \<noteq> NIL then set_node_prev ?n ?p ?s1 else ?s1"
  obtain xs ys where split: "L k = xs @ i # ys" using assms(3) by (meson split_list)
  have lay: "layout (fa s)" by (rule hrepD(1) [OF assms(1)])
  have v: "valid_block (b_frames (fa s)) k i" by (rule hrepD(4) [OF assms(1-3)])
  have "b_base (fa s) + x \<notin> P" if "x \<in> set (L k)" for x
    using that assms(2,5) by (auto simp: node_frames_def)
  then have np: "?n \<noteq> NIL \<Longrightarrow> b_base (fa s) + ?n \<notin> P" "?p \<noteq> NIL \<Longrightarrow> b_base (fa s) + ?p \<notin> P"
    using dll_links [OF hrepD(2) [OF assms(1,2), unfolded split]] by (auto simp: split)
  have "same_frames P (ram s) (ram ?s1)"
    using np same_frames_node [of s ?p P] by (simp add: set_head_def)
  moreover have "same_frames P (ram ?s1) (ram ?s2)"
    using np same_frames_node [of ?s1 ?n P] by (simp add: buddy_simps)
  ultimately have "same_frames P (ram s) (ram ?s2)" by (rule same_frames_trans)
  also have "same_frames P (ram ?s2) (ram (set_free k i False ?s2))"
    using lay v assms(2,4)
    by (intro same_frames_set_free) (auto simp: buddy_simps layout_def meta_frames_def)
  finally show ?thesis by (simp only: buddy_remove_def Let_def)
qed

end
