(* ===== verification/Frame_Correct.thy ===== *)
theory Frame_Correct
  imports Frame_Lists
begin

text \<open>
  Correctness of the buddy allocator against its abstract state, the set of free
  frames. The invariant \<open>buddy_inv\<close> says that the lists and the bitmap represent
  pairwise disjoint aligned blocks of which no two are buddies, and that the counters
  agree with them; initialisation establishes it, allocation and release keep it.
  \<open>free_ppns\<close> is the set of free frames, read off the bitmap.
\<close>

unbundle bit_operations_syntax

section \<open>Aligned blocks\<close>

lemma blk_split: "blk (Suc k) i = blk k i \<union> blk k (i + 2 ^ k)" "blk k i \<inter> blk k (i + 2 ^ k) = {}"
  by (auto simp: blk_def)

lemma blk_first [simp]: "i \<in> blk k i"
  by (simp add: blk_def)

lemma card_blk [simp]: "card (blk k i) = 2 ^ k"
  by (simp add: blk_def)

lemma finite_blk [simp]: "finite (blk k i)"
  by (simp add: blk_def)

lemma valid_block_blk: "valid_block n k i \<Longrightarrow> blk k i \<subseteq> {..<n}"
  by (auto simp: valid_block_def blk_def)

lemma blk_member_iff:
  assumes "2 ^ k dvd i"
  shows "j \<in> blk k i \<longleftrightarrow> j div 2 ^ k = i div 2 ^ k"
proof -
  obtain q where "i = 2 ^ k * q" using assms by blast
  moreover have "j div 2 ^ k = q \<longleftrightarrow> q \<le> j div 2 ^ k \<and> j div 2 ^ k < Suc q" by auto
  ultimately show ?thesis
    by (simp add: blk_def less_eq_div_iff_mult_less_eq div_less_iff_less_mult algebra_simps)
qed

text \<open>Two aligned blocks are disjoint or nested.\<close>

lemma blk_nested:
  assumes "2 ^ k dvd i" "2 ^ k' dvd i'" "k \<le> k'" "blk k i \<inter> blk k' i' \<noteq> {}"
  shows "blk k i \<subseteq> blk k' i'"
proof -
  have up: "j div 2 ^ k' = (j div 2 ^ k) div 2 ^ (k' - k)" for j :: nat
    using assms(3) by (simp add: div_mult2_eq [symmetric] flip: power_add)
  obtain j where "j div 2 ^ k = i div 2 ^ k" "j div 2 ^ k' = i' div 2 ^ k'"
    using assms(1,2,4) blk_member_iff by blast
  then show ?thesis using up by (auto simp: blk_member_iff assms(1,2))
qed

text \<open>The lower half, the upper half and the buddy of a block.\<close>

lemma valid_halves:
  assumes "valid_block n (Suc k) i"
  shows "valid_block n k i" "valid_block n k (i + 2 ^ k)" "(i + 2 ^ k) XOR 2 ^ k = i"
proof -
  obtain q where q: "i = 2 ^ Suc k * q" using assms by (auto simp: valid_block_def)
  then have dvd: "2 ^ k dvd i" "2 ^ k dvd i + 2 ^ k" by simp_all
  show "valid_block n k i" "valid_block n k (i + 2 ^ k)"
    using assms dvd by (auto simp: valid_block_def)
  have "i + 2 ^ k = 2 ^ k * (2 * q + 1)" using q by simp
  then have "(i + 2 ^ k) div 2 ^ k = 2 * q + 1"
    by (metis nonzero_mult_div_cancel_left power_not_zero zero_neq_numeral)
  then show "(i + 2 ^ k) XOR 2 ^ k = i" by (simp add: nat_xor_pow2 [OF dvd(2)])
qed

lemma buddy_merge:
  assumes "2 ^ k dvd i"
  shows "2 ^ k dvd i XOR 2 ^ k" and "2 ^ Suc k dvd min i (i XOR 2 ^ k)"
    and "blk k i \<union> blk k (i XOR 2 ^ k) = blk (Suc k) (min i (i XOR 2 ^ k))"
    and "min i (i XOR 2 ^ k) + 2 ^ Suc k \<le> max (i + 2 ^ k) ((i XOR 2 ^ k) + 2 ^ k)"
    and "(i XOR 2 ^ k) XOR 2 ^ k = i"
proof -
  obtain q where q: "i = 2 ^ k * q" using assms by blast
  have x: "i XOR 2 ^ k = (if even q then i + 2 ^ k else i - 2 ^ k)"
    using nat_xor_pow2 [OF assms] by (simp add: q)
  consider r where "q = 2 * r" | r where "q = 2 * r + 1" by (meson oddE evenE)
  then obtain j where j: "2 ^ Suc k dvd j"
    and "i = j \<and> i XOR 2 ^ k = j + 2 ^ k \<or> i = j + 2 ^ k \<and> i XOR 2 ^ k = j"
  proof cases
    case 1
    then show thesis using that [of i] x q by simp
  next
    case 2
    then show thesis using that [of "2 ^ Suc k * r"] x q by (simp add: algebra_simps)
  qed
  then consider "i = j" "i XOR 2 ^ k = j + 2 ^ k" | "i = j + 2 ^ k" "i XOR 2 ^ k = j" by blast
  then show "2 ^ k dvd i XOR 2 ^ k" and "2 ^ Suc k dvd min i (i XOR 2 ^ k)"
    and "blk k i \<union> blk k (i XOR 2 ^ k) = blk (Suc k) (min i (i XOR 2 ^ k))"
    and "min i (i XOR 2 ^ k) + 2 ^ Suc k \<le> max (i + 2 ^ k) ((i XOR 2 ^ k) + 2 ^ k)"
    using j assms by (cases; auto simp: blk_split dvd_mult_left)+
  show "(i XOR 2 ^ k) XOR 2 ^ k = i" by (simp add: xor.assoc)
qed

section \<open>The blocks on the free lists\<close>

definition cover :: "(nat \<Rightarrow> nat list) \<Rightarrow> nat set" where
  "cover L = (\<Union>k\<le>MAX_ORDER. \<Union>i\<in>set (L k). blk k i)"

definition disj_blocks :: "(nat \<Rightarrow> nat list) \<Rightarrow> bool" where
  "disj_blocks L \<longleftrightarrow> (\<forall>k\<le>MAX_ORDER. \<forall>k'\<le>MAX_ORDER. \<forall>i\<in>set (L k). \<forall>i'\<in>set (L k').
     (k, i) \<noteq> (k', i') \<longrightarrow> blk k i \<inter> blk k' i' = {})"

definition no_buddies :: "(nat \<Rightarrow> nat list) \<Rightarrow> bool" where
  "no_buddies L \<longleftrightarrow> (\<forall>k<MAX_ORDER. \<forall>i\<in>set (L k). i XOR 2 ^ k \<notin> set (L k))"

text \<open>The invariant of the structure: represented, disjoint and fully merged.\<close>

definition brep :: "mm_state \<Rightarrow> (nat \<Rightarrow> nat list) \<Rightarrow> bool" where
  "brep s L \<longleftrightarrow> hrep s L \<and> disj_blocks L \<and> no_buddies L"

lemma cover_memI: "k \<le> MAX_ORDER \<Longrightarrow> i \<in> set (L k) \<Longrightarrow> blk k i \<subseteq> cover L"
  by (auto simp: cover_def)

lemma cover_iff: "x \<in> cover L \<longleftrightarrow> (\<exists>k i. k \<le> MAX_ORDER \<and> i \<in> set (L k) \<and> x \<in> blk k i)"
  by (auto simp: cover_def)

lemma cover_push:
  assumes "k \<le> MAX_ORDER"
  shows "cover (L(k := i # L k)) = cover L \<union> blk k i"
proof -
  have "(\<exists>k' i'. k' \<le> MAX_ORDER \<and> i' \<in> set ((L(k := i # L k)) k') \<and> x \<in> blk k' i') \<longleftrightarrow>
      (\<exists>k' i'. k' \<le> MAX_ORDER \<and> i' \<in> set (L k') \<and> x \<in> blk k' i') \<or> x \<in> blk k i" for x
    using assms by (auto split: if_splits)
  then show ?thesis by (auto simp: cover_iff)
qed

lemma cover_remove:
  assumes "disj_blocks L" "k \<le> MAX_ORDER" "i \<in> set (L k)" "distinct (L k)"
  shows "cover (L(k := remove1 i (L k))) = cover L - blk k i"
proof -
  have "blk k' i' \<inter> blk k i = {}" if "k' \<le> MAX_ORDER" "i' \<in> set (L k')" "(k', i') \<noteq> (k, i)" for k' i'
    using assms(1-3) that unfolding disj_blocks_def by blast
  then have "(\<exists>k' i'. k' \<le> MAX_ORDER \<and> i' \<in> set ((L(k := remove1 i (L k))) k') \<and> x \<in> blk k' i') \<longleftrightarrow>
      (\<exists>k' i'. k' \<le> MAX_ORDER \<and> i' \<in> set (L k') \<and> x \<in> blk k' i') \<and> x \<notin> blk k i" for x
    using assms(2-4) by (auto split: if_splits) (metis | blast)+
  then show ?thesis by (auto simp: cover_iff)
qed

lemma cover_finite [simp]: "finite (cover L)"
  by (simp add: cover_def)

lemma cover_subset:
  assumes "hrep s L"
  shows "cover L \<subseteq> {..<b_frames (fa s)}"
  using valid_block_blk hrepD(4) [OF assms] by (fastforce simp: cover_def)

lemma brepD:
  assumes "brep s L"
  shows "hrep s L" "disj_blocks L" "no_buddies L" "layout (fa s)" "cover L \<subseteq> {..<b_frames (fa s)}"
  using assms hrepD(1) cover_subset by (auto simp: brep_def)

lemma node_frames_cover: "node_frames s L \<subseteq> (\<lambda>i. b_base (fa s) + i) ` cover L"
  using blk_first by (fastforce simp: node_frames_def cover_def)

text \<open>The operations leave every field but the list heads alone.\<close>

lemma static_fields [simp]:
  "b_base (fa (buddy_push k i s)) = b_base (fa s)"
  "b_frames (fa (buddy_push k i s)) = b_frames (fa s)"
  "b_bitmap (fa (buddy_push k i s)) = b_bitmap (fa s)"
  "b_allocated (fa (buddy_push k i s)) = b_allocated (fa s)"
  "b_peak (fa (buddy_push k i s)) = b_peak (fa s)"
  "b_base (fa (buddy_remove k i s)) = b_base (fa s)"
  "b_frames (fa (buddy_remove k i s)) = b_frames (fa s)"
  "b_bitmap (fa (buddy_remove k i s)) = b_bitmap (fa s)"
  "b_allocated (fa (buddy_remove k i s)) = b_allocated (fa s)"
  "b_peak (fa (buddy_remove k i s)) = b_peak (fa s)"
  by (simp_all add: buddy_push_def buddy_remove_def Let_def buddy_simps)

text \<open>Two states with the same layout and counters.\<close>

definition same_static :: "mm_state \<Rightarrow> mm_state \<Rightarrow> bool" where
  "same_static s s' \<longleftrightarrow> b_base (fa s') = b_base (fa s) \<and> b_frames (fa s') = b_frames (fa s) \<and>
     b_bitmap (fa s') = b_bitmap (fa s) \<and> b_allocated (fa s') = b_allocated (fa s) \<and>
     b_peak (fa s') = b_peak (fa s)"

lemma same_static_intros [intro, simp]:
  "same_static s s" "same_static s (buddy_push k i s)" "same_static s (buddy_remove k i s)"
  by (simp_all add: same_static_def)

lemma same_static_trans [trans]: "same_static s s' \<Longrightarrow> same_static s' s'' \<Longrightarrow> same_static s s''"
  by (simp add: same_static_def)

text \<open>Frames no operation on the free blocks \<open>F\<close> may touch.\<close>

definition foreign :: "mm_state \<Rightarrow> nat set \<Rightarrow> phys_page_num set" where
  "foreign s F = - (meta_frames (fa s) \<union> (\<lambda>i. b_base (fa s) + i) ` F)"

lemma foreign_mono: "F \<subseteq> G \<Longrightarrow> foreign s G \<subseteq> foreign s F"
  by (auto simp: foreign_def)

lemma foreign_static: "same_static s s' \<Longrightarrow> foreign s' F = foreign s F"
  by (simp add: foreign_def same_static_def meta_frames_def)

lemma brep_push:
  assumes "brep s L" "k \<le> MAX_ORDER" "valid_block (b_frames (fa s)) k i"
    and new: "blk k i \<inter> cover L = {}" and bud: "k < MAX_ORDER \<Longrightarrow> i XOR 2 ^ k \<notin> set (L k)"
  shows "brep (buddy_push k i s) (L(k := i # L k))"
    and "same_frames (foreign s (cover L \<union> blk k i)) (ram s) (ram (buddy_push k i s))"
proof -
  have apart: "blk k i \<inter> blk k' i' = {}" if "k' \<le> MAX_ORDER" "i' \<in> set (L k')" for k' i'
    using new that cover_memI by blast
  have notin: "i \<notin> set (L k')" if "k' \<le> MAX_ORDER" for k'
    using apart [OF that] blk_first by blast
  have "hrep (buddy_push k i s) (L(k := i # L k))"
    using hrep_push [OF brepD(1) [OF assms(1)] assms(2,3)] notin by blast
  moreover have "disj_blocks (L(k := i # L k))"
    using brepD(2) [OF assms(1)] apart
    by (auto simp: disj_blocks_def Int_commute split: if_splits)
  moreover have "no_buddies (L(k := i # L k))"
  proof -
    have "j XOR 2 ^ k \<noteq> i" if "j \<in> set (L k)" "k < MAX_ORDER" for j
      using bud that by (metis xor.assoc xor_self_eq xor.right_neutral)
    moreover have "i XOR 2 ^ k \<noteq> i"
      using buddy_merge(3) [of k i] assms(3)
      by (metis card_blk Un_absorb valid_block_def power_inject_exp n_not_Suc_n one_less_numeral_iff
          semiring_norm(76))
    ultimately show ?thesis
      using bud brepD(3) [OF assms(1)] by (auto simp: no_buddies_def split: if_splits)
  qed
  ultimately show "brep (buddy_push k i s) (L(k := i # L k))" by (simp add: brep_def)
  show "same_frames (foreign s (cover L \<union> blk k i)) (ram s) (ram (buddy_push k i s))"
    using node_frames_cover blk_first
    by (intro same_frames_push [OF brepD(1) [OF assms(1)] assms(2,3)])
      (auto simp: foreign_def dest!: subsetD)
qed

lemma brep_remove:
  assumes "brep s L" "k \<le> MAX_ORDER" "i \<in> set (L k)"
  shows "brep (buddy_remove k i s) (L(k := remove1 i (L k)))"
    and "cover (L(k := remove1 i (L k))) = cover L - blk k i"
    and "same_frames (foreign s (cover L)) (ram s) (ram (buddy_remove k i s))"
proof -
  have sub: "set ((L(k := remove1 i (L k))) k') \<subseteq> set (L k')" for k'
    by (simp add: set_remove1_subset)
  have "disj_blocks (L(k := remove1 i (L k)))"
    using brepD(2) [OF assms(1)] sub unfolding disj_blocks_def by (meson subsetD)
  moreover have "no_buddies (L(k := remove1 i (L k)))"
    using brepD(3) [OF assms(1)] sub unfolding no_buddies_def by (meson subsetD)
  ultimately show "brep (buddy_remove k i s) (L(k := remove1 i (L k)))"
    using hrep_remove [OF brepD(1) [OF assms(1)] assms(2,3)] by (simp add: brep_def)
  show "cover (L(k := remove1 i (L k))) = cover L - blk k i"
    using cover_remove [OF brepD(2) [OF assms(1)] assms(2,3)]
      hrepD(3) [OF brepD(1) [OF assms(1)] assms(2)] by blast
  show "same_frames (foreign s (cover L)) (ram s) (ram (buddy_remove k i s))"
    using node_frames_cover
    by (intro same_frames_remove [OF brepD(1) [OF assms(1)] assms(2,3)])
      (auto simp: foreign_def dest!: subsetD)
qed

section \<open>Splitting and merging\<close>

lemma split_down_correct:
  assumes "brep s L" "order \<le> level" "level \<le> MAX_ORDER" "valid_block (b_frames (fa s)) level idx"
    and "blk level idx \<inter> cover L = {}"
  shows "\<exists>L'. brep (split_down order idx level s) L' \<and>
           cover L' = cover L \<union> (blk level idx - blk order idx) \<and>
           same_static s (split_down order idx level s) \<and>
           same_frames (foreign s (cover L \<union> blk level idx)) (ram s)
             (ram (split_down order idx level s))"
  using assms
proof (induction "level - order" arbitrary: level s L)
  case 0
  then have "split_down order idx level s = s" "level = order" by (simp_all add: split_down.simps)
  then show ?case using 0 by auto
next
  case (Suc n)
  then obtain l where l: "level = Suc l" "order \<le> l" "l < MAX_ORDER" "n = l - order"
    by (cases level) auto
  let ?up = "idx + 2 ^ l" and ?s1 = "buddy_push l (idx + 2 ^ l) s" and ?L1 = "L(l := (idx + 2 ^ l) # L l)"
  note halves = valid_halves [OF Suc.prems(4) [unfolded l(1)]]
  have disj: "blk l ?up \<inter> cover L = {}" "blk l idx \<inter> cover L = {}"
    using Suc.prems(5) blk_split(1) [of l idx] by (auto simp: l(1))
  have "idx \<notin> set (L l)"
    using disj(2) cover_memI [of l idx L] l(3) blk_first [of idx l]
    by (meson disjoint_iff less_imp_le_nat subsetD)
  then have rep1: "brep ?s1 ?L1"
    and mem1: "same_frames (foreign s (cover L \<union> blk l ?up)) (ram s) (ram ?s1)"
    using brep_push [OF Suc.prems(1) _ halves(2) disj(1)] halves(3) l(3) by simp_all
  have cov1: "cover ?L1 = cover L \<union> blk l ?up" using l(3) by (intro cover_push) simp
  have "blk l idx \<inter> cover ?L1 = {}" using disj(2) blk_split(2) [of l idx] cov1 by auto
  then obtain L' where L': "brep (split_down order idx l ?s1) L'"
      "cover L' = cover ?L1 \<union> (blk l idx - blk order idx)"
      "same_static ?s1 (split_down order idx l ?s1)"
      "same_frames (foreign ?s1 (cover ?L1 \<union> blk l idx)) (ram ?s1) (ram (split_down order idx l ?s1))"
    using Suc.hyps(1) [OF l(4) rep1 l(2)] l(3) halves(1) by auto
  have step: "split_down order idx level s = split_down order idx l ?s1"
    using l by (simp add: split_down.simps [of order idx "Suc l"])
  have all: "cover ?L1 \<union> blk l idx = cover L \<union> blk level idx"
    using cov1 blk_split(1) [of l idx] l(1) by auto
  have "same_frames (foreign s (cover L \<union> blk level idx)) (ram s) (ram ?s1)"
    by (rule same_frames_mono [OF mem1 foreign_mono]) (use cov1 all in auto)
  then have "same_frames (foreign s (cover L \<union> blk level idx)) (ram s)
      (ram (split_down order idx l ?s1))"
    by (rule same_frames_trans) (use L'(4) in \<open>simp add: foreign_static [of s ?s1] all\<close>)
  moreover have "same_static s (split_down order idx l ?s1)"
    by (rule same_static_trans [OF _ L'(3)]) simp
  moreover have "blk order idx \<subseteq> blk l idx"
    using power_increasing [OF l(2), of "2::nat"] by (auto simp: blk_def)
  then have "cover L' = cover L \<union> (blk level idx - blk order idx)"
    using L'(2) cov1 blk_split [of l idx] l(1) by auto
  ultimately show ?case
    unfolding step using L'(1) by blast
qed

lemma merge_up_correct:
  assumes "brep s L" "level \<le> MAX_ORDER" "valid_block (b_frames (fa s)) level idx"
    and "blk level idx \<inter> cover L = {}"
  shows "\<exists>idx' level' s' L'. merge_up idx level s = (idx', level', s') \<and> brep s' L' \<and>
           level' \<le> MAX_ORDER \<and> valid_block (b_frames (fa s)) level' idx' \<and>
           blk level' idx' \<inter> cover L' = {} \<and>
           cover L' \<union> blk level' idx' = cover L \<union> blk level idx \<and>
           (level' < MAX_ORDER \<longrightarrow> idx' XOR 2 ^ level' \<notin> set (L' level')) \<and>
           same_static s s' \<and> same_frames (foreign s (cover L \<union> blk level idx)) (ram s) (ram s')"
  using assms
proof (induction idx level s arbitrary: L rule: merge_up.induct)
  case (1 idx level s)
  let ?b = "idx XOR 2 ^ level"
  have dvd: "2 ^ level dvd idx" using "1.prems"(3) by (simp add: valid_block_def)
  note bm = buddy_merge [OF dvd]
  show ?case
  proof (cases "level < MAX_ORDER \<and> \<not> (b_frames (fa s) < ?b + 2 ^ level \<or> \<not> is_free s level ?b)")
    case False
    then have stop: "merge_up idx level s = (idx, level, s)"
      by (auto simp: merge_up.simps [of idx level s] Let_def)
    have "?b \<notin> set (L level)" if "level < MAX_ORDER"
      using False that hrepD(4,5) [OF brepD(1) [OF "1.prems"(1)] "1.prems"(2), of ?b]
      by (auto simp: valid_block_def)
    then show ?thesis using "1.prems" stop by blast
  next
    case True
    let ?s1 = "buddy_remove level ?b s" and ?L1 = "L(level := remove1 ?b (L level))"
    have vb: "valid_block (b_frames (fa s)) level ?b"
      using True bm(1) by (simp add: valid_block_def)
    then have mem: "?b \<in> set (L level)"
      using True hrepD(5) [OF brepD(1) [OF "1.prems"(1)] "1.prems"(2)] by blast
    note rem = brep_remove [OF "1.prems"(1,2) mem]
    have bsub: "blk level ?b \<subseteq> cover L" using cover_memI "1.prems"(2) mem by metis
    have v1: "valid_block (b_frames (fa ?s1)) (level + 1) (min idx ?b)"
      using bm(2,4) "1.prems"(3) vb by (auto simp: valid_block_def)
    have dis1: "blk (level + 1) (min idx ?b) \<inter> cover ?L1 = {}"
      and cov1: "cover ?L1 \<union> blk (level + 1) (min idx ?b) = cover L \<union> blk level idx"
      using bm(3) rem(2) "1.prems"(4) bsub by auto
    have step: "merge_up idx level s = merge_up (min idx ?b) (level + 1) ?s1"
      using True by (simp add: merge_up.simps [of idx level s] Let_def)
    have frg: "foreign ?s1 (cover L \<union> blk level idx) = foreign s (cover L \<union> blk level idx)"
      by (rule foreign_static) simp
    have mem1: "same_frames (foreign s (cover L \<union> blk level idx)) (ram s) (ram ?s1)"
      by (rule same_frames_mono [OF rem(3) foreign_mono]) simp
    have hyp: "\<not> (b_frames (fa s) < ?b + 2 ^ level \<or> \<not> is_free s level ?b)" and lt: "level < MAX_ORDER"
      using True by blast+
    have "level + 1 \<le> MAX_ORDER" using lt by simp
    from "1.IH" [OF lt refl hyp rem(1) this v1 dis1] obtain idx' level' s' L'
      where r: "merge_up (min idx ?b) (level + 1) ?s1 = (idx', level', s')" "brep s' L'"
        "level' \<le> MAX_ORDER" "valid_block (b_frames (fa ?s1)) level' idx'"
        "blk level' idx' \<inter> cover L' = {}"
        "cover L' \<union> blk level' idx' = cover L \<union> blk level idx"
        "level' < MAX_ORDER \<longrightarrow> idx' XOR 2 ^ level' \<notin> set (L' level')"
        "same_static ?s1 s'"
        "same_frames (foreign ?s1 (cover L \<union> blk level idx)) (ram ?s1) (ram s')"
      unfolding cov1 by blast
    have "same_static s s'" by (rule same_static_trans [OF _ r(8)]) simp
    moreover have "same_frames (foreign s (cover L \<union> blk level idx)) (ram s) (ram s')"
      by (rule same_frames_trans [OF mem1 r(9) [unfolded frg]])
    ultimately show ?thesis
      unfolding step using r(1-7)
      by (intro exI [of _ idx'] exI [of _ level'] exI [of _ s'] exI [of _ L']) simp
  qed
qed

section \<open>The invariant\<close>

text \<open>The free frames, as relative indices and as frame numbers.\<close>

definition free_idx :: "mm_state \<Rightarrow> nat set" where
  "free_idx s = {j. \<exists>k\<le>MAX_ORDER. \<exists>i. valid_block (b_frames (fa s)) k i \<and> is_free s k i \<and> j \<in> blk k i}"

definition free_ppns :: "mm_state \<Rightarrow> phys_page_num set" where
  "free_ppns s = (\<lambda>j. b_base (fa s) + j) ` free_idx s"

text \<open>All frames the allocator hands out.\<close>

definition managed :: "mm_state \<Rightarrow> phys_page_num set" where
  "managed s = {b_base (fa s)..<b_base (fa s) + b_frames (fa s)}"

text \<open>The memory the allocator itself relies on: the bitmap and the free frames.\<close>

definition allocator_frames :: "mm_state \<Rightarrow> phys_page_num set" where
  "allocator_frames s = meta_frames (fa s) \<union> free_ppns s"

definition buddy_inv :: "mm_state \<Rightarrow> bool" where
  "buddy_inv s \<longleftrightarrow> (\<exists>L. brep s L) \<and> b_allocated (fa s) + card (free_idx s) = b_frames (fa s) \<and>
     b_allocated (fa s) \<le> b_peak (fa s) \<and> b_peak (fa s) \<le> b_frames (fa s)"

lemma free_idx_cover:
  assumes "hrep s L"
  shows "free_idx s = cover L"
proof -
  have "valid_block (b_frames (fa s)) k i \<and> is_free s k i \<longleftrightarrow> i \<in> set (L k)"
    if "k \<le> MAX_ORDER" for k i
    using hrepD(4,5) [OF assms that] by auto
  then have "(\<exists>k\<le>MAX_ORDER. \<exists>i. valid_block (b_frames (fa s)) k i \<and> is_free s k i \<and> j \<in> blk k i)
      \<longleftrightarrow> (\<exists>k i. k \<le> MAX_ORDER \<and> i \<in> set (L k) \<and> j \<in> blk k i)" for j
    by metis
  then show ?thesis by (intro set_eqI) (simp only: free_idx_def cover_iff mem_Collect_eq)
qed

lemma foreign_free:
  "hrep s L \<Longrightarrow> foreign s (cover L) = - allocator_frames s"
  by (simp add: foreign_def allocator_frames_def free_ppns_def free_idx_cover)

lemma buddy_invE:
  assumes "buddy_inv s"
  obtains L where "brep s L" "hrep s L" "cover L = free_idx s"
    "b_allocated (fa s) + card (free_idx s) = b_frames (fa s)"
    "b_allocated (fa s) \<le> b_peak (fa s)" "b_peak (fa s) \<le> b_frames (fa s)"
  using assms free_idx_cover brepD(1) unfolding buddy_inv_def by metis

lemma free_ppns_managed: "buddy_inv s \<Longrightarrow> free_ppns s \<subseteq> managed s"
  using brepD(5) by (fastforce elim!: buddy_invE simp: free_ppns_def managed_def)

text \<open>The counters are no part of the representation.\<close>

lemma counters_irrelevant [simp]:
  "brep (s\<lparr>fa := (fa s)\<lparr>b_allocated := a\<rparr>\<rparr>) L = brep s L"
  "brep (s\<lparr>fa := (fa s)\<lparr>b_allocated := a, b_peak := p\<rparr>\<rparr>) L = brep s L"
  by (simp_all add: brep_def hrep_def layout_def is_free_def bit_index_def node_next_def [abs_def]
      node_prev_def [abs_def] node_addr_def)

text \<open>Nor is the contents of any frame in use.\<close>

lemma brep_ram:
  assumes "brep s L" "same_frames (allocator_frames s) (ram s) m"
  shows "brep (s\<lparr>ram := m\<rparr>) L"
proof -
  have h: "hrep s L" and lay: "layout (fa s)" using brepD [OF assms(1)] by blast+
  have node: "node_next (s\<lparr>ram := m\<rparr>) i = node_next s i" "node_prev (s\<lparr>ram := m\<rparr>) i = node_prev s i"
    if "k \<le> MAX_ORDER" "i \<in> set (L k)" for k i
  proof -
    have "i \<in> free_idx s" using that free_idx_cover [OF h] cover_iff blk_first by metis
    then have in_free: "b_base (fa s) + i \<in> allocator_frames s"
      by (auto simp: allocator_frames_def free_ppns_def)
    show "node_next (s\<lparr>ram := m\<rparr>) i = node_next s i" "node_prev (s\<lparr>ram := m\<rparr>) i = node_prev s i"
      using same_framesD [OF assms(2), of "(b_base (fa s) + i) * 512 + 0"]
        same_framesD [OF assms(2), of "(b_base (fa s) + i) * 512 + 1"] in_free
      unfolding node_next_def node_prev_def node_addr_def read_u64_def
      by (simp_all only: dw_frame_slot slot_simps mm_state.simps) simp_all
  qed
  have free: "is_free (s\<lparr>ram := m\<rparr>) k i = is_free s k i"
    if "k \<le> MAX_ORDER" "valid_block (b_frames (fa s)) k i" for k i
  proof -
    let ?d = "b_bitmap (fa s) div 8 + bit_index (fa s) k i div 64"
    have "dw_frame (b_bitmap (fa s) div 8) \<le> dw_frame ?d" by (simp add: dw_frame_def div_le_mono)
    moreover have "dw_frame ?d < b_base (fa s)"
      using bit_slot(2) [OF lay that] by (simp add: dw_frame_def less_mult_imp_div_less)
    ultimately have "dw_frame ?d \<in> allocator_frames s"
      by (auto simp: allocator_frames_def meta_frames_def dw_frame_div8)
    then have "m ?d = ram s ?d" by (rule same_framesD [OF assms(2)])
    then show ?thesis
      unfolding is_free_def Let_def read_u64_def by (simp add: bit_slot(1) [OF lay that] add.commute)
  qed
  have "dll (node_next (s\<lparr>ram := m\<rparr>)) (node_prev (s\<lparr>ram := m\<rparr>)) NIL (b_free_lists (fa s) ! k) (L k)"
    if "k \<le> MAX_ORDER" for k
    by (rule dll_transfer [OF hrepD(2) [OF h that]]) (use node that in blast)+
  then have "hrep (s\<lparr>ram := m\<rparr>) L"
    using free hrepD [OF h] by (intro hrepI) auto
  then show ?thesis using assms(1) by (simp add: brep_def)
qed

lemma free_idx_ram:
  assumes "buddy_inv s" "same_frames (allocator_frames s) (ram s) m"
  shows "free_idx (s\<lparr>ram := m\<rparr>) = free_idx s" and "buddy_inv (s\<lparr>ram := m\<rparr>)"
    and "free_ppns (s\<lparr>ram := m\<rparr>) = free_ppns s"
    and "allocator_frames (s\<lparr>ram := m\<rparr>) = allocator_frames s"
proof -
  obtain L where L: "brep s L" "cover L = free_idx s" using assms(1) by (elim buddy_invE)
  have m: "brep (s\<lparr>ram := m\<rparr>) L" by (rule brep_ram [OF L(1) assms(2)])
  show idx: "free_idx (s\<lparr>ram := m\<rparr>) = free_idx s"
    using free_idx_cover [OF brepD(1) [OF m]] L(2) by simp
  show "buddy_inv (s\<lparr>ram := m\<rparr>)" using assms(1) m idx by (auto simp: buddy_inv_def)
  show "free_ppns (s\<lparr>ram := m\<rparr>) = free_ppns s" by (simp add: free_ppns_def idx)
  then show "allocator_frames (s\<lparr>ram := m\<rparr>) = allocator_frames s"
    by (simp add: allocator_frames_def)
qed

end
