(* ===== verification/Frame_Props.thy ===== *)
theory Frame_Props
  imports Frame_Correct
begin

text \<open>
  The properties of the frame allocator: allocation and release keep the invariant and
  move exactly the requested block in or out of the free set, allocation fails only when
  no such block exists, initialisation makes the whole region available, and frames
  are handed out zeroed.
\<close>

unbundle bit_operations_syntax

section \<open>Allocation\<close>

lemma find_donor_spec:
  "donor \<le> Suc MAX_ORDER \<Longrightarrow> find_donor fl donor \<le> Suc MAX_ORDER \<and> donor \<le> find_donor fl donor \<and>
    (\<forall>j. donor \<le> j \<and> j < find_donor fl donor \<longrightarrow> fl ! j = NIL) \<and>
    (find_donor fl donor \<le> MAX_ORDER \<longrightarrow> fl ! find_donor fl donor \<noteq> NIL)"
proof (induction fl donor rule: find_donor.induct)
  case (1 fl donor)
  show ?case
  proof (cases "donor \<le> MAX_ORDER \<and> fl ! donor = NIL")
    case True
    then have "find_donor fl donor = find_donor fl (donor + 1)" by (simp add: find_donor.simps)
    moreover have "j = donor \<or> donor + 1 \<le> j" if "donor \<le> j" for j using that by auto
    ultimately show ?thesis using 1 True by (metis add_leD1 add_le_mono1 Suc_eq_plus1)
  next
    case False
    then have "find_donor fl donor = donor" by (auto simp: find_donor.simps [of fl donor])
    then show ?thesis using 1 False by auto
  qed
qed

text \<open>The free block \<open>buddy_alloc\<close> takes, or that there is none.\<close>

lemma buddy_alloc_cases:
  assumes "hrep s L"
  obtains (none) "buddy_alloc order s = (None, s)"
      "order \<le> MAX_ORDER \<Longrightarrow> (\<And>k. order \<le> k \<Longrightarrow> k \<le> MAX_ORDER \<Longrightarrow> L k = [])"
  | (some) donor idx where "order \<le> donor" "donor \<le> MAX_ORDER" "idx \<in> set (L donor)"
      "buddy_alloc order s =
         (let s1 = split_down order idx donor (buddy_remove donor idx s);
              used = b_allocated (fa s1) + 2 ^ order
          in (Some (b_base (fa s1) + idx),
              s1\<lparr>fa := (fa s1)\<lparr>b_allocated := used, b_peak := max (b_peak (fa s1)) used\<rparr>\<rparr>))"
proof (cases "order \<le> MAX_ORDER")
  case False
  then show ?thesis by (intro none) (simp_all add: buddy_alloc_def)
next
  case True
  let ?d = "find_donor (b_free_lists (fa s)) order"
  have d: "order \<le> ?d" "\<And>j. order \<le> j \<Longrightarrow> j < ?d \<Longrightarrow> b_free_lists (fa s) ! j = NIL"
    "?d \<le> MAX_ORDER \<Longrightarrow> b_free_lists (fa s) ! ?d \<noteq> NIL"
    using find_donor_spec [of order "b_free_lists (fa s)"] True by auto
  show ?thesis
  proof (cases "?d \<le> MAX_ORDER")
    case False
    then have "L k = []" if "order \<le> k" "k \<le> MAX_ORDER" for k
      using d(2) [OF that(1)] hrep_head(2) [OF assms that(2)] that by simp
    then show ?thesis using False by (intro none) (simp_all add: buddy_alloc_def Let_def)
  next
    case donor: True
    have "b_free_lists (fa s) ! ?d \<in> set (L ?d)"
      by (rule hrep_head(4) [OF assms donor d(3) [OF donor]])
    then show ?thesis
      using True donor by (intro some [OF d(1) donor]) (simp_all add: buddy_alloc_def Let_def)
  qed
qed

lemma ppn_block: "{b + i..<b + i + 2 ^ k} = (\<lambda>j. b + j) ` blk k (i::nat)"
  by (simp add: blk_def ac_simps)

lemma valid_block_le:
  assumes "valid_block n d i" "k \<le> d"
  shows "valid_block n k i"
proof -
  have "(2::nat) ^ k \<le> 2 ^ d" using assms(2) by (simp add: power_increasing)
  then have "i + 2 ^ k \<le> n" using assms(1) unfolding valid_block_def by linarith
  then show ?thesis
    using assms by (meson dvd_trans le_imp_power_dvd valid_block_def)
qed

lemma buddy_alloc_some:
  assumes inv: "buddy_inv s" and ok: "buddy_alloc order s = (Some p, s')"
  obtains i where "order \<le> MAX_ORDER" "p = b_base (fa s) + i" "valid_block (b_frames (fa s)) order i"
    "blk order i \<subseteq> free_idx s" "buddy_inv s'" "free_idx s' = free_idx s - blk order i"
    "b_base (fa s') = b_base (fa s)" "b_frames (fa s') = b_frames (fa s)"
    "meta_frames (fa s') = meta_frames (fa s)"
    "b_allocated (fa s') = b_allocated (fa s) + 2 ^ order"
    "same_frames (- allocator_frames s) (ram s) (ram s')"
proof -
  obtain L where L: "brep s L" "hrep s L" "cover L = free_idx s"
    and cnt: "b_allocated (fa s) + card (free_idx s) = b_frames (fa s)"
      "b_allocated (fa s) \<le> b_peak (fa s)" "b_peak (fa s) \<le> b_frames (fa s)"
    using inv by (elim buddy_invE)
  from L(2) ok obtain d i where d: "order \<le> d" "d \<le> MAX_ORDER" "i \<in> set (L d)"
    and res: "buddy_alloc order s = (let s1 = split_down order i d (buddy_remove d i s);
              used = b_allocated (fa s1) + 2 ^ order
          in (Some (b_base (fa s1) + i),
              s1\<lparr>fa := (fa s1)\<lparr>b_allocated := used, b_peak := max (b_peak (fa s1)) used\<rparr>\<rparr>))"
    by (cases rule: buddy_alloc_cases [of s L order]) auto
  let ?r = "buddy_remove d i s" and ?s1 = "split_down order i d (buddy_remove d i s)"
  note rem = brep_remove [OF L(1) d(2,3)]
  have v: "valid_block (b_frames (fa s)) d i" by (rule hrepD(4) [OF L(2) d(2,3)])
  have sub: "blk d i \<subseteq> cover L" using cover_memI d(2,3) by metis
  have "valid_block (b_frames (fa ?r)) d i" "blk d i \<inter> cover (L(d := remove1 i (L d))) = {}"
    using v rem(2) by auto
  from split_down_correct [OF rem(1) d(1,2) this] obtain L' where L': "brep ?s1 L'"
    "cover L' = cover (L(d := remove1 i (L d))) \<union> (blk d i - blk order i)"
    "same_static ?r ?s1"
    "same_frames (foreign ?r (cover (L(d := remove1 i (L d))) \<union> blk d i)) (ram ?r) (ram ?s1)"
    by blast
  have osub: "blk order i \<subseteq> blk d i" using power_increasing [OF d(1), of "2::nat"] by (auto simp: blk_def)
  have cov: "cover L' = free_idx s - blk order i" using L'(2) rem(2) sub osub L(3) by auto
  have st: "same_static s ?s1" by (rule same_static_trans [OF _ L'(3)]) simp
  have s': "p = b_base (fa s) + i" "s' = ?s1\<lparr>fa := (fa ?s1)\<lparr>b_allocated := b_allocated (fa s) + 2 ^ order,
      b_peak := max (b_peak (fa s)) (b_allocated (fa s) + 2 ^ order)\<rparr>\<rparr>"
    using ok res st by (auto simp: Let_def same_static_def)
  have rep': "brep s' L'" using L'(1) by (simp add: s')
  then have idx': "free_idx s' = free_idx s - blk order i"
    using free_idx_cover [OF brepD(1)] cov by blast
  have bsub: "blk order i \<subseteq> free_idx s" using osub sub L(3) by blast
  have fin: "finite (free_idx s)" using cover_finite [of L] L(3) by simp
  have card': "card (free_idx s') = card (free_idx s) - 2 ^ order" "2 ^ order \<le> card (free_idx s)"
    using card_Diff_subset [OF _ bsub] card_mono [OF fin bsub] by (simp_all add: idx')
  have inv': "buddy_inv s'"
    using rep' cnt card' st by (auto simp: buddy_inv_def s' same_static_def)
  have "cover (L(d := remove1 i (L d))) \<union> blk d i = cover L" using rem(2) sub by auto
  then have "same_frames (foreign s (cover L)) (ram s) (ram ?s1)"
    using rem(3) L'(4) by (auto simp: foreign_static [of s ?r] intro: same_frames_trans)
  then have "same_frames (- allocator_frames s) (ram s) (ram s')"
    by (simp add: s' foreign_free [OF L(2)])
  moreover have "valid_block (b_frames (fa s)) order i"
    by (rule valid_block_le [OF v d(1)])
  ultimately show ?thesis
    using that [of i] d s' idx' bsub inv' st by (simp add: same_static_def meta_frames_def)
qed

text \<open>
  With no two free buddies, a free aligned run of frames lies in one free block.
\<close>

lemma blk_subset_same: "blk k i \<subseteq> blk k j \<Longrightarrow> j = i"
  by (auto simp: blk_def dest!: atLeastLessThan_subset_iff)

lemma free_run_in_block:
  assumes "brep s L" "k \<le> MAX_ORDER" "valid_block (b_frames (fa s)) k i" "blk k i \<subseteq> cover L"
  shows "\<exists>k' i'. k \<le> k' \<and> k' \<le> MAX_ORDER \<and> i' \<in> set (L k') \<and> blk k i \<subseteq> blk k' i'"
  using assms(2-)
proof (induction k arbitrary: i)
  case 0
  then have "i \<in> cover L" using blk_first by blast
  moreover have "blk 0 i = {i}" by (auto simp: blk_def)
  ultimately show ?case by (auto simp: cover_iff)
next
  case (Suc k)
  note halves = valid_halves [OF Suc.prems(2)]
  have sub: "blk k i \<subseteq> cover L" "blk k (i + 2 ^ k) \<subseteq> cover L"
    using Suc.prems(3) blk_split(1) [of k i] by auto
  have dvd: "2 ^ Suc k dvd i" using Suc.prems(2) by (simp add: valid_block_def)
  have up: ?case if "k' \<le> MAX_ORDER" "i' \<in> set (L k')" "Suc k \<le> k'" "blk (Suc k) i \<inter> blk k' i' \<noteq> {}"
    for k' i'
    using that blk_nested [OF dvd _ that(3,4)] hrepD(4) [OF brepD(1) [OF assms(1)]]
    by (meson valid_block_def)
  obtain k1 i1 where 1: "k \<le> k1" "k1 \<le> MAX_ORDER" "i1 \<in> set (L k1)" "blk k i \<subseteq> blk k1 i1"
    using Suc.IH [OF _ halves(1) sub(1)] Suc.prems(1) by auto
  obtain k2 i2 where 2: "k \<le> k2" "k2 \<le> MAX_ORDER" "i2 \<in> set (L k2)"
      "blk k (i + 2 ^ k) \<subseteq> blk k2 i2"
    using Suc.IH [OF _ halves(2) sub(2)] Suc.prems(1) by auto
  have meet: "blk (Suc k) i \<inter> blk k1 i1 \<noteq> {}" "blk (Suc k) i \<inter> blk k2 i2 \<noteq> {}"
    using 1(4) 2(4) blk_first [of i k] blk_first [of "i + 2 ^ k" k] blk_split(1) [of k i] by blast+
  have "\<not> (k1 = k \<and> k2 = k)"
  proof
    assume "k1 = k \<and> k2 = k"
    then have "i1 = i" "i2 = i + 2 ^ k"
      using 1(4) 2(4) by (auto dest: blk_subset_same)
    then have "i \<in> set (L k)" "i + 2 ^ k \<in> set (L k)"
      using 1(3) 2(3) \<open>k1 = k \<and> k2 = k\<close> by simp_all
    then show False
      using halves(3) brepD(3) [OF assms(1)] Suc.prems(1) unfolding no_buddies_def
      by (metis Suc_le_lessD)
  qed
  then have "Suc k \<le> k1 \<or> Suc k \<le> k2" using 1(1) 2(1) by linarith
  then show ?case using up [OF 1(2,3) _ meet(1)] up [OF 2(2,3) _ meet(2)] by blast
qed

lemma buddy_alloc_none_iff:
  assumes "buddy_inv s"
  shows "fst (buddy_alloc order s) = None \<longleftrightarrow>
    \<not> (order \<le> MAX_ORDER \<and> (\<exists>i. valid_block (b_frames (fa s)) order i \<and> blk order i \<subseteq> free_idx s))"
proof (cases "buddy_alloc order s")
  case (Pair r s')
  obtain L where L: "brep s L" "hrep s L" "cover L = free_idx s" using assms by (elim buddy_invE)
  show ?thesis
  proof (cases r)
    case (Some p)
    then show ?thesis using buddy_alloc_some [OF assms, of order p s'] Pair by auto
  next
    case None
    have "\<not> blk order i \<subseteq> free_idx s"
      if "order \<le> MAX_ORDER" "valid_block (b_frames (fa s)) order i" for i
      using L(2)
    proof (cases rule: buddy_alloc_cases [of s L order])
      case none
      then show ?thesis
        using free_run_in_block [OF L(1) that] that(1) by (auto simp: L(3))
    next
      case (some donor idx)
      then show ?thesis using Pair None by (simp add: Let_def)
    qed
    then show ?thesis using Pair None by auto
  qed
qed

lemma buddy_alloc_none_state:
  "fst (buddy_alloc order s) = None \<Longrightarrow> snd (buddy_alloc order s) = s"
  by (auto simp: buddy_alloc_def Let_def split: if_splits)

section \<open>Release\<close>

lemma buddy_free_some:
  assumes inv: "buddy_inv s" and "order \<le> MAX_ORDER" and v: "valid_block (b_frames (fa s)) order i"
    and live: "blk order i \<inter> free_idx s = {}"
  obtains s' where "buddy_free (b_base (fa s) + i) order s = Some s'" "buddy_inv s'"
    "free_idx s' = free_idx s \<union> blk order i"
    "b_base (fa s') = b_base (fa s)" "b_frames (fa s') = b_frames (fa s)"
    "meta_frames (fa s') = meta_frames (fa s)"
    "b_allocated (fa s') = b_allocated (fa s) - 2 ^ order"
    "same_frames (- (allocator_frames s \<union> {b_base (fa s) + i..<b_base (fa s) + i + 2 ^ order}))
       (ram s) (ram s')"
proof -
  obtain L where L: "brep s L" "hrep s L" "cover L = free_idx s"
    and cnt: "b_allocated (fa s) + card (free_idx s) = b_frames (fa s)"
      "b_allocated (fa s) \<le> b_peak (fa s)" "b_peak (fa s) \<le> b_frames (fa s)"
    using inv by (elim buddy_invE)
  have "card (free_idx s \<union> blk order i) \<le> card {..<b_frames (fa s)}"
    using brepD(5) [OF L(1)] L(3) valid_block_blk [OF v] by (intro card_mono) auto
  then have le: "card (free_idx s) + 2 ^ order \<le> b_frames (fa s)"
    and card': "card (free_idx s \<union> blk order i) = card (free_idx s) + 2 ^ order"
    using live cover_finite [of L] L(3) by (simp_all add: card_Un_disjoint Int_commute)
  let ?s1 = "s\<lparr>fa := (fa s)\<lparr>b_allocated := b_allocated (fa s) - 2 ^ order\<rparr>\<rparr>"
  have "brep ?s1 L" "valid_block (b_frames (fa ?s1)) order i" "blk order i \<inter> cover L = {}"
    using L v live by simp_all
  from merge_up_correct [OF this(1) assms(2) this(2,3)] obtain i' l' s2 L2
    where m: "merge_up i order ?s1 = (i', l', s2)" "brep s2 L2" "l' \<le> MAX_ORDER"
      "valid_block (b_frames (fa s)) l' i'" "blk l' i' \<inter> cover L2 = {}"
      "cover L2 \<union> blk l' i' = cover L \<union> blk order i"
      "l' < MAX_ORDER \<longrightarrow> i' XOR 2 ^ l' \<notin> set (L2 l')" "same_static ?s1 s2"
      "same_frames (foreign ?s1 (cover L \<union> blk order i)) (ram s) (ram s2)"
    by auto
  let ?s' = "buddy_push l' i' s2"
  have v2: "valid_block (b_frames (fa s2)) l' i'" using m(4,8) by (simp add: same_static_def)
  note push = brep_push [OF m(2,3) v2 m(5)]
  have rep': "brep ?s' (L2(l' := i' # L2 l'))" using push(1) m(7) by blast
  then have idx': "free_idx ?s' = free_idx s \<union> blk order i"
    using free_idx_cover [OF brepD(1)] cover_push [OF m(3)] m(6) L(3) by metis
  have ok: "buddy_free (b_base (fa s) + i) order s = Some ?s'"
    using v m(1,3) le cnt(1) by (simp add: buddy_free_def checked_sub_def valid_block_def Let_def
        nat_and_mask [unfolded One_nat_def] dvd_eq_mod_eq_0)
  have st: "same_static ?s1 ?s'" by (rule same_static_trans [OF m(8)]) simp
  have inv': "buddy_inv ?s'"
    using rep' st cnt le card' unfolding buddy_inv_def idx' same_static_def by auto
  have frg: "foreign s2 F = foreign s F" "foreign ?s1 F = foreign s F" for F
    using foreign_static [OF m(8)] by (simp_all add: foreign_def meta_frames_def)
  have "same_frames (foreign s (cover L \<union> blk order i)) (ram s2) (ram ?s')"
    using push(2) m(6,7) by (simp add: frg)
  then have "same_frames (foreign s (cover L \<union> blk order i)) (ram s) (ram ?s')"
    using m(9) by (auto simp: frg intro: same_frames_trans)
  moreover have "foreign s (cover L \<union> blk order i) =
      - (allocator_frames s \<union> {b_base (fa s) + i..<b_base (fa s) + i + 2 ^ order})"
    by (auto simp: foreign_def allocator_frames_def free_ppns_def L(3) ppn_block)
  ultimately show ?thesis
    using that [OF ok inv' idx'] st by (simp add: same_static_def meta_frames_def)
qed

section \<open>Initialisation\<close>

lemma seed_order_spec:
  assumes "i < n"
  shows "seed_order n i m \<le> m \<and> valid_block n (seed_order n i m) i \<and>
    (\<forall>k. seed_order n i m < k \<and> k \<le> m \<longrightarrow> \<not> valid_block n k i)"
proof (induction m)
  case 0
  then show ?case using assms by (auto simp: seed_order.simps valid_block_def)
next
  case (Suc m)
  have and_mask: "i AND (2 ^ Suc m - 1) \<noteq> 0 \<longleftrightarrow> \<not> 2 ^ Suc m dvd i"
    by (simp only: nat_and_mask dvd_eq_mod_eq_0)
  show ?case
  proof (cases "valid_block n (Suc m) i")
    case True
    then have "seed_order n i (Suc m) = Suc m"
      unfolding seed_order.simps [of n i "Suc m"] and_mask by (simp add: valid_block_def)
    then show ?thesis using True by auto
  next
    case False
    then have "seed_order n i (Suc m) = seed_order n i m"
      unfolding seed_order.simps [of n i "Suc m"] and_mask by (auto simp: valid_block_def)
    then show ?thesis using Suc.IH False by (auto simp: le_Suc_eq)
  qed
qed

lemma buddy_lower:
  assumes "2 ^ k dvd (i::nat)" "i XOR 2 ^ k < i"
  shows "2 ^ Suc k dvd i XOR 2 ^ k" "(i XOR 2 ^ k) + 2 ^ Suc k = i + 2 ^ k"
proof -
  have m: "min i (i XOR 2 ^ k) = i XOR 2 ^ k" using assms(2) by simp
  show "2 ^ Suc k dvd i XOR 2 ^ k" using buddy_merge(2) [OF assms(1)] by (simp only: m)
  have "i XOR 2 ^ k = i - 2 ^ k" "2 ^ k \<le> i"
    using nat_xor_pow2 [OF assms(1)] assms dvd_imp_le by (auto split: if_splits)
  then show "(i XOR 2 ^ k) + 2 ^ Suc k = i + 2 ^ k" by simp
qed

lemma seed_lists_correct:
  assumes "brep s L" "cover L = {..<idx}" "idx \<le> b_frames (fa s)"
    and "\<And>k i. k \<le> MAX_ORDER \<Longrightarrow> i \<in> set (L k) \<Longrightarrow> k = seed_order (b_frames (fa s)) i MAX_ORDER"
  shows "\<exists>L'. brep (seed_lists idx s) L' \<and> cover L' = {..<b_frames (fa s)} \<and>
    same_static s (seed_lists idx s) \<and>
    same_frames (foreign s {..<b_frames (fa s)}) (ram s) (ram (seed_lists idx s))"
  using assms
proof (induction idx s arbitrary: L rule: seed_lists.induct)
  case (1 idx s)
  show ?case
  proof (cases "idx < b_frames (fa s)")
    case False
    then have "seed_lists idx s = s" by (simp add: seed_lists.simps)
    then show ?thesis using "1.prems" False by auto
  next
    case True
    let ?n = "b_frames (fa s)"
    define k where "k = seed_order ?n idx MAX_ORDER"
    let ?s1 = "buddy_push k idx s" and ?L1 = "L(k := idx # L k)"
    have k: "k \<le> MAX_ORDER" "valid_block ?n k idx"
      using seed_order_spec [OF True, of MAX_ORDER] by (simp_all add: k_def)
    have "idx XOR 2 ^ k \<notin> set (L k)" if "k < MAX_ORDER"
    proof
      assume mem: "idx XOR 2 ^ k \<in> set (L k)"
      then have lt: "idx XOR 2 ^ k < idx"
        using cover_memI [of k "idx XOR 2 ^ k" L] k(1) blk_first "1.prems"(2) by blast
      then have "valid_block ?n (Suc k) (idx XOR 2 ^ k)"
        using buddy_lower [OF _ lt] k(2) by (simp add: valid_block_def)
      then show False
        using seed_order_spec [of "idx XOR 2 ^ k" ?n MAX_ORDER] "1.prems"(4) [of k, OF k(1) mem] that lt True
        by auto
    qed
    moreover have "blk k idx \<inter> cover L = {}" by (auto simp: "1.prems"(2) blk_def)
    ultimately have rep1: "brep ?s1 ?L1"
      and mem1: "same_frames (foreign s (cover L \<union> blk k idx)) (ram s) (ram ?s1)"
      using brep_push [OF "1.prems"(1) k] by blast+
    have cov1: "cover ?L1 = {..<idx + 2 ^ k}"
      unfolding cover_push [OF k(1)] "1.prems"(2) blk_def by auto
    have le1: "idx + 2 ^ k \<le> b_frames (fa ?s1)" using k(2) by (simp add: valid_block_def)
    have ord1: "k' = seed_order (b_frames (fa ?s1)) i MAX_ORDER"
      if "k' \<le> MAX_ORDER" "i \<in> set (?L1 k')" for k' i
      using that "1.prems"(4) [of k' i] k_def by (cases "k' = k \<and> i = idx") (auto split: if_splits)
    obtain L' where L': "brep (seed_lists (idx + 2 ^ k) ?s1) L'" "cover L' = {..<?n}"
        "same_static ?s1 (seed_lists (idx + 2 ^ k) ?s1)"
        "same_frames (foreign ?s1 {..<?n}) (ram ?s1) (ram (seed_lists (idx + 2 ^ k) ?s1))"
      using "1.IH" [OF True k_def rep1 cov1 le1 ord1] by auto
    have step: "seed_lists idx s = seed_lists (idx + 2 ^ k) ?s1"
      using True by (simp add: seed_lists.simps [of idx s] k_def Let_def)
    have "same_frames (foreign s {..<?n}) (ram s) (ram ?s1)"
      using k(2) True by (intro same_frames_mono [OF mem1 foreign_mono])
        (auto simp: "1.prems"(2) valid_block_def blk_def)
    then have "same_frames (foreign s {..<?n}) (ram s) (ram (seed_lists (idx + 2 ^ k) ?s1))"
      by (rule same_frames_trans) (use L'(4) in \<open>simp add: foreign_static [of s ?s1]\<close>)
    moreover have "same_static s (seed_lists (idx + 2 ^ k) ?s1)"
      by (rule same_static_trans [OF _ L'(3)]) simp
    ultimately show ?thesis unfolding step using L'(1,2) by blast
  qed
qed

lemma total_bits_mono: "m \<le> n \<Longrightarrow> total_bits m \<le> total_bits n"
  unfolding total_bits_def order_bits_def by (intro sum_mono div_ceil_mono) simp_all

text \<open>An allocator with empty lists and a cleared bitmap.\<close>

lemma brep_empty:
  assumes "layout (fa s)" "b_free_lists (fa s) = replicate (MAX_ORDER + 1) NIL"
    and "\<And>j. j < total_bits (b_frames (fa s)) \<Longrightarrow> ram s (b_bitmap (fa s) div 8 + j div 64) = 0"
  shows "brep s (\<lambda>_. [])"
proof -
  have "\<not> is_free s k i" if "k \<le> MAX_ORDER" "valid_block (b_frames (fa s)) k i" for k i
    using assms(3) [OF bit_index_total [OF assms(1) that]]
    unfolding is_free_def Let_def read_u64_def by (simp add: bit_slot(1) [OF assms(1) that] add.commute)
  moreover have "b_free_lists (fa s) ! k = NIL" if "k \<le> MAX_ORDER" for k
    using that by (simp only: assms(2) nth_replicate)
  ultimately have "hrep s (\<lambda>_. [])" using assms(1) by (intro hrepI) auto
  then show ?thesis by (simp add: brep_def disj_blocks_def no_buddies_def)
qed

lemma zero_bytes_pages:
  "zero_bytes (p * 4096) (n * 4096) m d = (if p * 512 \<le> d \<and> d < (p + n) * 512 then 0 else m d)"
  unfolding zero_bytes_def slot_simps add_mult_distrib [symmetric] ..

text \<open>The bits of the bitmap fit into the pages that are cleared for it.\<close>

lemma bitmap_pages:
  "bits \<le> div_ceil (next_multiple_of (div_ceil bits 8) 8) 4096 * 512 * 64"
proof -
  let ?bytes = "next_multiple_of (div_ceil bits 8) 8"
  have "bits \<le> div_ceil bits 8 * 8" by (rule div_ceil_bound) simp
  also have "\<dots> \<le> ?bytes * 8" using next_multiple_of_props(1) [of 8 "div_ceil bits 8"] by simp
  also have "\<dots> \<le> (div_ceil ?bytes 4096 * 4096) * 8" by (intro mult_right_mono div_ceil_bound) simp_all
  finally show ?thesis by simp
qed

lemma buddy_init_unfold:
  assumes "buddy_init start end s = Some s'" "end < usize_lim"
  obtains first last bf base n s0 where
    "first = next_multiple_of start 4096 div 4096" "last = end div 4096" "first < last"
    "first * 4096 = next_multiple_of start 4096"
    "bf = div_ceil (next_multiple_of (div_ceil (total_bits (last - first)) 8) 8) 4096"
    "base = next_multiple_of (first + bf) 1024" "n = last - base" "base \<le> last"
    "s0 = \<lparr>fa = \<lparr>b_base = base, b_frames = n, b_free_lists = replicate (MAX_ORDER + 1) NIL,
             b_bitmap = first * 4096, b_order_bit_base = bit_bases n, b_allocated = 0, b_peak = 0\<rparr>,
           ram = zero_bytes (first * 4096) (bf * 4096) (ram s)\<rparr>"
    "s' = seed_lists 0 s0"
proof -
  let ?up = "next_multiple_of start 4096"
  define first where "first = ?up div 4096"
  define last where "last = end div 4096"
  define bf where "bf = div_ceil (next_multiple_of (div_ceil (total_bits (last - first)) 8) 8) 4096"
  define base where "base = next_multiple_of (first + bf) 1024"
  have up: "align_up start = Some ?up" "start + 4096 < usize_lim"
    using assms(1) by (auto simp: buddy_init_def align_up_eq split: if_splits)
  have dvd: "4096 dvd ?up" by (rule next_multiple_of_props(2)) simp
  then have f: "first * 4096 = ?up" by (simp add: first_def)
  have "end - end mod 4096 = last * 4096" by (simp add: last_def minus_mod_eq_div_mult)
  then have down: "pa_ppn (align_down end) = last"
    using assms(2) by (simp add: align_down_eq pa_ppn_div)
  have ppn: "pa_ppn ?up = first" by (simp add: pa_ppn_div first_def)
  have lim: "first < 2 ^ 52"
    using next_multiple_of_props(3) [of 4096 start] up(2) f by simp
  have ge: "first + bf \<le> base" unfolding base_def by (rule next_multiple_of_props(1)) simp
  have ne: "first < last"
    using assms(1) by (auto simp: buddy_init_def up ppn down Let_def split: if_splits)
  have sub: "base - first \<le> last - first"
    using assms(1) ne lim by (auto simp: buddy_init_def up ppn down Let_def checked_sub_def
        total_bits_def [symmetric] bf_def [symmetric] base_def [symmetric] split: if_splits)
  have le: "base \<le> last" and n: "last - first - (base - first) = last - base"
    using sub ne ge by linarith+
  have "s' = seed_lists 0 \<lparr>fa = \<lparr>b_base = base, b_frames = last - base,
      b_free_lists = replicate (MAX_ORDER + 1) NIL, b_bitmap = first * 4096,
      b_order_bit_base = bit_bases (last - base), b_allocated = 0, b_peak = 0\<rparr>,
      ram = zero_bytes (first * 4096) (bf * 4096) (ram s)\<rparr>"
    using assms(1) ne lim sub n
    by (auto simp: buddy_init_def up ppn down Let_def checked_sub_def ppn_base_addr_eq
        total_bits_def [symmetric] bf_def [symmetric] base_def [symmetric] split: if_splits)
  then show ?thesis using that [OF first_def last_def ne f bf_def base_def refl le refl] by blast
qed

lemma buddy_init_some:
  assumes "buddy_init start end s = Some s'" "end < usize_lim"
  shows "buddy_inv s'" and "free_idx s' = {..<b_frames (fa s')}" and "b_allocated (fa s') = 0"
    and "start \<le> b_base (fa s') * 4096" and "b_base (fa s') + b_frames (fa s') = end div 4096"
    and "2 ^ MAX_ORDER dvd b_base (fa s')"
    and "same_frames (- {start div 4096..<end div 4096}) (ram s) (ram s')"
proof -
  obtain first last bf base n s0 where d: "first = next_multiple_of start 4096 div 4096"
    "last = end div 4096" "first < last" "first * 4096 = next_multiple_of start 4096"
    "bf = div_ceil (next_multiple_of (div_ceil (total_bits (last - first)) 8) 8) 4096"
    "base = next_multiple_of (first + bf) 1024" "n = last - base" "base \<le> last"
    and s0: "s0 = \<lparr>fa = \<lparr>b_base = base, b_frames = n, b_free_lists = replicate (MAX_ORDER + 1) NIL,
             b_bitmap = first * 4096, b_order_bit_base = bit_bases n, b_allocated = 0, b_peak = 0\<rparr>,
           ram = zero_bytes (first * 4096) (bf * 4096) (ram s)\<rparr>" and s': "s' = seed_lists 0 s0"
    by (rule buddy_init_unfold [OF assms])
  have ge: "first + bf \<le> base" and al: "1024 dvd base"
    unfolding d(6) by (simp_all only: next_multiple_of_props zero_less_numeral)
  have last: "last < 2 ^ 52"
    using assms(2) unfolding d(2) by (simp add: div_less_iff_less_mult)
  have "total_bits n \<le> total_bits (last - first)" using ge d(7) by (intro total_bits_mono) simp
  then have bits: "total_bits n \<le> bf * 512 * 64"
    using bitmap_pages [of "total_bits (last - first)"] unfolding d(5) by linarith
  have "first * 512 * 64 + bf * 512 * 64 \<le> base * 512 * 64"
    using ge unfolding add_mult_distrib [symmetric] by simp
  then have lay: "layout (fa s0)"
    using bits al last d(7,8) unfolding s0 by (simp add: layout_def slot_simps)
  have "ram s0 (first * 512 + j div 64) = 0" if "j < total_bits n" for j
  proof -
    have "j div 64 < bf * 512" using that bits by (intro less_mult_imp_div_less) simp
    then show ?thesis unfolding s0 by (simp add: zero_bytes_pages add_mult_distrib)
  qed
  then have "brep s0 (\<lambda>_. [])" using lay by (intro brep_empty) (simp_all add: s0 slot_simps)
  from seed_lists_correct [OF this, of 0] obtain L where L: "brep s' L" "cover L = {..<n}"
      "same_static s0 s'" "same_frames (foreign s0 {..<n}) (ram s0) (ram s')"
    by (auto simp: cover_def s' s0)
  have fields: "b_base (fa s') = base" "b_frames (fa s') = n" "b_allocated (fa s') = 0"
    "b_peak (fa s') = 0" using L(3) by (simp_all add: same_static_def s0)
  have idx: "free_idx s' = {..<n}" using free_idx_cover [OF brepD(1) [OF L(1)]] L(2) by simp
  then show "buddy_inv s'" "free_idx s' = {..<b_frames (fa s')}" "b_allocated (fa s') = 0"
    "b_base (fa s') + b_frames (fa s') = end div 4096" "2 ^ MAX_ORDER dvd b_base (fa s')"
    using L(1) d(2,7,8) al by (auto simp: buddy_inv_def fields)
  have "start \<le> first * 4096" using next_multiple_of_props(1) [of 4096 start] d(4) by simp
  moreover have "first * 4096 \<le> base * 4096" using ge by simp
  ultimately show "start \<le> b_base (fa s') * 4096" by (simp only: fields)
  have lo: "start div 4096 \<le> first"
    using div_le_mono [OF \<open>start \<le> first * 4096\<close>, of 4096] by simp
  have "same_frames (- {start div 4096..<end div 4096}) (ram s) (ram s0)"
    using lo ge d(8) unfolding same_frames_def s0 dw_frame_def d(2) [symmetric]
    by (simp add: zero_bytes_pages less_eq_div_iff_mult_less_eq div_less_iff_less_mult not_less)
  moreover have "same_frames (- {start div 4096..<end div 4096}) (ram s0) (ram s')"
  proof (rule same_frames_mono [OF L(4)])
    have "start div 4096 \<le> base + x" "x < n \<Longrightarrow> base + x < end div 4096" for x
      using lo ge d(2,7,8) by linarith+
    then show "- {start div 4096..<end div 4096} \<subseteq> foreign s0 {..<n}"
      using lo d(2,8) by (auto simp: foreign_def meta_frames_def s0)
  qed
  ultimately show "same_frames (- {start div 4096..<end div 4096}) (ram s) (ram s')"
    by (rule same_frames_trans)
qed

text \<open>Initialisation succeeds when an aligned frame is left behind the bitmap.\<close>

lemma buddy_init_succeeds:
  fixes last :: nat
  assumes "start + 4096 < usize_lim" "end < usize_lim"
    and "first = next_multiple_of start 4096 div 4096" "last = end div 4096" "first < last"
    and "bf = div_ceil (next_multiple_of (div_ceil (total_bits (last - first)) 8) 8) 4096"
    and "next_multiple_of (first + bf) 1024 \<le> last"
  shows "\<exists>s'. buddy_init start end s = Some s'"
proof -
  have up: "align_up start = Some (next_multiple_of start 4096)" using assms(1) by (simp add: align_up_eq)
  have ppn: "pa_ppn (next_multiple_of start 4096) = first" by (simp add: pa_ppn_div assms(3))
  have "end - end mod 4096 = last * 4096" by (simp add: assms(4) minus_mod_eq_div_mult)
  then have down: "pa_ppn (align_down end) = last"
    using assms(2) by (simp add: align_down_eq pa_ppn_div)
  have "(\<Sum>k\<le>MAX_ORDER. order_bits (last - first) k) = total_bits (last - first)"
    by (simp only: total_bits_def)
  then show ?thesis
    using assms(5,7) unfolding buddy_init_def up ppn down Let_def assms(6)
    by (simp add: checked_sub_def ppn down Let_def)
qed

lemma sum_orders:
  "(\<Sum>k\<le>(10::nat). f k) = f 0 + f 1 + f 2 + f 3 + f 4 + f 5 + f 6 + f 7 + f 8 + f 9 + (f 10 :: nat)"
  by (simp add: eval_nat_numeral)

text \<open>A small machine: five frames from \<open>0x3ff000\<close>, one for the bitmap and four managed.\<close>

definition small_mm :: mm_state where
  "small_mm = the (buddy_init 0x3ff000 0x404000 \<lparr>fa = buddy_empty, ram = (\<lambda>_. 0)\<rparr>)"

lemma small_mm_init: "buddy_init 0x3ff000 0x404000 \<lparr>fa = buddy_empty, ram = (\<lambda>_. 0)\<rparr> = Some small_mm"
proof -
  have bits: "total_bits 5 = 18"
    unfolding total_bits_def sum_orders by (simp add: order_bits_def div_ceil_def)
  have "\<exists>s'. buddy_init 0x3ff000 0x404000 \<lparr>fa = buddy_empty, ram = (\<lambda>_. 0)\<rparr> = Some s'"
    by (rule buddy_init_succeeds [where first = 1023 and last = 1028 and bf = 1])
      (simp_all add: next_multiple_of_def div_ceil_def bits)
  then show ?thesis by (auto simp: small_mm_def)
qed

lemma small_mm_facts:
  "buddy_inv small_mm" "b_base (fa small_mm) = 1024" "b_frames (fa small_mm) = 4"
  "free_idx small_mm = {..<4}" "b_allocated (fa small_mm) = 0"
proof -
  note init = buddy_init_some [OF small_mm_init, simplified]
  show "buddy_inv small_mm" "b_allocated (fa small_mm) = 0" by (rule init(1), rule init(3))
  obtain q where q: "b_base (fa small_mm) = 1024 * q" using init(6) by (auto simp: dvd_def)
  then have "q = 1" using init(4,5) by simp
  then show "b_base (fa small_mm) = 1024" using q by simp
  then show n: "b_frames (fa small_mm) = 4" using init(5) by simp
  show "free_idx small_mm = {..<4}" using init(2) by (simp add: n)
qed

lemma small_mm_free: "free_ppns small_mm = {1024..<1028}"
  by (simp add: free_ppns_def small_mm_facts lessThan_atLeast0)

section \<open>Properties\<close>

lemma small_alloc:
  obtains p s' where "buddy_alloc 1 small_mm = (Some p, s')"
proof (cases "buddy_alloc 1 small_mm")
  case (Pair r s')
  have "fst (buddy_alloc 1 small_mm) \<noteq> None"
    unfolding buddy_alloc_none_iff [OF small_mm_facts(1)]
    by (auto simp: small_mm_facts valid_block_def blk_def intro!: exI [of _ 0])
  then show ?thesis using that Pair by (cases r) auto
qed

text \<open>
  C1: A successful allocation returns a block of \<open>2 ^ order\<close> frames that were all
  free, aligned to its own size in physical memory; afterwards exactly this block has
  left the free set, the invariant holds, the count of frames in use has grown by
  the block, and no frame in use was written.
\<close>

theorem buddy_alloc_correct:
  assumes "buddy_inv s" and "buddy_alloc order s = (Some p, s')"
  shows "order \<le> MAX_ORDER \<and> 2 ^ order dvd p \<and> {p..<p + 2 ^ order} \<subseteq> free_ppns s \<and>
    free_ppns s' = free_ppns s - {p..<p + 2 ^ order} \<and> buddy_inv s' \<and>
    used_frames (fa s') = used_frames (fa s) + 2 ^ order \<and>
    same_frames (- allocator_frames s) (ram s) (ram s')"
proof -
  obtain i where i: "order \<le> MAX_ORDER" "p = b_base (fa s) + i" "valid_block (b_frames (fa s)) order i"
    "blk order i \<subseteq> free_idx s" "buddy_inv s'" "free_idx s' = free_idx s - blk order i"
    "b_base (fa s') = b_base (fa s)" "b_allocated (fa s') = b_allocated (fa s) + 2 ^ order"
    "same_frames (- allocator_frames s) (ram s) (ram s')"
    using buddy_alloc_some [OF assms] by metis
  have "2 ^ MAX_ORDER dvd b_base (fa s)"
    using assms(1) brepD(4) by (elim buddy_invE) (simp add: layout_def)
  then have "2 ^ order dvd b_base (fa s)" by (rule dvd_trans [OF le_imp_power_dvd [OF i(1)]])
  then have "2 ^ order dvd p" using i(3) unfolding i(2) valid_block_def by simp
  moreover have "{p..<p + 2 ^ order} = (\<lambda>j. b_base (fa s) + j) ` blk order i"
    by (simp add: i(2) ppn_block)
  ultimately show ?thesis
    using i by (auto simp: free_ppns_def used_frames_def)
qed

theorem buddy_alloc_correct_witness:
  "\<exists>p s'. buddy_alloc 1 small_mm = (Some p, s') \<and> {p..<p + 2} \<subseteq> free_ppns small_mm \<and>
     used_frames (fa s') = 2"
proof -
  obtain p s' where "buddy_alloc 1 small_mm = (Some p, s')" by (rule small_alloc)
  with buddy_alloc_correct [OF small_mm_facts(1) this] show ?thesis
    by (auto simp: used_frames_def small_mm_facts)
qed

text \<open>
  C2: Allocation fails only when it must: for an order above the maximum, or when no
  aligned run of \<open>2 ^ order\<close> managed frames is entirely free. Eager merging makes
  this hold: memory is never unavailable because it is split up. A failed allocation
  changes nothing.
\<close>

theorem buddy_alloc_complete:
  assumes "buddy_inv s"
  shows "(fst (buddy_alloc order s) = None \<longleftrightarrow>
      MAX_ORDER < order \<or>
      \<not> (\<exists>i. 2 ^ order dvd i \<and>
          {b_base (fa s) + i..<b_base (fa s) + i + 2 ^ order} \<subseteq> free_ppns s)) \<and>
    (fst (buddy_alloc order s) = None \<longrightarrow> snd (buddy_alloc order s) = s)"
proof -
  obtain L where L: "brep s L" "cover L = free_idx s" using assms by (elim buddy_invE)
  have "valid_block (b_frames (fa s)) order i \<and> blk order i \<subseteq> free_idx s \<longleftrightarrow>
      2 ^ order dvd i \<and> {b_base (fa s) + i..<b_base (fa s) + i + 2 ^ order} \<subseteq> free_ppns s" for i
  proof -
    have "(1::nat) \<le> 2 ^ order" by simp
    then have "i + (2 ^ order - 1) \<in> blk order i" unfolding blk_def atLeastLessThan_iff by linarith
    then have "i + 2 ^ order \<le> b_frames (fa s)" if "blk order i \<subseteq> free_idx s"
      using that brepD(5) [OF L(1)] L(2) by fastforce
    then show ?thesis
      by (auto simp: valid_block_def ppn_block free_ppns_def inj_image_subset_iff)
  qed
  then have "(\<exists>i. valid_block (b_frames (fa s)) order i \<and> blk order i \<subseteq> free_idx s) \<longleftrightarrow>
      (\<exists>i. 2 ^ order dvd i \<and> {b_base (fa s) + i..<b_base (fa s) + i + 2 ^ order} \<subseteq> free_ppns s)"
    by simp
  then show ?thesis
    using buddy_alloc_none_iff [OF assms, of order] buddy_alloc_none_state [of order s]
    by (simp only: not_le de_Morgan_conj) blast
qed

theorem buddy_alloc_complete_witness:
  "fst (buddy_alloc 3 small_mm) = None \<and> fst (buddy_alloc 2 small_mm) \<noteq> None"
  using buddy_alloc_complete [OF small_mm_facts(1), of 3]
    buddy_alloc_complete [OF small_mm_facts(1), of 2]
  by (auto simp: small_mm_free small_mm_facts)

text \<open>
  C3: Releasing a block of frames in use, with the order it was allocated with, never
  panics: the result has exactly these frames added to the free set, satisfies the
  invariant, and is reached without writing to any other frame in use.
\<close>

theorem buddy_free_correct:
  assumes "buddy_inv s" and "order \<le> MAX_ORDER" and "2 ^ order dvd p"
    and "{p..<p + 2 ^ order} \<subseteq> managed s - free_ppns s"
  shows "\<exists>s'. buddy_free p order s = Some s' \<and> buddy_inv s' \<and>
    free_ppns s' = free_ppns s \<union> {p..<p + 2 ^ order} \<and>
    used_frames (fa s') + 2 ^ order = used_frames (fa s) \<and>
    same_frames (- (allocator_frames s \<union> {p..<p + 2 ^ order})) (ram s) (ram s')"
proof -
  have one: "(1::nat) \<le> 2 ^ order" by simp
  then have "p \<in> {p..<p + 2 ^ order}" "p + (2 ^ order - 1) \<in> {p..<p + 2 ^ order}"
    unfolding atLeastLessThan_iff by linarith+
  then have "p \<in> managed s" "p + (2 ^ order - 1) \<in> managed s" using assms(4) by blast+
  then obtain i where i: "p = b_base (fa s) + i" "i + 2 ^ order \<le> b_frames (fa s)"
    using one that [of "p - b_base (fa s)"] unfolding managed_def atLeastLessThan_iff by linarith
  have "2 ^ MAX_ORDER dvd b_base (fa s)"
    using assms(1) brepD(4) by (elim buddy_invE) (simp add: layout_def)
  then have "2 ^ order dvd b_base (fa s)" by (rule dvd_trans [OF le_imp_power_dvd [OF assms(2)]])
  then have "2 ^ order dvd i" using assms(3) unfolding i(1) by (simp add: dvd_add_right_iff)
  with i have v: "valid_block (b_frames (fa s)) order i" by (simp add: valid_block_def)
  have blk: "{p..<p + 2 ^ order} = (\<lambda>j. b_base (fa s) + j) ` blk order i"
    by (simp add: i(1) ppn_block)
  have "blk order i \<inter> free_idx s = {}" using assms(4) unfolding blk free_ppns_def by auto
  from buddy_free_some [OF assms(1,2) v this] obtain s' where s': "buddy_free p order s = Some s'"
    "buddy_inv s'" "free_idx s' = free_idx s \<union> blk order i" "b_base (fa s') = b_base (fa s)"
    "b_frames (fa s') = b_frames (fa s)"
    "same_frames (- (allocator_frames s \<union> {p..<p + 2 ^ order})) (ram s) (ram s')"
    unfolding i(1) by metis
  have "free_ppns s' = free_ppns s \<union> {p..<p + 2 ^ order}"
    unfolding blk free_ppns_def s'(3,4) by (rule image_Un)
  moreover have "card (free_idx s') = card (free_idx s) + 2 ^ order"
    using \<open>blk order i \<inter> free_idx s = {}\<close> cover_finite assms(1) unfolding s'(3)
    by (metis buddy_invE card_Un_disjoint card_blk finite_blk inf_commute)
  then have "used_frames (fa s') + 2 ^ order = used_frames (fa s)"
    using assms(1) s'(2,5) unfolding buddy_inv_def used_frames_def by linarith
  ultimately show ?thesis using s' by blast
qed

theorem buddy_free_correct_witness:
  "\<exists>p s1 s2. buddy_alloc 1 small_mm = (Some p, s1) \<and> buddy_free p 1 s1 = Some s2 \<and>
     free_ppns s2 = free_ppns small_mm"
proof -
  obtain p s1 where a: "buddy_alloc 1 small_mm = (Some p, s1)" by (rule small_alloc)
  obtain i where i: "p = b_base (fa small_mm) + i" "valid_block (b_frames (fa small_mm)) 1 i"
    "blk 1 i \<subseteq> free_idx small_mm" "buddy_inv s1" "free_idx s1 = free_idx small_mm - blk 1 i"
    "b_base (fa s1) = b_base (fa small_mm)" "b_frames (fa s1) = b_frames (fa small_mm)"
    using buddy_alloc_some [OF small_mm_facts(1) a] by metis
  have p: "{p..<p + 2 ^ 1} = (\<lambda>j. b_base (fa small_mm) + j) ` blk 1 i"
    unfolding i(1) by (rule ppn_block)
  have free1: "free_ppns s1 = free_ppns small_mm - {p..<p + 2 ^ 1}"
    unfolding p free_ppns_def i(5,6) by auto
  have sub: "{p..<p + 2 ^ 1} \<subseteq> free_ppns small_mm" using i(3) unfolding p free_ppns_def by auto
  have "2 ^ 1 dvd p" using i(1,2) by (simp add: small_mm_facts valid_block_def)
  moreover have "{p..<p + 2 ^ 1} \<subseteq> managed s1 - free_ppns s1"
    using sub free1 free_ppns_managed [OF small_mm_facts(1)] i(6,7) by (auto simp: managed_def)
  ultimately obtain s2 where "buddy_free p 1 s1 = Some s2"
      "free_ppns s2 = free_ppns s1 \<union> {p..<p + 2 ^ 1}"
    using buddy_free_correct [OF i(4), of 1 p] by auto
  then show ?thesis using a free1 sub by auto
qed

text \<open>
  C4: Initialisation on a physical range establishes the invariant with every managed
  frame free and none in use; the managed frames lie in the range, reach its end and
  start on a 4 MiB boundary; memory outside the range is untouched.
\<close>

theorem buddy_init_correct:
  assumes "buddy_init start end s = Some s'" and "end < usize_lim"
  shows "buddy_inv s' \<and> free_ppns s' = managed s' \<and> used_frames (fa s') = 0 \<and>
    start \<le> ppn_base_addr (b_base (fa s')) \<and> 2 ^ MAX_ORDER dvd b_base (fa s') \<and>
    b_base (fa s') + total_frames (fa s') = pa_ppn end \<and>
    same_frames (- {pa_ppn start..<pa_ppn end}) (ram s) (ram s')"
proof -
  note init = buddy_init_some [OF assms]
  have "free_ppns s' = managed s'"
    by (simp add: free_ppns_def managed_def init(2) lessThan_atLeast0 add.commute)
  moreover have "b_base (fa s') < 2 ^ 52"
  proof -
    have "end div 4096 < 2 ^ 52" using assms(2) by (simp add: div_less_iff_less_mult)
    then show ?thesis using init(5) by linarith
  qed
  then have "start \<le> ppn_base_addr (b_base (fa s'))" using init(4) by (simp add: ppn_base_addr_eq)
  ultimately show ?thesis
    using init by (simp add: used_frames_def total_frames_def pa_ppn_div)
qed

theorem buddy_init_correct_witness:
  "buddy_inv small_mm \<and> free_ppns small_mm = managed small_mm"
  using buddy_init_correct [OF small_mm_init] by simp

text \<open>The frames of a block, cleared.\<close>

lemma zero_block:
  assumes "p + 2 ^ order \<le> 2 ^ 52"
  shows "zero_bytes (ppn_base_addr p) (PAGE_SIZE * 2 ^ order) m d =
    (if dw_frame d \<in> {p..<p + 2 ^ order} then 0 else m d)"
proof -
  have "p < 2 ^ 52" using assms by (simp add: less_le_trans [of p "p + 2 ^ order"])
  then have "zero_bytes (ppn_base_addr p) (PAGE_SIZE * 2 ^ order) m d =
      zero_bytes (p * 4096) (2 ^ order * 4096) m d" by (simp add: ppn_base_addr_eq mult.commute)
  then show ?thesis
    by (simp add: zero_bytes_pages dw_frame_def less_eq_div_iff_mult_less_eq div_less_iff_less_mult)
qed

lemma alloc_frames_some:
  assumes inv: "buddy_inv s" and ok: "alloc_frames order s = (Some p, s')"
  shows "order \<le> MAX_ORDER \<and> {p..<p + 2 ^ order} \<subseteq> free_ppns s \<and>
    free_ppns s' = free_ppns s - {p..<p + 2 ^ order} \<and> buddy_inv s' \<and> managed s' = managed s \<and>
    meta_frames (fa s') = meta_frames (fa s) \<and>
    same_frames (- allocator_frames s) (ram s) (ram s') \<and>
    (\<forall>d. dw_frame d \<in> {p..<p + 2 ^ order} \<longrightarrow> ram s' d = 0)"
proof -
  let ?B = "{p..<p + 2 ^ order}" and ?z = "zero_bytes (ppn_base_addr p) (PAGE_SIZE * 2 ^ order)"
  obtain s1 where a: "buddy_alloc order s = (Some p, s1)" and s': "s' = s1\<lparr>ram := ?z (ram s1)\<rparr>"
    using ok by (auto simp: alloc_frames_def split: prod.splits option.splits)
  obtain i where i: "order \<le> MAX_ORDER" "p = b_base (fa s) + i" "valid_block (b_frames (fa s)) order i"
    "blk order i \<subseteq> free_idx s" "buddy_inv s1" "free_idx s1 = free_idx s - blk order i"
    "b_base (fa s1) = b_base (fa s)" "b_frames (fa s1) = b_frames (fa s)"
    "meta_frames (fa s1) = meta_frames (fa s)"
    "same_frames (- allocator_frames s) (ram s) (ram s1)"
    using buddy_alloc_some [OF inv a] by metis
  have B: "?B = (\<lambda>j. b_base (fa s) + j) ` blk order i" unfolding i(2) by (rule ppn_block)
  have sub: "?B \<subseteq> free_ppns s" using i(4) unfolding B free_ppns_def by auto
  have free1: "free_ppns s1 = free_ppns s - ?B" unfolding B free_ppns_def i(6,7) by auto
  have lay: "b_base (fa s) + b_frames (fa s) \<le> 2 ^ 52"
    using inv brepD(4) by (elim buddy_invE) (simp add: layout_def)
  then have "p + 2 ^ order \<le> 2 ^ 52" using i(2,3) by (simp add: valid_block_def)
  note z = zero_block [OF this]
  have "?B \<inter> meta_frames (fa s) = {}" using i(2) by (auto simp: meta_frames_def)
  then have priv: "allocator_frames s1 \<inter> ?B = {}" "allocator_frames s1 \<subseteq> allocator_frames s"
    using free1 i(9) by (auto simp: allocator_frames_def)
  then have "same_frames (allocator_frames s1) (ram s1) (?z (ram s1))"
    by (auto simp: same_frames_def z)
  note keep = free_idx_ram [OF i(5) this]
  have "same_frames (- allocator_frames s) (ram s1) (?z (ram s1))"
    using sub by (auto simp: same_frames_def z allocator_frames_def)
  with i(10) have "same_frames (- allocator_frames s) (ram s) (ram s')"
    unfolding s' by (auto intro: same_frames_trans)
  moreover have "\<forall>d. dw_frame d \<in> ?B \<longrightarrow> ram s' d = 0" by (simp add: s' z)
  ultimately show ?thesis
    using i(1,7-9) sub free1 keep by (simp add: s' managed_def)
qed

lemma alloc_frame_order0: "alloc_frame s = alloc_frames 0 s"
  by (auto simp: alloc_frame_def alloc_frames_def ppn_zero_def split: prod.splits option.splits)

text \<open>
  A frame run handed out reads as zero throughout, so nothing of its previous owner
  nor of the free lists is visible in it, and no frame in use has been written.
\<close>

theorem frame_alloc_zeroed:
  assumes "buddy_inv s" and "frame_alloc_order order s = (Some f, s')"
  shows "fr_order f = order \<and> {fr_ppn f..<fr_ppn f + frame_count f} \<subseteq> free_ppns s \<and>
    (\<forall>d. dw_frame d \<in> {fr_ppn f..<fr_ppn f + frame_count f} \<longrightarrow> ram s' d = 0) \<and>
    same_frames (- allocator_frames s) (ram s) (ram s') \<and> buddy_inv s'"
proof -
  have "alloc_frames order s = (Some (fr_ppn f), s')" "fr_order f = order"
    using assms(2) by (auto simp: frame_alloc_order_def split: prod.splits option.splits)
  then show ?thesis
    using alloc_frames_some [OF assms(1), of order "fr_ppn f" s'] by (simp add: frame_count_def)
qed

theorem frame_alloc_zeroed_witness:
  "\<exists>f s'. frame_alloc_order 1 small_mm = (Some f, s') \<and> frame_count f = 2 \<and>
     ram s' (512 * fr_ppn f) = 0"
proof -
  obtain p s1 where "buddy_alloc 1 small_mm = (Some p, s1)" by (rule small_alloc)
  then obtain f s' where f: "frame_alloc_order 1 small_mm = (Some f, s')"
    by (auto simp: frame_alloc_order_def alloc_frames_def)
  from frame_alloc_zeroed [OF small_mm_facts(1) f] have "frame_count f = 2"
    "\<forall>d. dw_frame d \<in> {fr_ppn f..<fr_ppn f + frame_count f} \<longrightarrow> ram s' d = 0"
    by (simp_all add: frame_count_def)
  then show ?thesis using f by (auto simp: dw_frame_def)
qed

lemma order_for_le_iff:
  assumes "count \<le> 2 ^ 63"
  shows "order_for count \<le> k \<longleftrightarrow> count \<le> 2 ^ k"
proof (cases "count \<le> 1")
  case True
  then show ?thesis by (auto simp: order_for_def intro: order_trans)
next
  case False
  have lt: "count - 1 < 2 ^ 63" using assms False by simp
  then have "bit_len (count - 1) \<le> 63" by (simp only: bit_len_le_iff)
  then have len: "order_for count = bit_len (count - 1)"
    using False by (simp add: order_for_def leading_zeros_def)
  show ?thesis unfolding len bit_len_le_iff using False by linarith
qed

text \<open>
  \<open>order_for\<close> is the smallest order whose block holds the requested number
  of frames.
\<close>

theorem order_for_least:
  assumes "count \<le> 2 ^ 63"
  shows "count \<le> 2 ^ order_for count \<and> (\<forall>k. count \<le> 2 ^ k \<longrightarrow> order_for count \<le> k)"
  using order_for_le_iff [OF assms] by blast

theorem order_for_least_witness: "5 \<le> (2::nat) ^ order_for 5 \<and> order_for 5 \<le> 3"
  using order_for_least [of 5] by simp

text \<open>
  \<open>buddy_free\<close> panics on a block below or beyond the managed region and on
  one that is not aligned for its order, whatever the state.
\<close>

theorem buddy_free_rejects:
  assumes "p < b_base (fa s) \<or> b_base (fa s) + b_frames (fa s) < p + 2 ^ order \<or>
    \<not> 2 ^ order dvd p - b_base (fa s)"
  shows "buddy_free p order s = None"
  using assms by (auto simp: buddy_free_def checked_sub_def nat_and_mask [unfolded One_nat_def]
      dvd_eq_mod_eq_0)

theorem buddy_free_rejects_witness: "buddy_free 1023 0 small_mm = None \<and> buddy_free 1025 1 small_mm = None"
  using buddy_free_rejects [of 1023 small_mm 0] buddy_free_rejects [of 1025 small_mm 1]
  by (simp add: small_mm_facts)

end
