(* ===== verification/Frame_Source.thy ===== *)
theory Frame_Source
  imports Frame_Props
begin

text \<open>
  What the rest of the memory manager relies on: single frames that are handed out
  zeroed, do not overlap, can be written freely while in use and can all be given back.
  The contract is the locale \<open>frame_source\<close>; the buddy allocator satisfies it.
  Page tables, regions and kernel stacks own their frames as values that are released
  when dropped; dropping a collection of them is \<open>frames_drop\<close>.
\<close>

section \<open>The contract\<close>

text \<open>
  \<open>own s\<close> are the frames whose contents the source itself relies on.
\<close>

locale frame_source =
  fixes inv :: "'s \<Rightarrow> bool"
    and free :: "'s \<Rightarrow> phys_page_num set"
    and pool :: "'s \<Rightarrow> phys_page_num set"
    and own :: "'s \<Rightarrow> phys_page_num set"
    and mem :: "'s \<Rightarrow> phys_mem"
    and set_mem :: "phys_mem \<Rightarrow> 's \<Rightarrow> 's"
    and alloc :: "'s \<Rightarrow> phys_page_num option \<times> 's"
    and release :: "phys_page_num \<Rightarrow> 's \<Rightarrow> 's option"
  assumes free_pool: "inv s \<Longrightarrow> free s \<subseteq> pool s"
    and own_pool: "inv s \<Longrightarrow> own s \<inter> pool s = free s"
    and alloc_some: "inv s \<Longrightarrow> alloc s = (Some p, s') \<Longrightarrow>
      inv s' \<and> p \<in> free s \<and> free s' = free s - {p} \<and> pool s' = pool s \<and>
      own s' = own s - {p} \<and> same_frames (- own s) (mem s) (mem s') \<and>
      (\<forall>d. dw_frame d = p \<longrightarrow> mem s' d = 0)"
    and alloc_none: "inv s \<Longrightarrow> alloc s = (None, s') \<Longrightarrow> s' = s \<and> free s = {}"
    and release_some: "inv s \<Longrightarrow> p \<in> pool s - free s \<Longrightarrow> \<exists>s'. release p s = Some s' \<and>
      inv s' \<and> free s' = insert p (free s) \<and> pool s' = pool s \<and>
      own s' = insert p (own s) \<and> same_frames (- insert p (own s)) (mem s) (mem s')"
    and store: "inv s \<Longrightarrow> same_frames (own s) (mem s) m \<Longrightarrow> inv (set_mem m s) \<and>
      free (set_mem m s) = free s \<and> pool (set_mem m s) = pool s \<and>
      own (set_mem m s) = own s \<and> mem (set_mem m s) = m"
begin

text \<open>Releasing a list of frames, as dropping a vector of owned frames does.\<close>

primrec release_all :: "phys_page_num list \<Rightarrow> 's \<Rightarrow> 's option" where
  "release_all [] s = Some s"
| "release_all (p # ps) s = (case release p s of None \<Rightarrow> None | Some s' \<Rightarrow> release_all ps s')"

lemma release_all_some:
  "inv s \<Longrightarrow> distinct ps \<Longrightarrow> set ps \<subseteq> pool s - free s \<Longrightarrow> \<exists>s'. release_all ps s = Some s' \<and>
    inv s' \<and> free s' = free s \<union> set ps \<and> pool s' = pool s \<and> own s' = own s \<union> set ps \<and>
    same_frames (- (own s \<union> set ps)) (mem s) (mem s')"
proof (induction ps arbitrary: s)
  case Nil
  then show ?case by simp
next
  case (Cons p ps)
  then obtain s1 where s1: "release p s = Some s1" "inv s1" "free s1 = insert p (free s)"
      "pool s1 = pool s" "own s1 = insert p (own s)"
      "same_frames (- insert p (own s)) (mem s) (mem s1)"
    using release_some [of s p] by auto
  have "set ps \<subseteq> pool s1 - free s1" "distinct ps" using Cons.prems s1(3,4) by auto
  then obtain s2 where s2: "release_all ps s1 = Some s2" "inv s2" "free s2 = free s1 \<union> set ps"
      "pool s2 = pool s1" "own s2 = own s1 \<union> set ps"
      "same_frames (- (own s1 \<union> set ps)) (mem s1) (mem s2)"
    using Cons.IH [OF s1(2)] by blast
  have "same_frames (- (own s \<union> set (p # ps))) (mem s) (mem s1)"
    by (rule same_frames_mono [OF s1(6)]) auto
  moreover have "- (own s1 \<union> set ps) = - (own s \<union> set (p # ps))"
    by (simp add: s1(5))
  ultimately have "same_frames (- (own s \<union> set (p # ps))) (mem s) (mem s2)"
    using s2(6) by (metis same_frames_trans)
  then show ?case using s1 s2 by auto
qed

text \<open>A frame just handed out is no frame anyone else holds.\<close>

lemma alloc_fresh:
  "inv s \<Longrightarrow> alloc s = (Some p, s') \<Longrightarrow> held \<subseteq> pool s - free s \<Longrightarrow>
    p \<notin> held \<and> insert p held \<subseteq> pool s' - free s'"
  using alloc_some free_pool by blast

text \<open>Handing a frame back restores the free set.\<close>

lemma alloc_release:
  assumes "inv s" "alloc s = (Some p, s1)"
  shows "\<exists>s2. release p s1 = Some s2 \<and> inv s2 \<and> free s2 = free s \<and> own s2 = own s"
proof -
  have a: "inv s1" "p \<in> free s" "free s1 = free s - {p}" "pool s1 = pool s"
      "own s1 = own s - {p}"
    using alloc_some [OF assms] by blast+
  then have "p \<in> pool s1 - free s1" using free_pool [OF assms(1)] by auto
  moreover have "p \<in> own s" using a(2) own_pool [OF assms(1)] by auto
  ultimately show ?thesis using release_some [OF a(1)] a by (metis insert_Diff)
qed

end

section \<open>The buddy allocator as a source of frames\<close>

definition set_ram :: "phys_mem \<Rightarrow> mm_state \<Rightarrow> mm_state" where
  "set_ram m s = s\<lparr>ram := m\<rparr>"

text \<open>Dropping a vector of single frames.\<close>

primrec frames_drop :: "frame list \<Rightarrow> mm_state \<Rightarrow> mm_state option" where
  "frames_drop [] s = Some s"
| "frames_drop (f # fs) s = (case frame_drop f s of None \<Rightarrow> None | Some s' \<Rightarrow> frames_drop fs s')"

lemma free_frames_single:
  assumes "buddy_inv s" "p \<in> managed s - free_ppns s"
  shows "\<exists>s'. free_frames p 0 s = Some s' \<and> buddy_inv s' \<and> free_ppns s' = insert p (free_ppns s) \<and>
    managed s' = managed s \<and> allocator_frames s' = insert p (allocator_frames s) \<and>
    same_frames (- insert p (allocator_frames s)) (ram s) (ram s')"
proof -
  define i where "i = p - b_base (fa s)"
  have i: "p = b_base (fa s) + i" "i < b_frames (fa s)"
    using assms(2) by (auto simp: managed_def i_def)
  then have nf: "i \<notin> free_idx s" using assms(2) by (auto simp: free_ppns_def)
  have b: "blk 0 i = {i}" by (auto simp: blk_def)
  have "valid_block (b_frames (fa s)) 0 i" "blk 0 i \<inter> free_idx s = {}"
    using i(2) nf by (simp_all add: valid_block_def b)
  note freed = buddy_free_some [OF assms(1) le0 this, folded i(1)]
  obtain s' where s': "buddy_free p 0 s = Some s'"
    "buddy_inv s'" "free_idx s' = free_idx s \<union> blk 0 i" "b_base (fa s') = b_base (fa s)"
    "b_frames (fa s') = b_frames (fa s)" "meta_frames (fa s') = meta_frames (fa s)"
    "same_frames (- (allocator_frames s \<union> {p..<p + 2 ^ 0})) (ram s) (ram s')"
    by (rule freed)
  have free': "free_ppns s' = insert p (free_ppns s)"
    by (simp add: free_ppns_def s' b i(1))
  moreover have "{p..<p + 2 ^ 0} = {p}" by auto
  ultimately show ?thesis
    using s' by (auto simp: free_frames_def managed_def allocator_frames_def)
qed

interpretation buddy: frame_source buddy_inv free_ppns managed allocator_frames ram set_ram
  alloc_frame "\<lambda>p. free_frames p 0"
proof (unfold_locales, goal_cases)
  case (1 s)
  then show ?case by (rule free_ppns_managed)
next
  case (2 s)
  then show ?case
    using free_ppns_managed [OF 2]
    by (auto simp: allocator_frames_def meta_frames_def managed_def)
next
  case (3 s p s')
  then have a: "alloc_frames 0 s = (Some p, s')" by (simp add: alloc_frame_order0)
  have one: "{p..<p + 2 ^ 0} = {p}" by auto
  note al = alloc_frames_some [OF 3(1) a, unfolded one]
  have "p \<notin> meta_frames (fa s)"
    using al free_ppns_managed [OF 3(1)] by (auto simp: managed_def meta_frames_def)
  with al show ?case by (auto simp: allocator_frames_def)
next
  case (4 s s')
  have a: "buddy_alloc 0 s = (None, s')"
    using 4(2) by (auto simp: alloc_frame_def split: prod.splits option.splits)
  then have "fst (buddy_alloc 0 s) = None" by simp
  then have "\<not> blk 0 i \<subseteq> free_idx s" if "i < b_frames (fa s)" for i
    unfolding buddy_alloc_none_iff [OF 4(1)] using that by (auto simp: valid_block_def)
  moreover have "blk 0 i = {i}" for i by (auto simp: blk_def)
  moreover have "free_idx s \<subseteq> {..<b_frames (fa s)}"
    using brepD(5) 4(1) by (elim buddy_invE) metis
  ultimately have "free_idx s = {}" by auto
  then show ?case using a buddy_alloc_none_state [of 0 s] by (simp add: free_ppns_def)
next
  case (5 s p)
  then show ?case by (rule free_frames_single)
next
  case (6 s m)
  then show ?case
    using free_idx_ram [of s m] by (simp add: set_ram_def managed_def)
qed

lemma frames_drop_release:
  "(\<And>f. f \<in> set fs \<Longrightarrow> fr_order f = 0) \<Longrightarrow> frames_drop fs s = buddy.release_all (map fr_ppn fs) s"
  by (induction fs arbitrary: s) (auto simp: frame_drop_def split: option.split)

end
