(* ===== verification/Heap_Live.thy ===== *)
theory Heap_Live
  imports Heap
begin

text \<open>
  The invariant of the kernel heap: what the free lists in memory mean, which blocks
  are live, and that live blocks never overlap.
\<close>

section \<open>Runs of frames\<close>

lemma alloc_frames_aligned:
  assumes "buddy_inv s" "alloc_frames order s = (Some p, s')"
  shows "2 ^ order dvd p"
proof -
  obtain s1 where a: "buddy_alloc order s = (Some p, s1)"
    using assms(2) by (auto simp: alloc_frames_def split: prod.splits option.splits)
  obtain i where i: "order \<le> MAX_ORDER" "p = b_base (fa s) + i" "valid_block (b_frames (fa s)) order i"
    using buddy_alloc_some [OF assms(1) a] by metis
  have "2 ^ MAX_ORDER dvd b_base (fa s)"
    using assms(1) by (elim buddy_invE) (auto simp: hrep_def layout_def)
  then have "2 ^ order dvd b_base (fa s)" using le_imp_power_dvd [OF i(1)] dvd_trans by blast
  then show ?thesis using i(2,3) by (simp add: valid_block_def)
qed

text \<open>An aligned run of managed frames is a block of the buddy allocator.\<close>

lemma run_block:
  assumes inv: "buddy_inv s" and o: "order \<le> MAX_ORDER" "2 ^ order dvd p"
    and run: "{p..<p + 2 ^ order} \<subseteq> managed s"
  obtains i where "p = b_base (fa s) + i" "valid_block (b_frames (fa s)) order i"
    "{p..<p + 2 ^ order} = (\<lambda>j. b_base (fa s) + j) ` blk order i"
proof -
  define i where "i = p - b_base (fa s)"
  have "1 \<le> (2::nat) ^ order" by simp
  then have "p \<in> {p..<p + 2 ^ order}" "p + (2 ^ order - 1) \<in> {p..<p + 2 ^ order}"
    unfolding atLeastLessThan_iff by linarith+
  then have "p \<in> managed s" "p + (2 ^ order - 1) \<in> managed s" using run by blast+
  then have p: "p = b_base (fa s) + i" "i + 2 ^ order \<le> b_frames (fa s)"
    by (auto simp: managed_def i_def)
  have "2 ^ MAX_ORDER dvd b_base (fa s)"
    using inv by (elim buddy_invE) (auto simp: hrep_def layout_def)
  then have "2 ^ order dvd b_base (fa s)" using le_imp_power_dvd [OF o(1)] dvd_trans by blast
  then have "valid_block (b_frames (fa s)) order i"
    using o(2) p by (simp add: valid_block_def dvd_add_right_iff)
  moreover have "{p..<p + 2 ^ order} = (\<lambda>j. b_base (fa s) + j) ` blk order i"
    unfolding blk_def p(1) by (simp add: ac_simps)
  ultimately show ?thesis using that p(1) by blast
qed

lemma free_frames_block:
  assumes inv: "buddy_inv s" and o: "order \<le> MAX_ORDER" "2 ^ order dvd p"
    and run: "{p..<p + 2 ^ order} \<subseteq> managed s - free_ppns s"
  shows "\<exists>s'. free_frames p order s = Some s' \<and> buddy_inv s' \<and>
    free_ppns s' = free_ppns s \<union> {p..<p + 2 ^ order} \<and> managed s' = managed s \<and>
    meta_frames (fa s') = meta_frames (fa s) \<and>
    same_frames (- (allocator_frames s \<union> {p..<p + 2 ^ order})) (ram s) (ram s')"
proof -
  have "{p..<p + 2 ^ order} \<subseteq> managed s" using run by blast
  then obtain i where i: "p = b_base (fa s) + i" "valid_block (b_frames (fa s)) order i"
    and img: "{p..<p + 2 ^ order} = (\<lambda>j. b_base (fa s) + j) ` blk order i"
    by (rule run_block [OF inv o])
  have "blk order i \<inter> free_idx s = {}" using run img unfolding free_ppns_def by blast
  note freed = buddy_free_some [OF inv o(1) i(2) this, folded i(1)]
  obtain s' where
    s': "buddy_free p order s = Some s'" "buddy_inv s'" "free_idx s' = free_idx s \<union> blk order i"
    "b_base (fa s') = b_base (fa s)" "b_frames (fa s') = b_frames (fa s)"
    "meta_frames (fa s') = meta_frames (fa s)"
    "same_frames (- (allocator_frames s \<union> {p..<p + 2 ^ order})) (ram s) (ram s')"
    by (rule freed)
  then show ?thesis
    by (simp add: free_frames_def managed_def free_ppns_def image_Un img)
qed

section \<open>Free lists in memory\<close>

text \<open>The list of a class as the physical addresses of its blocks.\<close>

primrec chain :: "phys_mem \<Rightarrow> virt_addr \<Rightarrow> phys_addr list \<Rightarrow> bool" where
  "chain m v [] \<longleftrightarrow> v = 0"
| "chain m v (a # as) \<longleftrightarrow> v = VIRT_OFFSET + a \<and> chain m (ptr_read m v) as"

lemma ptr_read_eq: "ptr_read m (VIRT_OFFSET + a) = unat (m (a div 8))"
  by (simp add: ptr_read_def read_u64_def)

lemma ptr_write_ram:
  "ram (ptr_write (VIRT_OFFSET + a) v s) = (ram s)(a div 8 := word_of_nat v)"
  by (simp add: ptr_write_def write_u64_def)

lemma ptr_write_fa [simp]: "fa (ptr_write a v s) = fa s"
  by (simp add: ptr_write_def)

lemma chain_cong:
  "(\<And>a. a \<in> set as \<Longrightarrow> m' (a div 8) = m (a div 8)) \<Longrightarrow> chain m' v as = chain m v as"
  by (induction as arbitrary: v) (auto simp: ptr_read_def read_u64_def)

lemma chain_null: "chain m v as \<Longrightarrow> v = 0 \<longleftrightarrow> as = []"
  by (cases as) auto

lemma chain_push:
  assumes "chain (ram s) v as" "v < usize_lim" "\<And>x. x \<in> set as \<Longrightarrow> x div 8 \<noteq> a div 8"
  shows "chain (ram (ptr_write (VIRT_OFFSET + a) v s)) (VIRT_OFFSET + a) (a # as)"
proof -
  have "chain ((ram s)(a div 8 := word_of_nat v)) v as"
    using assms(1,3) by (subst chain_cong) auto
  then show ?thesis
    using assms(2) by (simp add: ptr_read_eq ptr_write_ram unat_of_nat take_bit_nat_eq_self)
qed

text \<open>The refill loop puts the blocks of a frame in address order in front of the list.\<close>

lemma thread_blocks_chain:
  fixes p q :: nat
  assumes "0 < q" "n * q \<le> 512" "p < 2 ^ 26"
  shows "chain (ram s) head as \<Longrightarrow> head < usize_lim
     \<Longrightarrow> (\<And>x j. x \<in> set as \<Longrightarrow> j < n \<Longrightarrow> x div 8 \<noteq> p * 512 + j * q)
     \<Longrightarrow> \<exists>head' s'. thread_blocks n (VIRT_OFFSET + p * 4096) (8 * q) head s = (head', s') \<and>
       chain (ram s') head' (map (\<lambda>i. p * 4096 + i * (8 * q)) [0..<n] @ as) \<and>
       fa s' = fa s \<and> same_frames (- {p}) (ram s) (ram s')"
  using assms(2)
proof (induction n arbitrary: head s as)
  case 0
  then show ?case by simp
next
  case (Suc i)
  let ?a = "p * 4096 + i * (8 * q)" and ?b = "VIRT_OFFSET + p * 4096 + i * (8 * q)"
  let ?s = "ptr_write ?b head s"
  have b: "?b = VIRT_OFFSET + ?a" by simp
  have d: "?a div 8 = p * 512 + i * q"
  proof -
    have "?a = 8 * (p * 512 + i * q)" by simp
    then show ?thesis by (metis nonzero_mult_div_cancel_left zero_neq_numeral)
  qed
  have iq: "i * q < 512" using Suc.prems(4) assms(1) by simp
  have "?b < usize_lim" using iq assms(3) by simp
  moreover have "chain (ram ?s) ?b (?a # as)"
    unfolding b using Suc.prems(3) [of _ i] by (intro chain_push Suc.prems) (auto simp: d)
  moreover have "x div 8 \<noteq> p * 512 + j * q" if "x \<in> set (?a # as)" "j < i" for x j
    using that Suc.prems(3) [of x j] d assms(1) by auto
  moreover have "i * q \<le> 512" using iq by simp
  ultimately obtain head' s' where IH:
    "thread_blocks i (VIRT_OFFSET + p * 4096) (8 * q) ?b ?s = (head', s')"
    "chain (ram s') head' (map (\<lambda>i. p * 4096 + i * (8 * q)) [0..<i] @ ?a # as)"
    "fa s' = fa ?s" "same_frames (- {p}) (ram ?s) (ram s')"
    using Suc.IH [of ?s ?b "?a # as"] by blast
  have "same_frames (- {p}) (ram s) (ram ?s)"
    unfolding b ptr_write_ram d using dw_frame_slot [OF iq] by (auto simp: same_frames_def)
  then have "same_frames (- {p}) (ram s) (ram s')" using IH(4) by (rule same_frames_trans)
  then show ?case using IH by (simp add: Let_def add.assoc)
qed

section \<open>The invariant\<close>

text \<open>
  The ghost state: the frames carved up for each class, the free list of each class as
  physical addresses, and the runs of frames handed out whole, with their orders.
\<close>

record heap_ghost =
  hg_slab :: "usize \<Rightarrow> phys_page_num set"
  hg_free :: "usize \<Rightarrow> phys_addr list"
  hg_big :: "(phys_page_num \<times> usize) set"

definition slab_blocks :: "heap_ghost \<Rightarrow> usize \<Rightarrow> phys_addr set" where
  "slab_blocks g c = {a. a div 4096 \<in> hg_slab g c \<and> 2 ^ (c + 3) dvd a}"

text \<open>The live blocks, as physical address and length.\<close>

definition live_small :: "heap_ghost \<Rightarrow> (phys_addr \<times> usize) set" where
  "live_small g = {(a, n). \<exists>c<9. n = 2 ^ (c + 3) \<and> a \<in> slab_blocks g c - set (hg_free g c)}"

definition live_big :: "heap_ghost \<Rightarrow> (phys_addr \<times> usize) set" where
  "live_big g = (\<lambda>(p, k). (p * 4096, 4096 * 2 ^ k)) ` hg_big g"

definition live :: "heap_ghost \<Rightarrow> (phys_addr \<times> usize) set" where
  "live g = live_small g \<union> live_big g"

definition live_bytes :: "heap_ghost \<Rightarrow> phys_addr set" where
  "live_bytes g = (\<Union>(a, n)\<in>live g. {a..<a + n})"

definition big_frames :: "heap_ghost \<Rightarrow> phys_page_num set" where
  "big_frames g = (\<Union>(p, k)\<in>hg_big g. {p..<p + 2 ^ k})"

definition slab_frames :: "heap_ghost \<Rightarrow> phys_page_num set" where
  "slab_frames g = (\<Union>c<9. hg_slab g c)"

definition heap_frames :: "heap_ghost \<Rightarrow> phys_page_num set" where
  "heap_frames g = slab_frames g \<union> big_frames g"

text \<open>
  The frames of the heap are in use and none serves two purposes; the lists in memory
  are the ghost lists; the counters count bytes. The managed frames lie in the window
  of the direct map, so that a pointer determines its frame.
\<close>

definition frames_ok :: "heap_ghost \<Rightarrow> mm_state \<Rightarrow> bool" where
  "frames_ok g s \<longleftrightarrow> buddy_inv s \<and> managed s \<subseteq> {..<2 ^ 26} \<and> heap_frames g \<subseteq> managed s - free_ppns s \<and>
     (\<forall>c<9. \<forall>c'<9. c \<noteq> c' \<longrightarrow> hg_slab g c \<inter> hg_slab g c' = {}) \<and>
     slab_frames g \<inter> big_frames g = {} \<and>
     (\<forall>(p, k)\<in>hg_big g. k \<le> MAX_ORDER \<and> 2 ^ k dvd p) \<and>
     (\<forall>(p, k)\<in>hg_big g. \<forall>(p', k')\<in>hg_big g. (p, k) \<noteq> (p', k') \<longrightarrow>
        {p..<p + 2 ^ k} \<inter> {p'..<p' + 2 ^ k'} = {})"

definition lists_ok :: "heap_ghost \<Rightarrow> heap_inner \<Rightarrow> phys_mem \<Rightarrow> bool" where
  "lists_ok g h m \<longleftrightarrow> length (h_free h) = 9 \<and>
     (\<forall>c<9. chain m (h_free h ! c) (hg_free g c) \<and> distinct (hg_free g c) \<and>
        set (hg_free g c) \<subseteq> slab_blocks g c)"

definition counts_ok :: "heap_ghost \<Rightarrow> heap_inner \<Rightarrow> bool" where
  "counts_ok g h \<longleftrightarrow> h_allocated h = card (live_bytes g) \<and> h_reserved h = 4096 * card (heap_frames g)"

definition heap_ok :: "heap_ghost \<Rightarrow> heap_inner \<Rightarrow> mm_state \<Rightarrow> bool" where
  "heap_ok g h s \<longleftrightarrow> frames_ok g s \<and> lists_ok g h (ram s) \<and> counts_ok g h"

text \<open>Bytes of frames.\<close>

definition frame_bytes :: "phys_page_num set \<Rightarrow> phys_addr set" where
  "frame_bytes P = {a. a div 4096 \<in> P}"

lemma frame_bytes_card: "finite P \<Longrightarrow> finite (frame_bytes P) \<and> card (frame_bytes P) = 4096 * card P"
proof (induction P rule: finite_induct)
  case empty
  then show ?case by (simp add: frame_bytes_def)
next
  case (insert p P)
  have one: "{a. a div 4096 = p} = {p * 4096..<p * 4096 + 4096}"
    by (auto simp: div_nat_eqI dividend_less_times_div)
  have "frame_bytes (insert p P) = {a. a div 4096 = p} \<union> frame_bytes P"
    "{a. a div 4096 = p} \<inter> frame_bytes P = {}"
    using insert.hyps(2) by (auto simp: frame_bytes_def)
  then show ?case using insert by (simp add: one card_Un_disjoint)
qed

lemma frame_run: "{p * 4096..<p * 4096 + 4096 * 2 ^ k} = frame_bytes {p..<p + 2 ^ k :: nat}"
proof -
  have "(p * 4096 \<le> a \<and> a < p * 4096 + 4096 * 2 ^ k) = (p \<le> a div 4096 \<and> a div 4096 < p + 2 ^ k)" for a
    by (simp add: less_eq_div_iff_mult_less_eq div_less_iff_less_mult add_mult_distrib mult.commute)
  then show ?thesis
    by (intro set_eqI) (simp only: frame_bytes_def atLeastLessThan_iff mem_Collect_eq)
qed

lemma block_frame:
  fixes a :: nat
  assumes "2 ^ k dvd a" "k \<le> 12" "x \<in> {a..<a + 2 ^ k}"
  shows "x div 2 ^ k = a div 2 ^ k" "x div 4096 = a div 4096"
proof -
  obtain q where q: "a = q * 2 ^ k" using assms(1) by (metis dvd_div_mult_self)
  show 1: "x div 2 ^ k = a div 2 ^ k"
    using assms(3) unfolding q by (simp add: div_nat_eqI mult.commute)
  have "(4096::nat) = 2 ^ k * 2 ^ (12 - k)" using assms(2) by (simp flip: power_add)
  then have "y div 4096 = y div 2 ^ k div 2 ^ (12 - k)" for y :: nat
    using div_mult2_eq [of y "2 ^ k" "2 ^ (12 - k)"] by simp
  then show "x div 4096 = a div 4096" by (simp add: 1)
qed

lemma blocks_disjoint:
  fixes a :: nat
  assumes "2 ^ k dvd a" "2 ^ k dvd b" "k \<le> 12" "a \<noteq> b"
  shows "{a..<a + 2 ^ k} \<inter> {b..<b + 2 ^ k} = {}"
proof (rule ccontr)
  assume "\<not> ?thesis"
  then obtain x where x: "x \<in> {a..<a + 2 ^ k}" "x \<in> {b..<b + 2 ^ k}" by blast
  have "a div 2 ^ k = b div 2 ^ k"
    using block_frame(1) [OF assms(1,3) x(1)] block_frame(1) [OF assms(2,3) x(2)] by simp
  then show False using assms(4) dvd_div_mult_self [OF assms(1)] dvd_div_mult_self [OF assms(2)] by simp
qed

section \<open>Live blocks\<close>

lemma frames_okD:
  assumes "frames_ok g s"
  shows "buddy_inv s" "managed s \<subseteq> {..<2 ^ 26}" "heap_frames g \<subseteq> managed s - free_ppns s"
    "c < 9 \<Longrightarrow> c' < 9 \<Longrightarrow> c \<noteq> c' \<Longrightarrow> hg_slab g c \<inter> hg_slab g c' = {}"
    "slab_frames g \<inter> big_frames g = {}"
    "(p, k) \<in> hg_big g \<Longrightarrow> k \<le> MAX_ORDER \<and> 2 ^ k dvd p"
    "(p, k) \<in> hg_big g \<Longrightarrow> (p', k') \<in> hg_big g \<Longrightarrow> (p, k) \<noteq> (p', k') \<Longrightarrow>
       {p..<p + 2 ^ k} \<inter> {p'..<p' + 2 ^ k'} = {}"
  using assms unfolding frames_ok_def by blast+

lemma live_smallE:
  assumes "(a, n) \<in> live_small g"
  obtains c where "c < 9" "n = 2 ^ (c + 3)" "a div 4096 \<in> hg_slab g c" "2 ^ (c + 3) dvd a"
    "a \<notin> set (hg_free g c)"
  using assms by (auto simp: live_small_def slab_blocks_def)

lemma live_bigE:
  assumes "(a, n) \<in> live_big g"
  obtains p k where "(p, k) \<in> hg_big g" "a = p * 4096" "n = 4096 * 2 ^ k"
  using assms by (auto simp: live_big_def)

lemma small_extent:
  assumes "c < 9" "2 ^ (c + 3) dvd a" "a div 4096 \<in> hg_slab g c"
  shows "{a..<a + 2 ^ (c + 3)} \<subseteq> frame_bytes (hg_slab g c)"
proof
  fix x assume "x \<in> {a..<a + 2 ^ (c + 3)}"
  then have "x div 4096 = a div 4096" using assms(1) by (intro block_frame(2) [OF assms(2)]) simp_all
  then show "x \<in> frame_bytes (hg_slab g c)" using assms(3) by (simp only: frame_bytes_def mem_Collect_eq)
qed

lemma slab_sub: "c < 9 \<Longrightarrow> hg_slab g c \<subseteq> slab_frames g"
  by (auto simp: slab_frames_def)

lemma big_sub: "(p, k) \<in> hg_big g \<Longrightarrow> {p..<p + 2 ^ k} \<subseteq> big_frames g"
  unfolding big_frames_def by blast

lemma frame_bytes_mono: "P \<subseteq> Q \<Longrightarrow> frame_bytes P \<subseteq> frame_bytes Q"
  by (auto simp: frame_bytes_def)

lemma frame_bytes_disj: "P \<inter> Q = {} \<Longrightarrow> frame_bytes P \<inter> frame_bytes Q = {}"
  by (auto simp: frame_bytes_def)

lemma small_bytes: "(a, n) \<in> live_small g \<Longrightarrow> {a..<a + n} \<subseteq> frame_bytes (slab_frames g)"
  by (elim live_smallE) (simp only:, rule subset_trans [OF small_extent frame_bytes_mono [OF slab_sub]])

lemma big_bytes: "(a, n) \<in> live_big g \<Longrightarrow> {a..<a + n} \<subseteq> frame_bytes (big_frames g)"
  by (elim live_bigE) (simp only: frame_run, rule frame_bytes_mono [OF big_sub])

lemma live_bytes_sub: "live_bytes g \<subseteq> frame_bytes (heap_frames g)"
proof -
  have "{a..<a + n} \<subseteq> frame_bytes (heap_frames g)" if "(a, n) \<in> live g" for a n
    using that small_bytes [of a n g] big_bytes [of a n g]
    by (auto simp: live_def heap_frames_def frame_bytes_def)
  then show ?thesis unfolding live_bytes_def by blast
qed

text \<open>Distinct live blocks do not overlap.\<close>

lemma small_disjoint:
  assumes f: "frames_ok g s" and "(a, n) \<in> live_small g" "(b, m) \<in> live_small g" "(a, n) \<noteq> (b, m)"
  shows "{a..<a + n} \<inter> {b..<b + m} = {}"
proof -
  obtain c where c: "c < 9" "n = 2 ^ (c + 3)" "a div 4096 \<in> hg_slab g c" "2 ^ (c + 3) dvd a"
    using assms(2) by (rule live_smallE)
  obtain c' where c': "c' < 9" "m = 2 ^ (c' + 3)" "b div 4096 \<in> hg_slab g c'" "2 ^ (c' + 3) dvd b"
    using assms(3) by (rule live_smallE)
  show ?thesis
  proof (cases "c = c'")
    case True
    then show ?thesis using blocks_disjoint [of "c + 3" a b] c c' assms(4) by simp
  next
    case False
    have "frame_bytes (hg_slab g c) \<inter> frame_bytes (hg_slab g c') = {}"
      by (rule frame_bytes_disj, rule frames_okD(4) [OF f c(1) c'(1) False])
    then show ?thesis
      using small_extent [OF c(1,4,3)] small_extent [OF c'(1,4,3)] unfolding c(2) c'(2) by blast
  qed
qed

lemma big_disjoint:
  assumes f: "frames_ok g s" and "(a, n) \<in> live_big g" "(b, m) \<in> live_big g" "(a, n) \<noteq> (b, m)"
  shows "{a..<a + n} \<inter> {b..<b + m} = {}"
proof -
  obtain p k where p: "(p, k) \<in> hg_big g" "a = p * 4096" "n = 4096 * 2 ^ k"
    using assms(2) by (rule live_bigE)
  obtain p' k' where p': "(p', k') \<in> hg_big g" "b = p' * 4096" "m = 4096 * 2 ^ k'"
    using assms(3) by (rule live_bigE)
  have "(p, k) \<noteq> (p', k')" using assms(4) p p' by auto
  then show ?thesis unfolding p p' frame_run
    by (intro frame_bytes_disj frames_okD(7) [OF f p(1) p'(1)])
qed

lemma live_disjoint:
  assumes f: "frames_ok g s" and "(a, n) \<in> live g" "(b, m) \<in> live g" "(a, n) \<noteq> (b, m)"
  shows "{a..<a + n} \<inter> {b..<b + m} = {}"
proof -
  have "frame_bytes (slab_frames g) \<inter> frame_bytes (big_frames g) = {}"
    by (rule frame_bytes_disj, rule frames_okD(5) [OF f])
  then show ?thesis
    using assms(2-4) small_disjoint [OF f, of a n b m] big_disjoint [OF f, of a n b m]
      small_bytes [of a n g] big_bytes [of a n g] small_bytes [of b m g] big_bytes [of b m g]
    unfolding live_def by blast
qed

lemma heap_frames_finite:
  assumes "frames_ok g s"
  shows "finite (heap_frames g)" "card (heap_frames g) \<le> 2 ^ 26"
    "finite (live_bytes g)" "card (live_bytes g) \<le> 4096 * card (heap_frames g)"
proof -
  have sub: "heap_frames g \<subseteq> {..<2 ^ 26}" using frames_okD(2,3) [OF assms] by blast
  show fin: "finite (heap_frames g)" using sub finite_subset by blast
  show "card (heap_frames g) \<le> 2 ^ 26" using card_mono [OF _ sub] by simp
  note fb = frame_bytes_card [OF fin]
  show "finite (live_bytes g)" using finite_subset [OF live_bytes_sub] fb by blast
  show "card (live_bytes g) \<le> 4096 * card (heap_frames g)"
    using card_mono [OF _ live_bytes_sub] fb by metis
qed

text \<open>Adding a fresh block to the live ones adds its length.\<close>

lemma live_bytes_insert:
  assumes "frames_ok g' s" "live g' = insert (a, n) (live g)" "(a, n) \<notin> live g"
  shows "card (live_bytes g') = card (live_bytes g) + n" "n \<le> card (live_bytes g')"
    "\<And>b m. (b, m) \<in> live g \<Longrightarrow> {a..<a + n} \<inter> {b..<b + m} = {}"
    "{a..<a + n} \<inter> live_bytes g = {}"
proof -
  have bytes: "live_bytes g' = {a..<a + n} \<union> live_bytes g"
    unfolding live_bytes_def assms(2) by simp
  show dis: "{a..<a + n} \<inter> {b..<b + m} = {}" if "(b, m) \<in> live g" for b m
    using live_disjoint [OF assms(1), of a n b m] that assms(2,3) by auto
  show apart: "{a..<a + n} \<inter> live_bytes g = {}"
    using dis unfolding live_bytes_def by blast
  have "finite (live_bytes g)"
    using heap_frames_finite(3) [OF assms(1)] unfolding bytes by blast
  then show "card (live_bytes g') = card (live_bytes g) + n"
    unfolding bytes using apart by (simp add: card_Un_disjoint)
  then show "n \<le> card (live_bytes g')" by simp
qed

end
