(* ===== verification/Heap_Correct.thy ===== *)
theory Heap_Correct
  imports Heap_Live
begin

text \<open>
  Correctness of the kernel heap: the steps that move a block or a frame between the
  free lists and the live blocks, and the properties of allocation and release.
\<close>

section \<open>Taking a block off a list\<close>

lemma lists_okD:
  assumes "lists_ok g h m" "c < 9"
  shows "chain m (h_free h ! c) (hg_free g c)" "distinct (hg_free g c)"
    "set (hg_free g c) \<subseteq> slab_blocks g c" "length (h_free h) = 9"
  using assms by (simp_all add: lists_ok_def)

definition set_list :: "usize \<Rightarrow> phys_addr list \<Rightarrow> heap_ghost \<Rightarrow> heap_ghost" where
  "set_list c xs g = g\<lparr>hg_free := (hg_free g)(c := xs)\<rparr>"

lemma set_list_simps [simp]:
  "hg_slab (set_list c xs g) = hg_slab g" "hg_big (set_list c xs g) = hg_big g"
  "hg_free (set_list c xs g) = (hg_free g)(c := xs)"
  "slab_blocks (set_list c xs g) = slab_blocks g" "slab_frames (set_list c xs g) = slab_frames g"
  "big_frames (set_list c xs g) = big_frames g" "heap_frames (set_list c xs g) = heap_frames g"
  "live_big (set_list c xs g) = live_big g"
  by (simp_all add: set_list_def slab_blocks_def slab_frames_def big_frames_def heap_frames_def
      live_big_def fun_eq_iff)

lemma frames_ok_set_list [simp]: "frames_ok (set_list c xs g) s = frames_ok g s"
  by (simp add: frames_ok_def)

lemma small_iff:
  "c < 9 \<Longrightarrow> (a, 2 ^ (c + 3)) \<in> live_small g \<longleftrightarrow> a \<in> slab_blocks g c - set (hg_free g c)"
  by (auto simp: live_small_def)

lemma class_not_run:
  assumes "c < 9"
  shows "(2::nat) ^ (c + 3) \<noteq> 4096 * 2 ^ k"
proof
  assume "(2::nat) ^ (c + 3) = 4096 * 2 ^ k"
  also have "\<dots> = 2 ^ (12 + k)" by (simp add: power_add)
  finally have "c + 3 = 12 + k" by (metis one_less_numeral_iff power_inject_exp semiring_norm(76))
  then show False using assms by simp
qed

lemma small_not_big: "c < 9 \<Longrightarrow> (a, 2 ^ (c + 3)) \<notin> live_big g"
  using class_not_run by (metis live_bigE)

text \<open>Moving one block between the free list of its class and the live blocks.\<close>

lemma live_set_list:
  assumes c: "c < 9" and a: "a \<in> slab_blocks g c" "a \<in> set xs" "set ys = set xs - {a}"
    and g: "hg_free g c = xs"
  shows "live (set_list c ys g) = insert (a, 2 ^ (c + 3)) (live g)" "(a, 2 ^ (c + 3)) \<notin> live g"
proof -
  have "(b, m) \<in> live_small (set_list c ys g) \<longleftrightarrow> (b, m) = (a, 2 ^ (c + 3)) \<or> (b, m) \<in> live_small g" for b m
  proof (cases "m = 2 ^ (c + 3)")
    case True
    then show ?thesis using a by (auto simp: small_iff c g)
  next
    case False
    then show ?thesis by (auto simp: live_small_def)
  qed
  then show "live (set_list c ys g) = insert (a, 2 ^ (c + 3)) (live g)"
    unfolding live_def by auto
  show "(a, 2 ^ (c + 3)) \<notin> live g"
    using a small_not_big [OF c] by (simp add: live_def small_iff c g)
qed

lemma heap_take:
  assumes ok: "heap_ok g h s" and c: "c < 9" and l: "hg_free g c = a # as"
  shows "h_free h ! c = VIRT_OFFSET + a" "a \<in> slab_blocks g c"
    "live (set_list c as g) = insert (a, 2 ^ (c + 3)) (live g)" "(a, 2 ^ (c + 3)) \<notin> live g"
    "h_allocated h + 2 ^ (c + 3) < usize_lim"
    "heap_ok (set_list c as g) (h\<lparr>h_free := (h_free h)[c := ptr_read (ram s) (h_free h ! c)],
       h_allocated := h_allocated h + 2 ^ (c + 3)\<rparr>) s"
proof -
  have f: "frames_ok g s" and L: "lists_ok g h (ram s)" and n: "counts_ok g h"
    using ok by (simp_all add: heap_ok_def)
  have ch: "chain (ram s) (h_free h ! c) (a # as)" "distinct (a # as)" "set (a # as) \<subseteq> slab_blocks g c"
    using lists_okD [OF L c] unfolding l by blast+
  show "h_free h ! c = VIRT_OFFSET + a" "a \<in> slab_blocks g c" using ch by simp_all
  have "set as = set (a # as) - {a}" using ch(2) by auto
  note lv = live_set_list [OF c \<open>a \<in> slab_blocks g c\<close> _ this l, simplified]
  show "live (set_list c as g) = insert (a, 2 ^ (c + 3)) (live g)" "(a, 2 ^ (c + 3)) \<notin> live g"
    using lv by simp_all
  have f': "frames_ok (set_list c as g) s" using f by simp
  note card = live_bytes_insert [OF f' lv]
  have "card (live_bytes (set_list c as g)) < usize_lim"
    using heap_frames_finite(2,4) [OF f'] by simp
  then show "h_allocated h + 2 ^ (c + 3) < usize_lim"
    using card(1) n by (simp add: counts_ok_def)
  have "lists_ok (set_list c as g) (h\<lparr>h_free := (h_free h)[c := ptr_read (ram s) (h_free h ! c)],
       h_allocated := h_allocated h + 2 ^ (c + 3)\<rparr>) (ram s)"
    using L ch by (auto simp: lists_ok_def nth_list_update)
  then show "heap_ok (set_list c as g) (h\<lparr>h_free := (h_free h)[c := ptr_read (ram s) (h_free h ! c)],
       h_allocated := h_allocated h + 2 ^ (c + 3)\<rparr>) s"
    using f' n card(1) by (simp add: heap_ok_def counts_ok_def)
qed

section \<open>Putting a block back\<close>

lemma slab_block_less: "frames_ok g s \<Longrightarrow> c < 9 \<Longrightarrow> a \<in> slab_blocks g c \<Longrightarrow> a < 2 ^ 38"
proof -
  assume f: "frames_ok g s" and c: "c < 9" and a: "a \<in> slab_blocks g c"
  have "a div 4096 \<in> heap_frames g" using a c by (auto simp: slab_blocks_def heap_frames_def slab_frames_def)
  then have "a div 4096 < 2 ^ 26" using frames_okD(2,3) [OF f] by blast
  then show "a < 2 ^ 38" by (simp add: div_less_iff_less_mult)
qed

lemma chain_head_less:
  "chain m v as \<Longrightarrow> (\<And>a. a \<in> set as \<Longrightarrow> a < 2 ^ 38) \<Longrightarrow> v < usize_lim"
  by (cases as) auto

lemma slab_block_inj:
  assumes f: "frames_ok g s" and "c < 9" "c' < 9" "a \<in> slab_blocks g c" "x \<in> slab_blocks g c'"
    and "x div 8 = a div 8"
  shows "x = a \<and> c' = c"
proof -
  have eight: "8 dvd y" if "y \<in> slab_blocks g k" for y k
    using that by (auto simp: slab_blocks_def power_add intro: dvd_mult_right)
  have "x = a" using eight [OF assms(4)] eight [OF assms(5)] assms(6) by (metis dvd_div_mult_self)
  then have "a div 4096 \<in> hg_slab g c \<inter> hg_slab g c'" using assms(4,5) by (simp add: slab_blocks_def)
  then show ?thesis using \<open>x = a\<close> frames_okD(4) [OF f assms(2,3)] by blast
qed

text \<open>Stores into the heap's own frames keep the frame allocator and the frame layout.\<close>

lemma heap_store:
  assumes f: "frames_ok g s" and m: "same_frames (- heap_frames g) (ram s) m"
  shows "frames_ok g (set_ram m s)"
proof -
  have "allocator_frames s \<inter> heap_frames g = {}"
    using buddy.own_pool [OF frames_okD(1) [OF f]] frames_okD(3) [OF f] by blast
  then have "same_frames (allocator_frames s) (ram s) m"
    by (intro same_frames_mono [OF m]) blast
  then show ?thesis
    using f buddy.store [OF frames_okD(1) [OF f]] by (simp add: frames_ok_def)
qed

lemma ptr_write_set_ram: "ptr_write a v s = set_ram (ram (ptr_write a v s)) s"
  by (simp add: ptr_write_def set_ram_def)

lemma heap_put:
  assumes ok: "heap_ok g h s" and c: "c < 9" and a: "(a, 2 ^ (c + 3)) \<in> live g"
  defines "g' \<equiv> set_list c (a # hg_free g c) g" and "s' \<equiv> ptr_write (VIRT_OFFSET + a) (h_free h ! c) s"
  shows "live g = insert (a, 2 ^ (c + 3)) (live g')" "(a, 2 ^ (c + 3)) \<notin> live g'"
    "2 ^ (c + 3) \<le> h_allocated h"
    "heap_ok g' (h\<lparr>h_free := (h_free h)[c := VIRT_OFFSET + a],
       h_allocated := h_allocated h - 2 ^ (c + 3)\<rparr>) s'"
    "\<And>d. d \<noteq> a div 8 \<Longrightarrow> ram s' d = ram s d" "same_frames (- heap_frames g) (ram s) (ram s')"
proof -
  have f: "frames_ok g s" and L: "lists_ok g h (ram s)" and n: "counts_ok g h"
    using ok by (simp_all add: heap_ok_def)
  have ab: "a \<in> slab_blocks g c" "a \<notin> set (hg_free g c)"
    using a small_not_big [OF c] small_iff [OF c] by (auto simp: live_def)
  have undo: "set_list c (hg_free g c) g' = g" by (simp add: g'_def set_list_def)
  have "a \<in> slab_blocks g' c" "set (hg_free g c) = set (a # hg_free g c) - {a}" "hg_free g' c = a # hg_free g c"
    using ab by (auto simp: g'_def)
  note lv = live_set_list [OF c this(1) _ this(2,3), simplified, unfolded undo]
  show "live g = insert (a, 2 ^ (c + 3)) (live g')" "(a, 2 ^ (c + 3)) \<notin> live g'" using lv by simp_all
  note card = live_bytes_insert [OF f lv]
  show "2 ^ (c + 3) \<le> h_allocated h" using card(2) n by (simp add: counts_ok_def)
  have ram': "ram s' = (ram s)(a div 8 := word_of_nat (h_free h ! c))"
    by (simp add: s'_def ptr_write_ram)
  show "\<And>d. d \<noteq> a div 8 \<Longrightarrow> ram s' d = ram s d" by (simp add: ram')
  have "a div 4096 \<in> heap_frames g"
    using ab(1) c by (auto simp: slab_blocks_def heap_frames_def slab_frames_def)
  then show fr: "same_frames (- heap_frames g) (ram s) (ram s')"
    using dw_frame_div8 [of a] by (auto simp: same_frames_def ram')
  have "frames_ok g s'"
    using heap_store [OF f fr] ptr_write_set_ram [of _ _ s] by (simp add: s'_def)
  moreover have "chain (ram s') (VIRT_OFFSET + a) (a # hg_free g c)" unfolding s'_def
    using lists_okD [OF L c] slab_block_less [OF f c] slab_block_inj [OF f c c ab(1)] ab(2)
    by (intro chain_push chain_head_less [where as = "hg_free g c"]) blast+
  moreover have "chain (ram s') (h_free h ! c') (hg_free g c')" if "c' < 9" "c' \<noteq> c" for c'
  proof -
    have "x div 8 \<noteq> a div 8" if "x \<in> set (hg_free g c')" for x
      using slab_block_inj [OF f c \<open>c' < 9\<close> ab(1)] lists_okD(3) [OF L \<open>c' < 9\<close>] that \<open>c' \<noteq> c\<close> by blast
    then show ?thesis using lists_okD(1) [OF L \<open>c' < 9\<close>] by (subst chain_cong) (auto simp: ram')
  qed
  ultimately show "heap_ok g' (h\<lparr>h_free := (h_free h)[c := VIRT_OFFSET + a],
       h_allocated := h_allocated h - 2 ^ (c + 3)\<rparr>) s'"
    using L n card(1) ab c
    by (auto simp: heap_ok_def lists_ok_def counts_ok_def g'_def nth_list_update)
qed

section \<open>Refilling a class\<close>

definition slab_list :: "usize \<Rightarrow> phys_page_num \<Rightarrow> phys_addr list" where
  "slab_list c p = map (\<lambda>i. p * 4096 + i * 2 ^ (c + 3)) [0..<4096 div 2 ^ (c + 3)]"

definition add_slab :: "usize \<Rightarrow> phys_page_num \<Rightarrow> heap_ghost \<Rightarrow> heap_ghost" where
  "add_slab c p g = g\<lparr>hg_slab := (hg_slab g)(c := insert p (hg_slab g c)),
     hg_free := (hg_free g)(c := slab_list c p @ hg_free g c)\<rparr>"

lemma slab_list_set:
  assumes "c < 9"
  shows "a \<in> set (slab_list c p) \<longleftrightarrow> a div 4096 = p \<and> 2 ^ (c + 3) dvd a"
proof -
  define q :: nat where "q = 2 ^ (9 - c)"
  have sz: "4096 = 2 ^ (c + 3) * q" using assms by (simp add: q_def flip: power_add)
  then have cnt: "4096 div 2 ^ (c + 3) = q" by (metis nonzero_mult_div_cancel_left power_not_zero zero_neq_numeral)
  have eq: "p * 4096 + i * 2 ^ (c + 3) = (p * q + i) * 2 ^ (c + 3)" for i
    by (subst sz) (simp add: algebra_simps)
  have dv: "(j * 2 ^ (c + 3)) div 4096 = j div q" for j by (simp add: sz)
  have "0 < q" by (simp add: q_def)
  have "a \<in> set (slab_list c p) \<longleftrightarrow> (\<exists>i<q. a = (p * q + i) * 2 ^ (c + 3))"
    unfolding slab_list_def cnt eq by auto
  also have "\<dots> \<longleftrightarrow> (\<exists>j. a = j * 2 ^ (c + 3) \<and> j div q = p)"
  proof safe
    fix i assume "i < q"
    then show "\<exists>j. (p * q + i) * 2 ^ (c + 3) = j * 2 ^ (c + 3) \<and> j div q = p"
      by (intro exI [of _ "p * q + i"]) simp
  next
    fix j
    show "\<exists>i<q. j * 2 ^ (c + 3) = (j div q * q + i) * 2 ^ (c + 3)"
      using \<open>0 < q\<close> by (intro exI [of _ "j mod q"]) simp
  qed
  also have "\<dots> \<longleftrightarrow> a div 4096 = p \<and> 2 ^ (c + 3) dvd a"
    using dv by (metis dvd_div_mult_self dvd_triv_right)
  finally show ?thesis .
qed

lemma slab_list_distinct: "distinct (slab_list c p)"
  by (auto simp: slab_list_def distinct_map inj_on_def)

lemma add_slab_simps [simp]:
  "hg_big (add_slab c p g) = hg_big g" "big_frames (add_slab c p g) = big_frames g"
  "hg_slab (add_slab c p g) = (hg_slab g)(c := insert p (hg_slab g c))"
  "hg_free (add_slab c p g) = (hg_free g)(c := slab_list c p @ hg_free g c)"
  "live_big (add_slab c p g) = live_big g"
  by (simp_all add: add_slab_def big_frames_def live_big_def)

lemma add_slab_frames:
  assumes "c < 9"
  shows "slab_frames (add_slab c p g) = insert p (slab_frames g)"
    and "heap_frames (add_slab c p g) = insert p (heap_frames g)"
  using assms by (auto simp: slab_frames_def heap_frames_def split: if_splits)

lemma add_slab_blocks:
  assumes "c < 9"
  shows "slab_blocks (add_slab c p g) c = slab_blocks g c \<union> set (slab_list c p)"
    and "c' \<noteq> c \<Longrightarrow> slab_blocks (add_slab c p g) c' = slab_blocks g c'"
  using slab_list_set [OF assms] by (auto simp: slab_blocks_def)

lemma live_add_slab:
  assumes c: "c < 9" and p: "p \<notin> hg_slab g c"
  shows "live (add_slab c p g) = live g"
proof -
  have "set (slab_list c p) \<inter> slab_blocks g c = {}"
    using p slab_list_set [OF c] by (auto simp: slab_blocks_def)
  then have "slab_blocks (add_slab c p g) c' - set (hg_free (add_slab c p g) c') =
      slab_blocks g c' - set (hg_free g c')" for c'
    using add_slab_blocks [OF c] by (cases "c' = c") auto
  then show ?thesis unfolding live_def live_small_def by simp
qed

text \<open>The buddy allocator has taken \<open>R\<close> out of the free frames for the heap.\<close>

lemma heap_step_buddy:
  assumes f: "frames_ok g s" and b: "buddy_inv s'" "managed s' = managed s" "free_ppns s' = free_ppns s - R"
    and R: "R \<subseteq> free_ppns s" "heap_frames g' = heap_frames g \<union> R"
  shows "heap_frames g \<inter> R = {}" "heap_frames g' \<subseteq> managed s' - free_ppns s'" "managed s' \<subseteq> {..<2 ^ 26}"
  using frames_okD(2,3) [OF f] R b(2,3) free_ppns_managed [OF frames_okD(1) [OF f]] by auto

lemma frames_ok_add_slab:
  assumes f: "frames_ok g s" and c: "c < 9" and b: "buddy_inv s'" "managed s' = managed s"
    "free_ppns s' = free_ppns s - {p}" "p \<in> free_ppns s"
  shows "frames_ok (add_slab c p g) s'" "p \<notin> heap_frames g"
proof -
  have "{p} \<subseteq> free_ppns s" "heap_frames (add_slab c p g) = heap_frames g \<union> {p}"
    using b(4) add_slab_frames(2) [OF c] by auto
  note st = heap_step_buddy [OF f b(1-3) this]
  show new: "p \<notin> heap_frames g" using st(1) by blast
  then have "p \<notin> hg_slab g c'" if "c' < 9" for c'
    using that by (auto simp: heap_frames_def slab_frames_def)
  then have slabs: "hg_slab (add_slab c p g) c1 \<inter> hg_slab (add_slab c p g) c2 = {}"
    if "c1 < 9" "c2 < 9" "c1 \<noteq> c2" for c1 c2
    using that frames_okD(4) [OF f, of c1 c2] by auto
  have "slab_frames (add_slab c p g) \<inter> big_frames (add_slab c p g) = {}"
    using new frames_okD(5) [OF f] add_slab_frames(1) [OF c] by (auto simp: heap_frames_def)
  then show "frames_ok (add_slab c p g) s'"
    using st b(1) slabs f unfolding frames_ok_def by simp
qed

lemma heap_frames_in_use:
  assumes "frames_ok g s"
  shows "heap_frames g \<subseteq> - allocator_frames s"
  using buddy.own_pool [OF frames_okD(1) [OF assms]] frames_okD(3) [OF assms] by blast

lemma chain_same_frames:
  assumes "same_frames P m m'" "set as \<subseteq> slab_blocks g c" "hg_slab g c \<subseteq> P" "chain m v as"
  shows "chain m' v as"
proof -
  have "m' (a div 8) = m (a div 8)" if "a \<in> set as" for a
  proof -
    have "a div 4096 \<in> P" using that assms(2,3) by (auto simp: slab_blocks_def)
    then show ?thesis using assms(1) dw_frame_div8 [of a] by (auto simp: same_frames_def)
  qed
  then show ?thesis using assms(4) by (subst chain_cong) auto
qed

lemma thread_slab:
  assumes c: "c < 9" and p: "p < 2 ^ 26" "p \<notin> P" and as: "set as \<subseteq> slab_blocks g c" "hg_slab g c \<subseteq> P"
    and ch: "chain (ram s) v as" "v < usize_lim"
  obtains v' s' where
    "thread_blocks (PAGE_SIZE div class_sizes ! c) (VIRT_OFFSET + p * 4096) (class_sizes ! c) v s = (v', s')"
    "chain (ram s') v' (slab_list c p @ as)" "fa s' = fa s" "same_frames (- {p}) (ram s) (ram s')"
proof -
  define q :: nat where "q = 2 ^ c"
  let ?n = "4096 div 2 ^ (c + 3) :: nat"
  have sz: "class_sizes ! c = 8 * q" using class_sizes_nth [OF c] by (simp add: q_def power_add)
  have eight: "8 * q = 2 ^ (c + 3)" by (simp add: q_def power_add)
  have n: "?n * q \<le> 512" "0 < q"
  proof -
    have "?n * (8 * q) \<le> 4096" unfolding eight by (rule div_times_less_eq_dividend)
    then show "?n * q \<le> 512" by (simp add: mult.commute)
  qed (simp add: q_def)
  have "x div 8 \<noteq> p * 512 + j * q" if "x \<in> set as" "j < ?n" for x j
  proof
    assume eq: "x div 8 = p * 512 + j * q"
    have "j * q < ?n * q" using that(2) n(2) by simp
    then have "j * q < 512" using n(1) by linarith
    then have "x div 4096 = p" using dw_frame_slot dw_frame_div8 [of x] unfolding eq by simp
    moreover have "x div 4096 \<in> P" using that(1) as by (auto simp: slab_blocks_def)
    ultimately show False using p(2) by simp
  qed
  from thread_blocks_chain [OF n(2,1) p(1) ch this] obtain v' s' where
    "thread_blocks ?n (VIRT_OFFSET + p * 4096) (8 * q) v s = (v', s')"
    "chain (ram s') v' (slab_list c p @ as)" "fa s' = fa s" "same_frames (- {p}) (ram s) (ram s')"
    unfolding slab_list_def eight by blast
  then show ?thesis using that unfolding sz eight by blast
qed

text \<open>The lists and the frames once the new frame is threaded onto its list.\<close>

lemma refill_lists:
  assumes f: "frames_ok g s" and L: "lists_ok g h (ram s)" and c: "c < 9" and p: "p \<in> free_ppns s"
    and s1: "buddy_inv s1" "managed s1 = managed s" "free_ppns s1 = free_ppns s - {p}"
      "same_frames (- allocator_frames s) (ram s) (ram s1)"
  obtains v' s' where
    "thread_blocks (PAGE_SIZE div class_sizes ! c) (VIRT_OFFSET + p * 4096) (class_sizes ! c)
       (h_free h ! c) s1 = (v', s')"
    "frames_ok (add_slab c p g) s'" "lists_ok (add_slab c p g) (h\<lparr>h_free := (h_free h)[c := v']\<rparr>) (ram s')"
    "same_frames (- allocator_frames s) (ram s) (ram s')"
proof -
  note fr = frames_ok_add_slab [OF f c s1(1-3) p]
  have p26: "p < 2 ^ 26"
    using p free_ppns_managed [OF frames_okD(1) [OF f]] frames_okD(2) [OF f] by blast
  have slabs: "hg_slab g c' \<subseteq> - allocator_frames s" "hg_slab g c' \<subseteq> - {p}" if "c' < 9" for c'
    using heap_frames_in_use [OF f] that fr(2) by (auto simp: heap_frames_def slab_frames_def)
  have ch1: "chain (ram s1) (h_free h ! c') (hg_free g c')" if "c' < 9" for c'
    using chain_same_frames [OF s1(4) _ slabs(1) [OF that]] lists_okD [OF L that] by blast
  obtain v' s' where th:
    "thread_blocks (PAGE_SIZE div class_sizes ! c) (VIRT_OFFSET + p * 4096) (class_sizes ! c)
       (h_free h ! c) s1 = (v', s')"
    "chain (ram s') v' (slab_list c p @ hg_free g c)" "fa s' = fa s1"
    "same_frames (- {p}) (ram s1) (ram s')"
    using thread_slab [OF c p26 _ lists_okD(3) [OF L c] slabs(2) [OF c] ch1 [OF c]]
      chain_head_less [OF ch1 [OF c]] slab_block_less [OF f c] lists_okD(3) [OF L c] by blast
  have "frames_ok (add_slab c p g) (set_ram (ram s') s1)"
    by (rule heap_store [OF fr(1)], rule same_frames_mono [OF th(4)])
      (use add_slab_frames(2) [OF c, of p g] in auto)
  moreover have "set_ram (ram s') s1 = s'" using th(3) by (simp add: set_ram_def)
  moreover have "chain (ram s') (h_free h ! c') (hg_free g c')" if "c' < 9" for c'
    using chain_same_frames [OF th(4) _ slabs(2) [OF that] ch1 [OF that]] lists_okD(3) [OF L that] by blast
  moreover have "set (slab_list c p) \<inter> set (hg_free g c) = {}"
    using slabs(2) [OF c] slab_list_set [OF c] lists_okD(3) [OF L c] by (auto simp: slab_blocks_def)
  ultimately have "frames_ok (add_slab c p g) s'"
    "lists_ok (add_slab c p g) (h\<lparr>h_free := (h_free h)[c := v']\<rparr>) (ram s')"
    using L th(2) slab_list_distinct [of c p] add_slab_blocks [OF c, where p = p and g = g]
    by (auto simp: lists_ok_def nth_list_update)
  moreover have "same_frames (- allocator_frames s) (ram s1) (ram s')"
    using p by (intro same_frames_mono [OF th(4)]) (auto simp: allocator_frames_def)
  ultimately show ?thesis using that th(1) same_frames_trans [OF s1(4)] by blast
qed

lemma ppn_as_ptr_window: "p < 2 ^ 26 \<Longrightarrow> ppn_as_ptr p = VIRT_OFFSET + p * 4096"
  by (simp add: ppn_as_ptr_def push_bit_eq_mult)

lemma free_ppns_window: "frames_ok g s \<Longrightarrow> p \<in> free_ppns s \<Longrightarrow> p < 2 ^ 26"
  using free_ppns_managed frames_okD(1,2) by blast

lemma heap_refill:
  assumes ok: "heap_ok g h s" and c: "c < 9"
  obtains (none) "refill c h s = Some (False, h, s)" "free_ppns s = {}"
  | (some) p h' s' where "refill c h s = Some (True, h', s')" "heap_ok (add_slab c p g) h' s'"
      "live (add_slab c p g) = live g" "same_frames (- allocator_frames s) (ram s) (ram s')"
proof (cases "alloc_frames 0 s")
  case (Pair r s1)
  have f: "frames_ok g s" and L: "lists_ok g h (ram s)" and n: "counts_ok g h"
    using ok by (simp_all add: heap_ok_def)
  note inv = frames_okD(1) [OF f]
  show ?thesis
  proof (cases r)
    case None
    then have "alloc_frame s = (None, s1)" using Pair by (simp add: alloc_frame_order0)
    then show ?thesis using none buddy.alloc_none [OF inv] Pair None by (simp add: refill_def)
  next
    case (Some p)
    have one: "{p..<p + 2 ^ 0} = {p}" by auto
    note al = alloc_frames_some [OF inv Pair [unfolded Some], unfolded one]
    have s1: "p \<in> free_ppns s" "buddy_inv s1" "managed s1 = managed s" "free_ppns s1 = free_ppns s - {p}"
      "same_frames (- allocator_frames s) (ram s) (ram s1)" using al by simp_all
    have p: "p \<notin> heap_frames g" using frames_okD(3) [OF f] s1(1) by blast
    from refill_lists [OF f L c s1] obtain v' s' where r:
      "thread_blocks (PAGE_SIZE div class_sizes ! c) (VIRT_OFFSET + p * 4096) (class_sizes ! c)
         (h_free h ! c) s1 = (v', s')"
      "frames_ok (add_slab c p g) s'" "lists_ok (add_slab c p g) (h\<lparr>h_free := (h_free h)[c := v']\<rparr>) (ram s')"
      "same_frames (- allocator_frames s) (ram s) (ram s')" by blast
    have lv: "live (add_slab c p g) = live g"
      using p c by (intro live_add_slab [OF c]) (auto simp: heap_frames_def slab_frames_def)
    have cnt: "4096 * card (heap_frames (add_slab c p g)) = h_reserved h + 4096"
      using p heap_frames_finite(1) [OF f] n by (simp add: add_slab_frames [OF c] counts_ok_def)
    let ?h = "h\<lparr>h_free := (h_free h)[c := v'], h_reserved := h_reserved h + 4096\<rparr>"
    have "h_reserved h + 4096 < usize_lim" using cnt heap_frames_finite(2) [OF r(2)] by simp
    then have "refill c h s = Some (True, ?h, s')"
      using Pair Some r(1) free_ppns_window [OF f s1(1)]
      by (simp add: refill_def checked_add_def ppn_as_ptr_window)
    moreover have "heap_ok (add_slab c p g) ?h s'"
      using r(2,3) cnt n lv by (simp add: heap_ok_def counts_ok_def live_bytes_def lists_ok_def)
    ultimately show ?thesis using some r(4) lv by blast
  qed
qed

section \<open>Large blocks\<close>

definition set_big :: "(phys_page_num \<times> usize) set \<Rightarrow> heap_ghost \<Rightarrow> heap_ghost" where
  "set_big B g = g\<lparr>hg_big := B\<rparr>"

lemma set_big_simps [simp]:
  "hg_slab (set_big B g) = hg_slab g" "hg_free (set_big B g) = hg_free g" "hg_big (set_big B g) = B"
  "slab_blocks (set_big B g) = slab_blocks g" "slab_frames (set_big B g) = slab_frames g"
  "live_small (set_big B g) = live_small g" "lists_ok (set_big B g) h m = lists_ok g h m"
  by (simp_all add: set_big_def slab_blocks_def slab_frames_def live_small_def lists_ok_def fun_eq_iff)

lemma big_frames_insert:
  "big_frames (set_big (insert (p, k) B) g) = {p..<p + 2 ^ k} \<union> big_frames (set_big B g)"
  by (simp add: big_frames_def)

lemma heap_frames_insert:
  "heap_frames (set_big (insert (p, k) B) g) = heap_frames (set_big B g) \<union> {p..<p + 2 ^ k}"
  by (auto simp: heap_frames_def big_frames_insert)

lemma big_iff: "(p * 4096, 4096 * 2 ^ k) \<in> live g \<longleftrightarrow> (p, k) \<in> hg_big g"
proof -
  have "(p * 4096, 4096 * 2 ^ k) \<notin> live_small g"
    using class_not_run by (metis live_smallE)
  then show ?thesis by (auto simp: live_def live_big_def)
qed

lemma live_big_insert:
  "live (set_big (insert (p, k) B) g) = insert (p * 4096, 4096 * 2 ^ k) (live (set_big B g))"
  by (simp add: live_def live_big_def)

text \<open>A run that is in use but not the heap's joins it.\<close>

lemma frames_ok_add_big:
  assumes f: "frames_ok g s" and p: "k \<le> MAX_ORDER" "2 ^ k dvd p"
    and run: "{p..<p + 2 ^ k} \<inter> heap_frames g = {}"
    and s': "buddy_inv s'" "managed s' = managed s"
      "heap_frames g \<union> {p..<p + 2 ^ k} \<subseteq> managed s' - free_ppns s'"
  shows "frames_ok (set_big (insert (p, k) (hg_big g)) g) s'"
proof -
  let ?g = "set_big (insert (p, k) (hg_big g)) g"
  have g: "set_big (hg_big g) g = g" by (simp add: set_big_def)
  have sub: "{q..<q + 2 ^ j} \<subseteq> heap_frames g" if "(q, j) \<in> hg_big g" for q j
    using big_sub [OF that] by (auto simp: heap_frames_def)
  have "\<forall>(q, j)\<in>insert (p, k) (hg_big g). \<forall>(q', j')\<in>insert (p, k) (hg_big g). (q, j) \<noteq> (q', j') \<longrightarrow>
      {q..<q + 2 ^ j} \<inter> {q'..<q' + 2 ^ j'} = {}"
  proof (clarify, goal_cases)
    case (1 q j q' j')
    then show ?case using run sub [of q j] sub [of q' j'] frames_okD(7) [OF f, of q j q' j'] by blast
  qed
  moreover have "slab_frames ?g \<inter> big_frames ?g = {}"
    using run frames_okD(5) [OF f] by (auto simp: big_frames_insert g heap_frames_def)
  moreover have "heap_frames ?g \<subseteq> managed s' - free_ppns s'"
    using s'(3) by (simp add: heap_frames_insert g)
  ultimately show ?thesis
    using f p s'(1,2) by (simp add: frames_ok_def)
qed

lemma frames_ok_del_big:
  assumes f: "frames_ok g s" and p: "(p, k) \<in> hg_big g"
  shows "frames_ok (set_big (hg_big g - {(p, k)}) g) s"
    "heap_frames g = heap_frames (set_big (hg_big g - {(p, k)}) g) \<union> {p..<p + 2 ^ k}"
    "heap_frames (set_big (hg_big g - {(p, k)}) g) \<inter> {p..<p + 2 ^ k} = {}"
proof -
  let ?g = "set_big (hg_big g - {(p, k)}) g"
  have g: "set_big (insert (p, k) (hg_big g - {(p, k)})) g = g"
    using p by (simp add: set_big_def insert_absorb)
  show split: "heap_frames g = heap_frames ?g \<union> {p..<p + 2 ^ k}"
    using heap_frames_insert [of p k "hg_big g - {(p, k)}" g] unfolding g .
  have "slab_frames g \<inter> {p..<p + 2 ^ k} = {}"
    using frames_okD(5) [OF f] big_sub [OF p] by blast
  moreover have "big_frames ?g \<inter> {p..<p + 2 ^ k} = {}"
    using frames_okD(7) [OF f _ p] by (fastforce simp: big_frames_def)
  ultimately show "heap_frames ?g \<inter> {p..<p + 2 ^ k} = {}" by (auto simp: heap_frames_def)
  have "big_frames ?g \<subseteq> big_frames g" by (auto simp: big_frames_def)
  then have "slab_frames ?g \<inter> big_frames ?g = {}" using frames_okD(5) [OF f] by auto
  moreover have "heap_frames ?g \<subseteq> managed s - free_ppns s" using frames_okD(3) [OF f] split by blast
  ultimately show "frames_ok ?g s"
    using f by (auto simp: frames_ok_def)
qed

section \<open>Allocation and release\<close>

text \<open>What Rust guarantees of a layout.\<close>

definition layout_ok :: "alloc_layout \<Rightarrow> bool" where
  "layout_ok l \<longleftrightarrow> l_size l \<le> 2 ^ 63 \<and> l_align l \<in> (\<lambda>j. 2 ^ j) ` {..62}"

text \<open>The order of the run a request may need from the buddy allocator, and the number
  of bytes it occupies.\<close>

definition alloc_order :: "alloc_layout \<Rightarrow> usize" where
  "alloc_order l = (case class_for l of Some c \<Rightarrow> 0 | None \<Rightarrow> order_for (div_ceil (l_size l) PAGE_SIZE))"

definition alloc_len :: "alloc_layout \<Rightarrow> usize" where
  "alloc_len l = (case class_for l of Some c \<Rightarrow> 2 ^ (c + 3) | None \<Rightarrow> 4096 * 2 ^ alloc_order l)"

definition run_free :: "mm_state \<Rightarrow> usize \<Rightarrow> bool" where
  "run_free s k \<longleftrightarrow> k \<le> MAX_ORDER \<and> (\<exists>p. 2 ^ k dvd p \<and> {p..<p + 2 ^ k} \<subseteq> free_ppns s)"

lemma alloc_len_fits:
  assumes "layout_ok l"
  shows "l_size l \<le> alloc_len l"
proof (cases "class_for l")
  case None
  let ?n = "div_ceil (l_size l) 4096"
  have "?n \<le> 2 ^ 63" using assms by (intro div_ceil_least) (simp_all add: layout_ok_def)
  then have "?n \<le> 2 ^ order_for ?n" using order_for_le_iff by blast
  then have "?n * 4096 \<le> 2 ^ order_for ?n * 4096" by simp
  then show ?thesis
    using div_ceil_bound [of 4096 "l_size l"] None by (simp add: alloc_len_def alloc_order_def)
qed (use class_for_Some in \<open>auto simp: alloc_len_def\<close>)

lemma pow2_dvd: "x \<in> (\<lambda>j. 2 ^ j) ` J \<Longrightarrow> x \<le> 2 ^ k \<Longrightarrow> (x::nat) dvd 2 ^ k"
  by (auto intro: le_imp_power_dvd)

lemma small_aligned:
  assumes "layout_ok l" "class_for l = Some c" "2 ^ (c + 3) dvd a"
  shows "l_align l dvd VIRT_OFFSET + a"
proof -
  have "c < 9" "l_align l \<le> 2 ^ (c + 3)" using class_for_Some [OF assms(2)] by simp_all
  then have al: "l_align l dvd 2 ^ (c + 3)" using assms(1) pow2_dvd by (auto simp: layout_ok_def)
  have "(2::nat) ^ (c + 3) dvd 2 ^ 12" using \<open>c < 9\<close> by (intro le_imp_power_dvd) simp
  then have "2 ^ (c + 3) dvd VIRT_OFFSET" by (rule dvd_trans) simp
  then have "2 ^ (c + 3) dvd VIRT_OFFSET + a" using assms(3) by (rule dvd_add)
  with al show ?thesis by (rule dvd_trans)
qed

lemma big_aligned:
  assumes "layout_ok l" "l_align l \<le> 4096"
  shows "l_align l dvd VIRT_OFFSET + p * 4096"
proof -
  have "l_align l dvd 2 ^ 12" using assms by (intro pow2_dvd) (auto simp: layout_ok_def)
  moreover have "(2::nat) ^ 12 dvd VIRT_OFFSET + p * 4096" by simp
  ultimately show ?thesis by (rule dvd_trans)
qed

lemma alloc_frames_none:
  assumes inv: "buddy_inv s" and n: "alloc_frames k s = (None, s')"
  shows "s' = s \<and> \<not> run_free s k"
proof -
  have a: "buddy_alloc k s = (None, s')"
    using n by (auto simp: alloc_frames_def split: prod.splits option.splits)
  then have none: "\<not> (k \<le> MAX_ORDER \<and> (\<exists>i. valid_block (b_frames (fa s)) k i \<and> blk k i \<subseteq> free_idx s))"
    using buddy_alloc_none_iff [OF inv, of k] by simp
  have "\<not> run_free s k"
  proof
    assume "run_free s k"
    then obtain p where p: "k \<le> MAX_ORDER" "2 ^ k dvd p" "{p..<p + 2 ^ k} \<subseteq> free_ppns s"
      by (auto simp: run_free_def)
    have "{p..<p + 2 ^ k} \<subseteq> managed s" using p(3) free_ppns_managed [OF inv] by blast
    then obtain i where i: "valid_block (b_frames (fa s)) k i"
      "{p..<p + 2 ^ k} = (\<lambda>j. b_base (fa s) + j) ` blk k i"
      by (rule run_block [OF inv p(1,2)])
    have "blk k i \<subseteq> free_idx s"
    proof
      fix j assume "j \<in> blk k i"
      then have "b_base (fa s) + j \<in> free_ppns s" using p(3) i(2) by blast
      then show "j \<in> free_idx s" by (auto simp: free_ppns_def)
    qed
    then show False using none p(1) i(1) by blast
  qed
  then show ?thesis using buddy_alloc_none_state [of k s] a by simp
qed

lemma same_live:
  assumes "same_frames P m m'" "heap_frames g \<subseteq> P" "d * 8 \<in> live_bytes g"
  shows "m' d = m d"
proof -
  have "d * 8 div 4096 \<in> heap_frames g" using assms(3) live_bytes_sub [of g] by (auto simp: frame_bytes_def)
  then have "dw_frame d \<in> P" using assms(2) dw_frame_div8 [of "d * 8"] by auto
  then show ?thesis using assms(1) by (simp add: same_frames_def)
qed

text \<open>The two ways an allocation ends, over the ghost states before and after.\<close>

definition alloc_result :: "alloc_layout \<Rightarrow> heap_ghost \<Rightarrow> mm_state \<Rightarrow> virt_addr \<Rightarrow> heap_ghost \<Rightarrow> bool" where
  "alloc_result l g s ptr g' \<longleftrightarrow>
     (if ptr = 0 then live g' = live g \<and> (PAGE_SIZE < l_align l \<or> \<not> run_free s (alloc_order l))
      else \<exists>a. ptr = VIRT_OFFSET + a \<and> l_size l \<le> alloc_len l \<and> l_align l dvd ptr \<and>
        live g' = insert (a, alloc_len l) (live g) \<and> (a, alloc_len l) \<notin> live g)"

lemma alloc_take:
  assumes l: "layout_ok l" and cl: "class_for l = Some c" and ok: "heap_ok g1 h1 s1"
    and lv: "live g1 = live g" and ne: "hg_free g1 c \<noteq> []"
  obtains g' where "heap_ok g' (h1\<lparr>h_free := (h_free h1)[c := ptr_read (ram s1) (h_free h1 ! c)],
      h_allocated := h_allocated h1 + 2 ^ (c + 3)\<rparr>) s1"
    "alloc_result l g s (h_free h1 ! c) g'" "h_allocated h1 + 2 ^ (c + 3) < usize_lim"
proof -
  have c: "c < 9" using class_for_Some [OF cl] by simp
  obtain a as where as: "hg_free g1 c = a # as" using ne by (cases "hg_free g1 c") auto
  note t = heap_take [OF ok c as]
  have "2 ^ (c + 3) dvd a" "alloc_len l = 2 ^ (c + 3)"
    using t(2) cl by (simp_all add: slab_blocks_def alloc_len_def)
  then have "alloc_result l g s (VIRT_OFFSET + a) (set_list c as g1)"
    using t(3,4) alloc_len_fits [OF l] small_aligned [OF l cl] by (simp add: alloc_result_def lv)
  then show ?thesis using that t(1,5,6) by simp
qed

lemma alloc_small:
  assumes ok: "heap_ok g h s" and l: "layout_ok l" and cl: "class_for l = Some c"
  shows "\<exists>ptr h' s' g'. heap_alloc l h s = Some (ptr, h', s') \<and> heap_ok g' h' s' \<and>
    alloc_result l g s ptr g' \<and> same_frames (- allocator_frames s) (ram s) (ram s')"
proof -
  have c: "c < 9" using class_for_Some [OF cl] by simp
  note alloc_simps = heap_alloc_def checked_add_def Let_def cl class_sizes_nth [OF c]
  have head: "h_free h ! c = 0 \<longleftrightarrow> hg_free g c = []"
    using chain_null lists_okD(1) [OF _ c] ok by (metis heap_ok_def)
  show ?thesis
  proof (cases "hg_free g c = []")
    case False
    from alloc_take [OF l cl ok refl this] obtain g' where
      "heap_ok g' (h\<lparr>h_free := (h_free h)[c := ptr_read (ram s) (h_free h ! c)],
         h_allocated := h_allocated h + 2 ^ (c + 3)\<rparr>) s" "alloc_result l g s (h_free h ! c) g'"
      "h_allocated h + 2 ^ (c + 3) < usize_lim" .
    then show ?thesis using False head by (auto simp: alloc_simps)
  next
    case True
    show ?thesis
      using ok c
    proof (cases rule: heap_refill)
      case none
      then have "\<not> run_free s 0" by (auto simp: run_free_def)
      then have "alloc_result l g s 0 g" using cl by (simp add: alloc_result_def alloc_order_def)
      then show ?thesis using none True head ok by (auto simp: alloc_simps)
    next
      case (some p h1 s1)
      have "(2::nat) ^ (c + 3) dvd 2 ^ 12" using c by (intro le_imp_power_dvd) simp
      then have "2 ^ (c + 3) dvd p * 4096" by (intro dvd_mult) simp
      then have "p * 4096 \<in> set (slab_list c p)" by (simp add: slab_list_set [OF c])
      then have "hg_free (add_slab c p g) c \<noteq> []" by auto
      from alloc_take [OF l cl some(2,3) this] obtain g' where
        "heap_ok g' (h1\<lparr>h_free := (h_free h1)[c := ptr_read (ram s1) (h_free h1 ! c)],
           h_allocated := h_allocated h1 + 2 ^ (c + 3)\<rparr>) s1" "alloc_result l g s (h_free h1 ! c) g'"
        "h_allocated h1 + 2 ^ (c + 3) < usize_lim" .
      then show ?thesis using True head some by (auto simp: alloc_simps)
    qed
  qed
qed

text \<open>A run taken from the buddy allocator becomes a live block.\<close>

lemma heap_take_run:
  assumes ok: "heap_ok g h s" and a: "alloc_frames k s = (Some p, s1)"
  defines "g' \<equiv> set_big (insert (p, k) (hg_big g)) g"
  shows "p < 2 ^ 26" "live g' = insert (p * 4096, 4096 * 2 ^ k) (live g)"
    "(p * 4096, 4096 * 2 ^ k) \<notin> live g" "h_allocated h + 4096 * 2 ^ k < usize_lim"
    "h_reserved h + 4096 * 2 ^ k < usize_lim" "same_frames (- allocator_frames s) (ram s) (ram s1)"
    "heap_ok g' (h\<lparr>h_allocated := h_allocated h + 4096 * 2 ^ k, h_reserved := h_reserved h + 4096 * 2 ^ k\<rparr>) s1"
proof -
  have f: "frames_ok g s" and L: "lists_ok g h (ram s)" and n: "counts_ok g h"
    using ok by (simp_all add: heap_ok_def)
  note inv = frames_okD(1) [OF f]
  let ?B = "{p..<p + 2 ^ k}"
  have g: "set_big (hg_big g) g = g" by (simp add: set_big_def)
  have s1: "buddy_inv s1" "managed s1 = managed s" "free_ppns s1 = free_ppns s - ?B" "?B \<subseteq> free_ppns s"
    "same_frames (- allocator_frames s) (ram s) (ram s1)" "k \<le> MAX_ORDER"
    using alloc_frames_some [OF inv a] by simp_all
  show "same_frames (- allocator_frames s) (ram s) (ram s1)" by (rule s1(5))
  have new: "?B \<inter> heap_frames g = {}" using frames_okD(3) [OF f] s1(4) by blast
  moreover have "heap_frames g \<union> ?B \<subseteq> managed s1 - free_ppns s1"
    using frames_okD(3) [OF f] s1(2-4) free_ppns_managed [OF inv] by blast
  ultimately have f': "frames_ok g' s1"
    using alloc_frames_aligned [OF inv a] s1(1,2,6) unfolding g'_def by (intro frames_ok_add_big [OF f])
  have pB: "p \<in> ?B" by simp
  then show "p < 2 ^ 26" using s1(4) free_ppns_window [OF f] by blast
  have "(p, k) \<notin> hg_big g" using pB new big_sub [of p k g] unfolding heap_frames_def by blast
  then have lv: "live g' = insert (p * 4096, 4096 * 2 ^ k) (live g)" "(p * 4096, 4096 * 2 ^ k) \<notin> live g"
    using live_big_insert [of p k "hg_big g" g] big_iff [of p k g] by (simp_all add: g g'_def)
  then show "live g' = insert (p * 4096, 4096 * 2 ^ k) (live g)" "(p * 4096, 4096 * 2 ^ k) \<notin> live g"
    by simp_all
  have cnt: "h_reserved h + 4096 * 2 ^ k = 4096 * card (heap_frames g')"
    using n new heap_frames_finite(1) [OF f]
    by (simp add: counts_ok_def heap_frames_insert g g'_def card_Un_disjoint Int_commute)
  have all: "h_allocated h + 4096 * 2 ^ k = card (live_bytes g')"
    using live_bytes_insert(1) [OF f' lv] n by (simp add: counts_ok_def)
  show "h_allocated h + 4096 * 2 ^ k < usize_lim" "h_reserved h + 4096 * 2 ^ k < usize_lim"
    using heap_frames_finite(2,4) [OF f'] cnt all by simp_all
  have "lists_ok g h (ram s1)"
    using L chain_same_frames [OF s1(5)] heap_frames_in_use [OF f]
    by (fastforce simp: lists_ok_def heap_frames_def slab_frames_def)
  then show "heap_ok g' (h\<lparr>h_allocated := h_allocated h + 4096 * 2 ^ k, h_reserved := h_reserved h + 4096 * 2 ^ k\<rparr>) s1"
    using f' cnt all by (simp add: heap_ok_def counts_ok_def lists_ok_def g'_def)
qed

lemma alloc_large:
  assumes ok: "heap_ok g h s" and l: "layout_ok l" and cl: "class_for l = None"
  shows "\<exists>ptr h' s' g'. heap_alloc l h s = Some (ptr, h', s') \<and> heap_ok g' h' s' \<and>
    alloc_result l g s ptr g' \<and> same_frames (- allocator_frames s) (ram s) (ram s')"
proof (cases "PAGE_SIZE < l_align l")
  case True
  then have "alloc_result l g s 0 g" by (simp add: alloc_result_def)
  then show ?thesis using True ok cl by (auto simp: heap_alloc_def)
next
  case False
  have inv: "buddy_inv s" using ok frames_okD(1) by (auto simp: heap_ok_def)
  define k where "k = alloc_order l"
  have k: "order_for (div_ceil (l_size l) PAGE_SIZE) = k" "alloc_len l = 4096 * 2 ^ k"
    using cl by (simp_all add: k_def alloc_order_def alloc_len_def)
  obtain r s1 where a: "alloc_frames k s = (r, s1)" by fastforce
  show ?thesis
  proof (cases r)
    case None
    then have "s1 = s" "alloc_result l g s 0 g"
      using alloc_frames_none [OF inv] a by (simp_all add: alloc_result_def k_def)
    then show ?thesis using ok cl False a None k by (auto simp: heap_alloc_def)
  next
    case (Some p)
    note t = heap_take_run [OF ok a [unfolded Some]]
    have "alloc_result l g s (VIRT_OFFSET + p * 4096) (set_big (insert (p, k) (hg_big g)) g)"
      using t(2,3) alloc_len_fits [OF l] big_aligned [OF l] False by (auto simp: alloc_result_def k)
    then show ?thesis
      using t cl False a Some k by (auto simp: heap_alloc_def checked_add_def ppn_as_ptr_window)
  qed
qed

lemma heap_release_run:
  assumes ok: "heap_ok g h s" and p: "(p, k) \<in> hg_big g"
  defines "g' \<equiv> set_big (hg_big g - {(p, k)}) g"
  obtains s' where "free_frames p k s = Some s'" "live g = insert (p * 4096, 4096 * 2 ^ k) (live g')"
    "(p * 4096, 4096 * 2 ^ k) \<notin> live g'" "4096 * 2 ^ k \<le> h_allocated h" "4096 * 2 ^ k \<le> h_reserved h"
    "p < 2 ^ 26" "same_frames (- (allocator_frames s \<union> {p..<p + 2 ^ k})) (ram s) (ram s')"
    "heap_frames g' \<subseteq> - (allocator_frames s \<union> {p..<p + 2 ^ k})"
    "heap_ok g' (h\<lparr>h_allocated := h_allocated h - 4096 * 2 ^ k, h_reserved := h_reserved h - 4096 * 2 ^ k\<rparr>) s'"
proof -
  have f: "frames_ok g s" and L: "lists_ok g h (ram s)" and n: "counts_ok g h"
    using ok by (simp_all add: heap_ok_def)
  let ?B = "{p..<p + 2 ^ k}"
  note del = frames_ok_del_big [OF f p, folded g'_def]
  have "?B \<subseteq> managed s - free_ppns s" using frames_okD(3) [OF f] del(2) by blast
  then obtain s' where s': "free_frames p k s = Some s'" "buddy_inv s'" "free_ppns s' = free_ppns s \<union> ?B"
    "managed s' = managed s" "same_frames (- (allocator_frames s \<union> ?B)) (ram s) (ram s')"
    using free_frames_block [OF frames_okD(1) [OF f], of k p] frames_okD(6) [OF f p] by blast
  have "p \<in> ?B" by simp
  then have p26: "p < 2 ^ 26" using \<open>?B \<subseteq> managed s - free_ppns s\<close> frames_okD(2) [OF f] by blast
  have apart: "heap_frames g' \<subseteq> - (allocator_frames s \<union> ?B)"
    using heap_frames_in_use [OF f] del(2,3) by blast
  have f': "frames_ok g' s'"
    using del s'(2-4) frames_okD(3) [OF f] unfolding frames_ok_def by auto
  have g: "set_big (insert (p, k) (hg_big g - {(p, k)})) g = g"
    using p by (simp add: set_big_def insert_absorb)
  have lv: "live g = insert (p * 4096, 4096 * 2 ^ k) (live g')" "(p * 4096, 4096 * 2 ^ k) \<notin> live g'"
    using live_big_insert [of p k "hg_big g - {(p, k)}" g] big_iff [of p k g'] unfolding g
    by (simp_all add: g'_def)
  note card = live_bytes_insert(1,2) [OF f lv]
  have "card (heap_frames g) = card (heap_frames g') + 2 ^ k"
    using del(2,3) heap_frames_finite(1) [OF f'] by (simp add: card_Un_disjoint)
  then have cnt: "h_reserved h = 4096 * card (heap_frames g') + 4096 * 2 ^ k"
    "h_allocated h = card (live_bytes g') + 4096 * 2 ^ k"
    using n card by (simp_all add: counts_ok_def)
  have "lists_ok g h (ram s')"
    using L chain_same_frames [OF s'(5)] apart
    by (fastforce simp: lists_ok_def heap_frames_def slab_frames_def g'_def)
  then have "heap_ok g' (h\<lparr>h_allocated := h_allocated h - 4096 * 2 ^ k, h_reserved := h_reserved h - 4096 * 2 ^ k\<rparr>) s'"
    using f' cnt by (simp add: heap_ok_def counts_ok_def lists_ok_def g'_def)
  then show ?thesis using that s'(1,5) lv cnt p26 apart by simp
qed

text \<open>
  C9: The kernel heap never panics when it allocates. Either it returns null, and
  then the alignment exceeds a page or the frame allocator has no free aligned run of
  the needed order, or it returns a block that is large enough, aligned as requested,
  outside every live block and in the direct map; exactly this block becomes live. The
  contents of all live blocks and of every frame not held by the frame allocator stay
  as they were.
\<close>

theorem heap_alloc_correct:
  assumes "heap_ok g h s" and "layout_ok l"
  shows "\<exists>ptr h' s' g'. heap_alloc l h s = Some (ptr, h', s') \<and> heap_ok g' h' s' \<and>
    (if ptr = 0 then live g' = live g \<and> (PAGE_SIZE < l_align l \<or> \<not> run_free s (alloc_order l))
     else \<exists>a. ptr = VIRT_OFFSET + a \<and> l_size l \<le> alloc_len l \<and> l_align l dvd ptr \<and>
       live g' = insert (a, alloc_len l) (live g) \<and>
       (\<forall>(b, m)\<in>live g. {a..<a + alloc_len l} \<inter> {b..<b + m} = {})) \<and>
    (\<forall>d. d * 8 \<in> live_bytes g \<longrightarrow> ram s' d = ram s d) \<and>
    same_frames (- allocator_frames s) (ram s) (ram s')"
proof -
  obtain ptr h' s' g' where r: "heap_alloc l h s = Some (ptr, h', s')" "heap_ok g' h' s'"
    "alloc_result l g s ptr g'" "same_frames (- allocator_frames s) (ram s) (ram s')"
    using alloc_small [OF assms] alloc_large [OF assms] by (cases "class_for l") blast+
  have "frames_ok g s" "frames_ok g' s'" using assms(1) r(2) by (simp_all add: heap_ok_def)
  note keep = same_live [OF r(4) heap_frames_in_use [OF this(1)]]
    and apart = live_bytes_insert(3) [OF this(2)]
  show ?thesis
    using r keep apart unfolding alloc_result_def
    by (intro exI [of _ ptr] exI [of _ h'] exI [of _ s'] exI [of _ g']) (simp split: if_splits; blast)
qed

definition no_ghost :: heap_ghost where
  "no_ghost = \<lparr>hg_slab = (\<lambda>_. {}), hg_free = (\<lambda>_. []), hg_big = {}\<rparr>"

lemma heap_new_ok: "heap_ok no_ghost heap_new small_mm"
proof -
  have "managed small_mm \<subseteq> {..<2 ^ 26}" by (auto simp: managed_def small_mm_facts)
  moreover have "live no_ghost = {}" "heap_frames no_ghost = {}"
    by (auto simp: live_def live_small_def live_big_def slab_blocks_def heap_frames_def
        slab_frames_def big_frames_def no_ghost_def)
  ultimately show ?thesis
    using small_mm_facts(1)
    by (auto simp: heap_ok_def frames_ok_def lists_ok_def counts_ok_def live_bytes_def heap_new_def
        slab_frames_def no_ghost_def)
qed

theorem heap_alloc_correct_witness:
  "heap_ok no_ghost heap_new small_mm \<and> layout_ok \<lparr>l_size = 24, l_align = 8\<rparr> \<and>
    (\<exists>ptr h' s' g'. heap_alloc \<lparr>l_size = 24, l_align = 8\<rparr> heap_new small_mm = Some (ptr, h', s') \<and>
      heap_ok g' h' s')"
proof -
  have "layout_ok \<lparr>l_size = 24, l_align = 8\<rparr>"
    by (auto simp: layout_ok_def intro!: image_eqI [of _ _ 3])
  then show ?thesis using heap_new_ok heap_alloc_correct [OF heap_new_ok] by blast
qed

text \<open>
  C10: Releasing a live block with the layout it was allocated with never
  panics, makes exactly this block dead and keeps the contents of all other live
  blocks and of every frame outside the heap and the frame allocator.
\<close>

theorem heap_dealloc_correct:
  assumes "heap_ok g h s" and "(a, alloc_len l) \<in> live g"
  shows "\<exists>h' s' g'. heap_dealloc (VIRT_OFFSET + a) l h s = Some (h', s') \<and> heap_ok g' h' s' \<and>
    live g' = live g - {(a, alloc_len l)} \<and> (\<forall>d. d * 8 \<in> live_bytes g' \<longrightarrow> ram s' d = ram s d) \<and>
    same_frames (- (allocator_frames s \<union> heap_frames g)) (ram s) (ram s')"
proof (cases "class_for l")
  case (Some c)
  have c: "c < 9" and len: "alloc_len l = 2 ^ (c + 3)"
    using class_for_Some [OF Some] Some by (simp_all add: alloc_len_def)
  note put = heap_put [OF assms(1) c assms(2) [unfolded len]]
  have "frames_ok g s" using assms(1) by (simp add: heap_ok_def)
  note apart = live_bytes_insert(4) [OF this put(1,2)]
  have "8 dvd a"
    using assms(2) small_not_big [OF c] small_iff [OF c]
    by (auto simp: live_def len slab_blocks_def power_add intro: dvd_mult_right)
  moreover have "a \<in> {a..<a + 2 ^ (c + 3)}" by simp
  ultimately have "d \<noteq> a div 8" if "d * 8 \<in> live_bytes (set_list c (a # hg_free g c) g)" for d
    using that apart by (metis disjoint_iff dvd_div_mult_self)
  then show ?thesis
    using put(2-6) Some class_sizes_nth [OF c]
    by (auto simp: heap_dealloc_def checked_sub_def put(1) insert_absorb len
        intro!: exI [of _ "set_list c (a # hg_free g c) g"] same_frames_mono [OF put(6)])
next
  case None
  let ?k = "alloc_order l"
  have len: "alloc_len l = 4096 * 2 ^ ?k" using None by (simp add: alloc_len_def)
  have "(a, 4096 * 2 ^ ?k) \<in> live_big g"
    using assms(2) class_not_run unfolding len live_def by (metis UnE live_smallE)
  then obtain p where p: "(p, ?k) \<in> hg_big g" "a = p * 4096" by (elim live_bigE) auto
  obtain s' where r: "free_frames p ?k s = Some s'"
    "live g = insert (p * 4096, 4096 * 2 ^ ?k) (live (set_big (hg_big g - {(p, ?k)}) g))"
    "(p * 4096, 4096 * 2 ^ ?k) \<notin> live (set_big (hg_big g - {(p, ?k)}) g)"
    "4096 * 2 ^ ?k \<le> h_allocated h" "4096 * 2 ^ ?k \<le> h_reserved h" "p < 2 ^ 26"
    "same_frames (- (allocator_frames s \<union> {p..<p + 2 ^ ?k})) (ram s) (ram s')"
    "heap_frames (set_big (hg_big g - {(p, ?k)}) g) \<subseteq> - (allocator_frames s \<union> {p..<p + 2 ^ ?k})"
    "heap_ok (set_big (hg_big g - {(p, ?k)}) g) (h\<lparr>h_allocated := h_allocated h - 4096 * 2 ^ ?k,
       h_reserved := h_reserved h - 4096 * 2 ^ ?k\<rparr>) s'"
    by (rule heap_release_run [OF assms(1) p(1)])
  have "same_frames (- (allocator_frames s \<union> heap_frames g)) (ram s) (ram s')"
    using big_sub [OF p(1)] by (intro same_frames_mono [OF r(7)]) (auto simp: heap_frames_def)
  moreover have "order_for (div_ceil (l_size l) PAGE_SIZE) = ?k"
    using None by (simp add: alloc_order_def)
  ultimately show ?thesis
    using r(1-6,9) same_live [OF r(7,8)] None
    by (auto simp: heap_dealloc_def Let_def checked_sub_def to_phys_def pa_ppn_div p(2) len insert_absorb
        intro!: exI [of _ "set_big (hg_big g - {(p, ?k)}) g"])
qed

text \<open>A run of one frame, allocated on the small machine.\<close>

lemma heap_page_live:
  obtains h s g a where "heap_ok g h s" "(a, alloc_len \<lparr>l_size = 4096, l_align = 8\<rparr>) \<in> live g"
proof -
  obtain r s1 where a: "alloc_frames 0 small_mm = (r, s1)" by fastforce
  have "run_free small_mm 0" by (auto simp: run_free_def small_mm_free intro!: exI [of _ 1024])
  then obtain p where p: "r = Some p" using alloc_frames_none [OF small_mm_facts(1)] a by (cases r) auto
  have "class_for \<lparr>l_size = 4096, l_align = 8\<rparr> = None" by (simp add: class_for_None)
  moreover have "order_for 1 = 0" by (simp add: order_for_def)
  ultimately have "alloc_len \<lparr>l_size = 4096, l_align = 8\<rparr> = 4096"
    by (simp add: alloc_len_def alloc_order_def div_ceil_def)
  note len = this and t = heap_take_run(2,7) [OF heap_new_ok a [unfolded p]]
  show ?thesis by (rule that [OF t(2), of "p * 4096"]) (simp add: t(1) len)
qed

theorem heap_dealloc_correct_witness:
  "\<exists>g h s a. heap_ok g h s \<and> (a, alloc_len \<lparr>l_size = 4096, l_align = 8\<rparr>) \<in> live g \<and>
    (\<exists>h' s'. heap_dealloc (VIRT_OFFSET + a) \<lparr>l_size = 4096, l_align = 8\<rparr> h s = Some (h', s'))"
proof -
  obtain h s g a where ok: "heap_ok g h s" "(a, alloc_len \<lparr>l_size = 4096, l_align = 8\<rparr>) \<in> live g"
    by (rule heap_page_live)
  then have "\<exists>h' s'. heap_dealloc (VIRT_OFFSET + a) \<lparr>l_size = 4096, l_align = 8\<rparr> h s = Some (h', s')"
    using heap_dealloc_correct [OF ok] by (elim exE conjE) (intro exI)
  with ok show ?thesis by blast
qed

text \<open>
  A request is served from a size class exactly when its size and alignment
  are at most 2 KiB, and then from the smallest class that holds both.
\<close>

theorem class_for_smallest:
  "case class_for l of
     None \<Rightarrow> MAX_CLASS_SIZE < max (l_size l) (l_align l)
   | Some c \<Rightarrow> c < length class_sizes \<and> max (l_size l) (l_align l) \<le> class_sizes ! c \<and>
       filter (\<lambda>n. max (l_size l) (l_align l) \<le> n) class_sizes = drop c class_sizes"
proof (cases "class_for l")
  case None
  then have "MAX_CLASS_SIZE < max (l_size l) (l_align l)" using class_for_None by blast
  then show ?thesis by (simp only: None option.case)
next
  case (Some c)
  note c = class_for_Some [OF Some]
  let ?need = "max (l_size l) (l_align l)"
  have len: "length class_sizes = 9" by (simp add: class_sizes_def)
  have big: "?need \<le> n" if n: "n \<in> set (drop c class_sizes)" for n
  proof -
    obtain i where "i < 9 - c" "n = drop c class_sizes ! i"
      using n len unfolding in_set_conv_nth by auto
    then have j: "c + i < 9" "c \<le> c + i" "n = class_sizes ! (c + i)" using len by simp_all
    have "(2::nat) ^ (c + 3) \<le> 2 ^ (c + i + 3)" by (intro power_increasing) auto
    then show ?thesis using c class_sizes_nth [OF j(1)] unfolding j(3) by linarith
  qed
  have "\<not> ?need \<le> n" if "n \<in> set (take c class_sizes)" for n
    using that c len by (auto simp: in_set_conv_nth class_sizes_nth)
  then have "filter (\<lambda>n. ?need \<le> n) (take c class_sizes) = []" by (simp add: filter_empty_conv)
  moreover have "filter (\<lambda>n. ?need \<le> n) (drop c class_sizes) = drop c class_sizes"
    using big by simp
  ultimately have "filter (\<lambda>n. ?need \<le> n) class_sizes = drop c class_sizes"
    by (metis append_Nil append_take_drop_id filter_append)
  moreover have "c < length class_sizes" "?need \<le> class_sizes ! c"
    using c len class_sizes_nth by simp_all
  ultimately show ?thesis unfolding Some option.case by blast
qed

end
