(* ===== verification/Page_Table.thy ===== *)
theory Page_Table
  imports Frame_Source "HOL-Library.Monad_Syntax"
begin

text \<open>
  Sv39 page tables, \<^verbatim>\<open>kernel/src/mm/page_table.rs\<close>. A table is the number of its
  root frame and the frames it owns; the entries are in physical memory. A slot, which
  the source passes around as a reference to an entry, is its physical address. An
  operation returns \<open>None\<close> for a panic, and otherwise its result together with the
  table and the memory state.
\<close>

unbundle bit_operations_syntax

section \<open>Entries\<close>

type_synonym pte_flags = u64
type_synonym pte = u64

abbreviation (input) FL_VALID :: pte_flags where "FL_VALID \<equiv> 0x001"
abbreviation (input) FL_READ :: pte_flags where "FL_READ \<equiv> 0x002"
abbreviation (input) FL_WRITE :: pte_flags where "FL_WRITE \<equiv> 0x004"
abbreviation (input) FL_EXEC :: pte_flags where "FL_EXEC \<equiv> 0x008"
abbreviation (input) FL_USER :: pte_flags where "FL_USER \<equiv> 0x010"
abbreviation (input) FL_GLOBAL :: pte_flags where "FL_GLOBAL \<equiv> 0x020"
abbreviation (input) FL_ACCESSED :: pte_flags where "FL_ACCESSED \<equiv> 0x040"
abbreviation (input) FL_DIRTY :: pte_flags where "FL_DIRTY \<equiv> 0x080"
abbreviation (input) FL_RW :: pte_flags where "FL_RW \<equiv> 0x006"
abbreviation (input) FL_RX :: pte_flags where "FL_RX \<equiv> 0x00a"
abbreviation (input) FL_RWX :: pte_flags where "FL_RWX \<equiv> 0x00e"
abbreviation (input) FLAG_MASK :: u64 where "FLAG_MASK \<equiv> 0x3ff"

definition fl_contains :: "pte_flags \<Rightarrow> pte_flags \<Rightarrow> bool" where
  "fl_contains a b \<longleftrightarrow> a AND b = b"

definition fl_intersects :: "pte_flags \<Rightarrow> pte_flags \<Rightarrow> bool" where
  "fl_intersects a b \<longleftrightarrow> a AND b \<noteq> 0"

definition fl_union :: "pte_flags \<Rightarrow> pte_flags \<Rightarrow> pte_flags" where
  "fl_union a b = a OR b"

definition fl_without :: "pte_flags \<Rightarrow> pte_flags \<Rightarrow> pte_flags" where
  "fl_without a b = a AND NOT b"

definition pte_new :: "phys_page_num \<Rightarrow> pte_flags \<Rightarrow> pte" where
  "pte_new ppn flags = push_bit 10 (word_of_nat ppn) OR flags"

definition pte_ppn :: "pte \<Rightarrow> phys_page_num" where
  "pte_ppn e = unat (drop_bit 10 e AND (push_bit 44 1 - 1))"

definition pte_flags :: "pte \<Rightarrow> pte_flags" where
  "pte_flags e = e AND FLAG_MASK"

definition pte_set_flags :: "pte_flags \<Rightarrow> pte \<Rightarrow> pte" where
  "pte_set_flags flags e = (e AND NOT FLAG_MASK) OR flags"

definition pte_is_valid :: "pte \<Rightarrow> bool" where
  "pte_is_valid e = fl_contains (pte_flags e) FL_VALID"

definition pte_is_leaf :: "pte \<Rightarrow> bool" where
  "pte_is_leaf e \<longleftrightarrow> pte_is_valid e \<and> fl_intersects (pte_flags e) FL_RWX"

section \<open>Tables\<close>

datatype map_error = AlreadyMapped | NotMapped | MapOutOfMemory

record page_table =
  pt_root :: phys_page_num
  pt_frames :: "frame list"

text \<open>The address of entry \<open>index\<close> of the table in frame \<open>ppn\<close>, as \<^verbatim>\<open>table_at\<close>
  lays it out.\<close>

definition table_at :: "phys_page_num \<Rightarrow> usize \<Rightarrow> phys_addr" where
  "table_at ppn index = ppn * PAGE_SIZE + 8 * index"

definition read_pte :: "mm_state \<Rightarrow> phys_addr \<Rightarrow> pte" where
  "read_pte s a = read_u64 (ram s) a"

definition write_pte :: "phys_addr \<Rightarrow> pte \<Rightarrow> mm_state \<Rightarrow> mm_state" where
  "write_pte a e s = s\<lparr>ram := write_u64 a e (ram s)\<rparr>"

definition pt_new :: "mm_state \<Rightarrow> page_table option \<times> mm_state" where
  "pt_new s =
     (case frame_alloc s of
        (None, s1) \<Rightarrow> (None, s1)
      | (Some f, s1) \<Rightarrow> (Some \<lparr>pt_root = fr_ppn f, pt_frames = [f]\<rparr>, s1))"

definition pt_token :: "page_table \<Rightarrow> u64" where
  "pt_token pt = push_bit 60 8 OR word_of_nat (pt_root pt)"

text \<open>
  The loop of \<^verbatim>\<open>walk_create_to\<close>. The result is \<open>None\<close> when the walk runs past the last
  index, where the source has \<^verbatim>\<open>unreachable!\<close>, and otherwise the slot, or none when
  a table could not be allocated, with the frames owned by then.
\<close>

fun walk_create_loop ::
  "usize \<Rightarrow> usize list \<Rightarrow> usize \<Rightarrow> phys_page_num \<Rightarrow> frame list \<Rightarrow> mm_state
     \<Rightarrow> (phys_addr option \<times> frame list \<times> mm_state) option" where
  "walk_create_loop level [] stop_level ppn fs s = None"
| "walk_create_loop level (index # indices) stop_level ppn fs s =
     (if level = stop_level then Some (Some (table_at ppn index), fs, s)
      else if \<not> pte_is_valid (read_pte s (table_at ppn index)) then
        (case frame_alloc s of
           (None, s1) \<Rightarrow> Some (None, fs, s1)
         | (Some f, s1) \<Rightarrow>
             let s2 = write_pte (table_at ppn index) (pte_new (fr_ppn f) FL_VALID) s1
             in walk_create_loop (level + 1) indices stop_level
                  (pte_ppn (read_pte s2 (table_at ppn index))) (fs @ [f]) s2)
      else walk_create_loop (level + 1) indices stop_level
             (pte_ppn (read_pte s (table_at ppn index))) fs s)"

definition walk_create_to ::
  "virt_page_num \<Rightarrow> usize \<Rightarrow> page_table \<Rightarrow> mm_state
     \<Rightarrow> (phys_addr option \<times> page_table \<times> mm_state) option" where
  "walk_create_to vpn stop_level pt s = do {
     (slot, fs, s1) \<leftarrow> walk_create_loop 0 (vpn_indices vpn) stop_level (pt_root pt) (pt_frames pt) s;
     Some (slot, pt\<lparr>pt_frames := fs\<rparr>, s1)
   }"

definition level_page_size :: "usize \<Rightarrow> usize option" where
  "level_page_size level = do {
     up \<leftarrow> checked_sub (SV39_LEVELS - 1) level;
     Some (2 ^ (PAGE_SHIFT + 9 * up))
   }"

fun walk_ptr_loop :: "usize \<Rightarrow> usize list \<Rightarrow> phys_page_num \<Rightarrow> mm_state \<Rightarrow> phys_addr option" where
  "walk_ptr_loop level [] ppn s = None"
| "walk_ptr_loop level (index # indices) ppn s =
     (if level = SV39_LEVELS - 1 then Some (table_at ppn index)
      else let e = read_pte s (table_at ppn index)
           in if \<not> pte_is_valid e then None
              else if pte_is_leaf e then None
              else walk_ptr_loop (level + 1) indices (pte_ppn e) s)"

definition walk_ptr :: "page_table \<Rightarrow> virt_page_num \<Rightarrow> mm_state \<Rightarrow> phys_addr option" where
  "walk_ptr pt vpn s = walk_ptr_loop 0 (vpn_indices vpn) (pt_root pt) s"

definition walk_read :: "page_table \<Rightarrow> virt_page_num \<Rightarrow> mm_state \<Rightarrow> pte option" where
  "walk_read pt vpn s = map_option (read_pte s) (walk_ptr pt vpn s)"

section \<open>Operations\<close>

definition pt_map_at_level ::
  "virt_page_num \<Rightarrow> phys_page_num \<Rightarrow> pte_flags \<Rightarrow> usize \<Rightarrow> page_table \<Rightarrow> mm_state
     \<Rightarrow> ((map_error + unit) \<times> page_table \<times> mm_state) option" where
  "pt_map_at_level vpn ppn flags level pt s = do {
     size \<leftarrow> level_page_size level;
     (slot, pt1, s1) \<leftarrow> walk_create_to vpn level pt s;
     Some (case slot of
        None \<Rightarrow> (Inl MapOutOfMemory, pt1, s1)
      | Some a \<Rightarrow>
          if pte_is_valid (read_pte s1 a) then (Inl AlreadyMapped, pt1, s1)
          else (Inr (), pt1,
                write_pte a (pte_new ppn (flags OR FL_VALID OR FL_ACCESSED OR FL_DIRTY)) s1))
   }"

definition pt_map ::
  "virt_page_num \<Rightarrow> phys_page_num \<Rightarrow> pte_flags \<Rightarrow> page_table \<Rightarrow> mm_state
     \<Rightarrow> ((map_error + unit) \<times> page_table \<times> mm_state) option" where
  "pt_map vpn ppn flags pt s = pt_map_at_level vpn ppn flags (SV39_LEVELS - 1) pt s"

definition pt_unmap :: "virt_page_num \<Rightarrow> page_table \<Rightarrow> mm_state
     \<Rightarrow> (map_error + phys_page_num) \<times> mm_state" where
  "pt_unmap vpn pt s =
     (case walk_ptr pt vpn s of
        None \<Rightarrow> (Inl NotMapped, s)
      | Some a \<Rightarrow>
          if \<not> pte_is_valid (read_pte s a) then (Inl NotMapped, s)
          else (Inr (pte_ppn (read_pte s a)), write_pte a 0 s))"

definition pt_translate :: "page_table \<Rightarrow> virt_page_num \<Rightarrow> mm_state \<Rightarrow> pte option" where
  "pt_translate pt vpn s =
     (case walk_read pt vpn s of
        None \<Rightarrow> None
      | Some e \<Rightarrow> if pte_is_valid e then Some e else None)"

definition pt_translate_addr :: "page_table \<Rightarrow> virt_addr \<Rightarrow> mm_state \<Rightarrow> phys_addr option" where
  "pt_translate_addr pt va s =
     (case pt_translate pt (va_vpn va) s of
        None \<Rightarrow> None
      | Some e \<Rightarrow> Some (ppn_base_addr (pte_ppn e) + page_offset va))"

definition pt_protect :: "virt_page_num \<Rightarrow> pte_flags \<Rightarrow> page_table \<Rightarrow> mm_state
     \<Rightarrow> (map_error + unit) \<times> mm_state" where
  "pt_protect vpn flags pt s =
     (case walk_ptr pt vpn s of
        None \<Rightarrow> (Inl NotMapped, s)
      | Some a \<Rightarrow>
          if \<not> pte_is_valid (read_pte s a) then (Inl NotMapped, s)
          else (Inr (), write_pte a
                  (pte_set_flags (flags OR FL_VALID OR FL_ACCESSED OR FL_DIRTY) (read_pte s a)) s))"

text \<open>\<^verbatim>\<open>entry_mut\<close> is the slot of a valid entry.\<close>

definition pt_entry_mut :: "page_table \<Rightarrow> virt_page_num \<Rightarrow> mm_state \<Rightarrow> phys_addr option" where
  "pt_entry_mut pt vpn s =
     (case walk_ptr pt vpn s of
        None \<Rightarrow> None
      | Some a \<Rightarrow> if pte_is_valid (read_pte s a) then Some a else None)"

text \<open>\<^verbatim>\<open>copy_from_slice\<close> of the entries 256 to 511.\<close>

definition pt_share_upper_half :: "page_table \<Rightarrow> page_table \<Rightarrow> mm_state \<Rightarrow> mm_state" where
  "pt_share_upper_half kern pt s =
     fold (\<lambda>i. write_pte (table_at (pt_root pt) i) (read_pte s (table_at (pt_root kern) i)))
       [PTE_PER_TABLE div 2..<PTE_PER_TABLE] s"

definition pt_table_frames :: "page_table \<Rightarrow> usize" where
  "pt_table_frames pt = length (pt_frames pt)"

text \<open>Dropping a table releases the frames it owns.\<close>

definition pt_drop :: "page_table \<Rightarrow> mm_state \<Rightarrow> mm_state option" where
  "pt_drop pt s = frames_drop (pt_frames pt) s"

section \<open>Entries as numbers and flags\<close>

lemma mask44: "(push_bit 44 1 - 1 :: u64) = mask 44"
  by (simp add: mask_eq_exp_minus_1 push_bit_of_1)

lemma flag_mask: "(0x3ff :: u64) = mask 10"
  by (simp add: mask_eq_exp_minus_1)

lemma pte_ppn_less: "pte_ppn e < 2 ^ 44"
proof -
  have "pte_ppn e = take_bit 44 (unat (drop_bit 10 e))"
    unfolding pte_ppn_def mask44 by (simp only: take_bit_eq_mask [symmetric] unsigned_take_bit_eq)
  then show ?thesis using take_bit_nat_less_exp [of 44 "unat (drop_bit 10 e)"] by simp
qed

lemma low_flags_bits:
  assumes "flags AND NOT FLAG_MASK = 0" "bit flags n"
  shows "n < 10"
proof (rule ccontr)
  assume n: "\<not> n < 10"
  have "n < 64" using assms(2) bit_imp_le_length [of flags n] by simp
  moreover have "\<not> bit (mask 10 :: u64) n" using n by (simp add: bit_simps)
  ultimately have "bit (flags AND NOT FLAG_MASK) n"
    unfolding flag_mask using assms(2) by (simp add: bit_simps)
  then show False unfolding assms(1) by simp
qed

lemma pte_ppn_new [pt_simps]:
  assumes "ppn < 2 ^ 44" "flags AND NOT FLAG_MASK = 0"
  shows "pte_ppn (pte_new ppn flags) = ppn"
proof -
  have hi: "n < 44" if "bit ppn n" for n
    using that take_bit_nat_eq_self [OF assms(1)] by (metis bit_take_bit_iff)
  have "drop_bit 10 (pte_new ppn flags) AND mask 44 = word_of_nat ppn"
    using low_flags_bits [OF assms(2)] by (intro bit_word_eqI) (auto simp: pte_new_def bit_simps dest: hi)
  moreover have "ppn < 2 ^ 64" using assms(1) by simp
  ultimately show ?thesis unfolding pte_ppn_def mask44 by simp
qed

lemma pte_flags_new [pt_simps]:
  "flags AND NOT FLAG_MASK = 0 \<Longrightarrow> pte_flags (pte_new ppn flags) = flags"
proof -
  assume *: "flags AND NOT FLAG_MASK = 0"
  have "pte_new ppn flags AND FLAG_MASK = flags AND FLAG_MASK"
    unfolding flag_mask by (intro bit_word_eqI) (auto simp: pte_new_def bit_simps)
  also have "\<dots> = flags"
    using * by (metis bit.conj_disj_distrib bit.disj_cancel_right bit.conj_one_right
        or.right_neutral)
  finally show ?thesis by (simp add: pte_flags_def)
qed

lemma pte_set_flags_ppn:
  assumes "flags AND NOT FLAG_MASK = 0"
  shows "pte_ppn (pte_set_flags flags e) = pte_ppn e"
proof -
  have "drop_bit 10 (pte_set_flags flags e) AND mask 44 = drop_bit 10 e AND mask 44"
    unfolding pte_set_flags_def flag_mask using low_flags_bits [OF assms]
    by (intro bit_word_eqI) (auto simp: bit_simps)
  then show ?thesis unfolding pte_ppn_def mask44 by simp
qed

lemma pte_set_flags_flags:
  assumes "flags AND NOT FLAG_MASK = 0"
  shows "pte_flags (pte_set_flags flags e) = flags"
  unfolding pte_flags_def pte_set_flags_def flag_mask using low_flags_bits [OF assms]
  by (intro bit_word_eqI) (auto simp: bit_simps)

lemma leaf_flags_low:
  "flags AND NOT FLAG_MASK = 0 \<Longrightarrow>
    (flags OR FL_VALID OR FL_ACCESSED OR FL_DIRTY) AND NOT FLAG_MASK = 0"
  by (simp add: bit.conj_disj_distrib2)

end
