(* ===== verification/Page_Walk.thy ===== *)
theory Page_Walk
  imports Page_Table
begin

text \<open>
  The page-table tree. \<open>tbl m r p\<close> is the table reached from root \<open>r\<close> along the
  index path \<open>p\<close>; a well-formed tree reaches no table along two paths, so that a
  store into one entry changes the translation of one page only. The walks of the
  source are shown to compute \<open>tbl\<close>, and \<open>walk_create_to\<close> to extend the
  tree without changing any translation.
\<close>

unbundle bit_operations_syntax

section \<open>Validity and leaves by bits\<close>

lemma pte_is_valid_bit [pt_simps]: "pte_is_valid e \<longleftrightarrow> bit e 0"
proof -
  have "(e AND mask 10) AND 1 = of_bool (bit e 0)"
    by (rule bit_word_eqI) (auto simp: bit_simps)
  then show ?thesis
    unfolding pte_is_valid_def fl_contains_def pte_flags_def flag_mask by simp
qed

lemma pte_is_leaf_bit [pt_simps]:
  "pte_is_leaf e \<longleftrightarrow> bit e 0 \<and> (bit e 1 \<or> bit e 2 \<or> bit e 3)"
proof -
  have b: "bit (0xe :: u64) n \<longleftrightarrow> n = 1 \<or> n = 2 \<or> n = 3" for n
  proof -
    have eq: "(0xe :: u64) = push_bit 1 (mask 3)" by (simp add: mask_eq_exp_minus_1 push_bit_eq_mult)
    show ?thesis unfolding eq bit_push_bit_iff bit_mask_iff by auto
  qed
  have "(e AND mask 10) AND 0xe \<noteq> 0 \<longleftrightarrow> (\<exists>n. bit ((e AND mask 10) AND 0xe) n)"
    using bit_imp_le_length [where ?'a = 64] by (auto simp: bit_eq_iff)
  also have "\<dots> \<longleftrightarrow> bit e 1 \<or> bit e 2 \<or> bit e 3"
    unfolding bit_and_iff b bit_mask_iff by auto
  finally show ?thesis
    unfolding pte_is_leaf_def pte_is_valid_bit fl_intersects_def pte_flags_def flag_mask by simp
qed

lemma pte_zero [simp]: "\<not> pte_is_valid 0" "\<not> pte_is_leaf 0"
  by (simp_all add: pt_simps)

lemma pte_new_interior [simp]:
  "pte_is_valid (pte_new f FL_VALID)" "\<not> pte_is_leaf (pte_new f FL_VALID)"
  by (auto simp: pt_simps pte_new_def bit_simps)

lemma pte_ppn_interior: "f < 2 ^ 44 \<Longrightarrow> pte_ppn (pte_new f FL_VALID) = f"
  by (rule pte_ppn_new) simp_all

lemma pte_new_leaf_valid [simp]:
  "pte_is_valid (pte_new f (flags OR FL_VALID OR FL_ACCESSED OR FL_DIRTY))"
  by (simp add: pt_simps pte_new_def bit_simps)

section \<open>Slots\<close>

lemma table_slot [pt_simps]: "table_at t i div 8 = t * 512 + i"
proof -
  have "t * 4096 + 8 * i = (t * 512 + i) * 8" by simp
  then show ?thesis unfolding table_at_def by (metis nonzero_mult_div_cancel_right zero_neq_numeral)
qed

lemma read_pte_slot [pt_simps]: "read_pte s (table_at t i) = ram s (t * 512 + i)"
  by (simp add: read_pte_def read_u64_def table_slot)

lemma write_pte_slot [pt_simps]:
  "write_pte (table_at t i) e s = s\<lparr>ram := (ram s)(t * 512 + i := e)\<rparr>"
  by (simp add: write_pte_def write_u64_def table_slot)

lemma slot_eq_iff:
  "i < 512 \<Longrightarrow> j < 512 \<Longrightarrow> t * 512 + i = u * 512 + j \<longleftrightarrow> t = u \<and> i = (j::nat)"
  using dw_frame_slot [of i t] dw_frame_slot [of j u] by (metis add_left_cancel)

section \<open>The tree\<close>

definition next_table :: "phys_mem \<Rightarrow> phys_page_num \<Rightarrow> usize \<Rightarrow> phys_page_num option" where
  "next_table m t i =
     (let e = m (t * 512 + i) in if pte_is_valid e \<and> \<not> pte_is_leaf e then Some (pte_ppn e) else None)"

primrec tbl :: "phys_mem \<Rightarrow> phys_page_num \<Rightarrow> usize list \<Rightarrow> phys_page_num option" where
  "tbl m r [] = Some r"
| "tbl m r (i # p) = (case next_table m r i of None \<Rightarrow> None | Some t \<Rightarrow> tbl m t p)"

lemma tbl_snoc: "tbl m r (p @ [i]) = (case tbl m r p of None \<Rightarrow> None | Some t \<Rightarrow> next_table m t i)"
  by (induction p arbitrary: r) (auto split: option.split)

text \<open>Index paths to a root, an interior or a leaf table.\<close>

definition is_path :: "usize list \<Rightarrow> bool" where
  "is_path p \<longleftrightarrow> length p \<le> 2 \<and> set p \<subseteq> {..<512}"

lemma is_path_cases:
  assumes "is_path p"
  obtains "p = []" | a where "p = [a]" "a < 512" | a b where "p = [a, b]" "a < 512" "b < 512"
proof (cases p)
  case (Cons a q)
  then show ?thesis using assms that by (cases q) (auto simp: is_path_def)
qed (use that in blast)

lemma is_path_simps [simp]:
  "is_path []" "is_path [a] \<longleftrightarrow> a < 512" "is_path [a, b] \<longleftrightarrow> a < 512 \<and> b < 512"
  by (auto simp: is_path_def)

definition tables :: "phys_mem \<Rightarrow> phys_page_num \<Rightarrow> phys_page_num set" where
  "tables m r = {t. \<exists>p. is_path p \<and> tbl m r p = Some t}"

definition tree :: "phys_mem \<Rightarrow> phys_page_num \<Rightarrow> bool" where
  "tree m r \<longleftrightarrow> (\<forall>p q t. is_path p \<and> is_path q \<and> tbl m r p = Some t \<and> tbl m r q = Some t \<longrightarrow> p = q)"

lemma treeD: "tree m r \<Longrightarrow> is_path p \<Longrightarrow> is_path q \<Longrightarrow> tbl m r p = Some t \<Longrightarrow> tbl m r q = Some t \<Longrightarrow> p = q"
  unfolding tree_def by blast

lemma tablesI: "is_path p \<Longrightarrow> tbl m r p = Some t \<Longrightarrow> t \<in> tables m r"
  unfolding tables_def by blast

lemma root_in_tables [simp]: "r \<in> tables m r"
  by (rule tablesI [of "[]"]) simp_all

text \<open>The leaf entry of a page, if it is valid.\<close>

definition lookup :: "phys_mem \<Rightarrow> phys_page_num \<Rightarrow> virt_page_num \<Rightarrow> pte option" where
  "lookup m r v =
     (case tbl m r [v div 2 ^ 18 mod 512, v div 512 mod 512] of
        None \<Rightarrow> None
      | Some t \<Rightarrow> let e = m (t * 512 + v mod 512) in if pte_is_valid e then Some e else None)"

lemma walk_ptr_tbl:
  "walk_ptr pt v s = map_option (\<lambda>t. table_at t (v mod 512))
     (tbl (ram s) (pt_root pt) [v div 2 ^ 18 mod 512, v div 512 mod 512])"
  by (auto simp: walk_ptr_def vpn_indices_eq read_pte_slot next_table_def Let_def split: option.split)

lemma pt_translate_lookup: "pt_translate pt v s = lookup (ram s) (pt_root pt) v"
  by (auto simp: pt_translate_def walk_read_def walk_ptr_tbl lookup_def read_pte_slot Let_def
      split: option.split)

section \<open>Stores and the tree\<close>

text \<open>Stores outside the tables do not matter.\<close>

lemma next_table_frame:
  "same_frames T m m' \<Longrightarrow> t \<in> T \<Longrightarrow> i < 512 \<Longrightarrow> next_table m' t i = next_table m t i"
  using same_framesD [of T m m' "t * 512 + i"] by (simp add: next_table_def)

lemma tbl_frame:
  assumes "same_frames (tables m r) m m'" "is_path p"
  shows "tbl m' r p = tbl m r p"
  using assms(2)
proof (cases rule: is_path_cases)
  case (2 a)
  then show ?thesis using next_table_frame [OF assms(1), of r a] by (simp split: option.split)
next
  case (3 a b)
  then have "next_table m' r a = next_table m r a" using next_table_frame [OF assms(1)] by simp
  moreover have "next_table m' t b = next_table m t b" if "next_table m r a = Some t" for t
    using that 3 next_table_frame [OF assms(1) tablesI [of "[a]" m r t]] by simp
  ultimately show ?thesis using 3 by (simp split: option.split)
qed simp

lemma tables_frame: "same_frames (tables m r) m m' \<Longrightarrow> tables m' r = tables m r"
  by (auto simp: tables_def tbl_frame)

lemma tree_frame: "same_frames (tables m r) m m' \<Longrightarrow> tree m' r = tree m r"
  by (auto simp: tree_def tbl_frame)

lemma lookup_frame:
  assumes "same_frames (tables m r) m m'"
  shows "lookup m' r v = lookup m r v"
proof -
  let ?p = "[v div 2 ^ 18 mod 512, v div 512 mod 512]"
  have "is_path ?p" by simp
  moreover have "m' (t * 512 + v mod 512) = m (t * 512 + v mod 512)" if "tbl m r ?p = Some t" for t
    using same_framesD [OF assms, of "t * 512 + v mod 512"] tablesI [OF \<open>is_path ?p\<close> that] by simp
  ultimately show ?thesis
    unfolding lookup_def tbl_frame [OF assms \<open>is_path ?p\<close>] by (auto split: option.split)
qed

text \<open>A store that keeps what the entry names as next table keeps every path.\<close>

lemma next_table_upd:
  "c < 512 \<Longrightarrow> i < 512 \<Longrightarrow> next_table (m(t * 512 + c := e)) u i =
     (if u = t \<and> i = c
      then (if pte_is_valid e \<and> \<not> pte_is_leaf e then Some (pte_ppn e) else None)
      else next_table m u i)"
  by (auto simp: next_table_def slot_eq_iff Let_def)

text \<open>A store into a leaf table changes no path.\<close>

lemma tbl_leaf_store:
  assumes "tree m r" "tbl m r [a, b] = Some t" "a < 512" "b < 512" "c < 512" "is_path p"
  shows "tbl (m(t * 512 + c := e)) r p = tbl m r p"
proof -
  have root: "r \<noteq> t" using treeD [OF assms(1), of "[]" "[a, b]" t] assms(2-4) by auto
  have mid: "u \<noteq> t" if "next_table m r i = Some u" "i < 512" for u i
    using treeD [OF assms(1), of "[i]" "[a, b]" t] assms(2-4) that by auto
  show ?thesis
    using assms(6) by (cases rule: is_path_cases)
      (use root mid assms(5) in \<open>auto simp: next_table_upd split: option.split\<close>)
qed

lemma lookup_leaf_store:
  assumes "tree m r" "tbl m r [a, b] = Some t" "a < 512" "b < 512" "c < 512"
    and "v < 2 ^ 27" "v' < 2 ^ 27" "[v div 2 ^ 18 mod 512, v div 512 mod 512, v mod 512] = [a, b, c]"
  shows "lookup (m(t * 512 + c := e)) r v' =
    (if v' = v then (if pte_is_valid e then Some e else None) else lookup m r v')"
proof -
  let ?m = "m(t * 512 + c := e)"
  let ?p = "[v' div 2 ^ 18 mod 512, v' div 512 mod 512]"
  have p: "is_path ?p" by simp
  note same = tbl_leaf_store [OF assms(1-5) p, of e]
  have inj: "v' = v \<longleftrightarrow> ?p = [a, b] \<and> v' mod 512 = c"
    using vpn_indices_inj [OF assms(7,6)] assms(8) unfolding vpn_indices_eq by auto
  show ?thesis
  proof (cases "tbl m r ?p")
    case None
    then show ?thesis using same assms(2) inj unfolding lookup_def by auto
  next
    case (Some u)
    have "?p = [a, b]" if "u = t"
      using treeD [OF assms(1) p, of "[a, b]" t] assms(2-4) Some that by simp
    then have "?m (u * 512 + v' mod 512) = (if v' = v then e else m (u * 512 + v' mod 512))"
      using inj assms(2,5) Some by (auto simp: slot_eq_iff)
    then show ?thesis using Some same unfolding lookup_def by (simp add: Let_def)
  qed
qed

text \<open>Installing a fresh, cleared table \<open>f\<close> in the invalid interior entry \<open>c\<close>
  of the table \<open>t\<close> on path \<open>q\<close>.\<close>

definition installs ::
  "phys_mem \<Rightarrow> phys_mem \<Rightarrow> phys_page_num \<Rightarrow> usize list \<Rightarrow> phys_page_num \<Rightarrow> usize \<Rightarrow> phys_page_num \<Rightarrow> bool" where
  "installs m m' r q t c f \<longleftrightarrow> tree m r \<and> tbl m r q = Some t \<and> length q \<le> 1 \<and> set q \<subseteq> {..<512} \<and>
     c < 512 \<and> \<not> pte_is_valid (m (t * 512 + c)) \<and> f \<notin> tables m r \<and>
     (\<forall>d. dw_frame d = f \<longrightarrow> m d = 0) \<and> f < 2 ^ 44 \<and> m' = m(t * 512 + c := pte_new f FL_VALID)"

lemma installs_next:
  assumes "installs m m' r q t c f"
  shows "t \<noteq> f" and "next_table m t c = None"
    and "i < 512 \<Longrightarrow> next_table m' u i = (if u = t \<and> i = c then Some f else next_table m u i)"
    and "i < 512 \<Longrightarrow> next_table m' f i = None"
    and "i < 512 \<Longrightarrow> m' (f * 512 + i) = 0"
proof -
  note d = assms [unfolded installs_def]
  have "is_path q" using d by (auto simp: is_path_def)
  then show tf: "t \<noteq> f" using d tablesI [of q m r t] by blast
  show "next_table m t c = None" using d by (simp add: next_table_def)
  show new: "next_table m' u i = (if u = t \<and> i = c then Some f else next_table m u i)"
    if "i < 512" for u i
    using d that by (simp add: next_table_upd pte_ppn_interior)
  show zero: "m' (f * 512 + i) = 0" if "i < 512" for i
    using d that tf by (auto simp: slot_eq_iff)
  show "i < 512 \<Longrightarrow> next_table m' f i = None" using zero by (simp add: next_table_def)
qed

lemma installs_tbl:
  assumes "installs m m' r q t c f" and p: "is_path p"
  shows "tbl m' r p = (if p = q @ [c] then Some f else tbl m r p)"
proof -
  note d = assms(1) [unfolded installs_def] and n = installs_next [OF assms(1)]
  have wf: "tree m r" using d by blast
  show ?thesis
  proof (cases q)
    case Nil
    then have t: "t = r" using d by simp
    have deep: "u \<noteq> r" if "next_table m r i = Some u" "i < 512" for u i
      using treeD [OF wf, of "[]" "[i]" r] that by auto
    show ?thesis
      using p by (cases rule: is_path_cases)
        (use Nil t n(2,3,4) deep in \<open>auto split: option.split\<close>)
  next
    case (Cons a q')
    then have q: "q = [a]" "a < 512" "next_table m r a = Some t" using d by (auto split: option.splits)
    have root: "r \<noteq> t" using treeD [OF wf, of "[]" "[a]" t] q by auto
    have other: "i = a" if "next_table m r i = Some t" "i < 512" for i
      using treeD [OF wf, of "[i]" "[a]" t] q that by auto
    show ?thesis
      using p
    proof (cases rule: is_path_cases)
      case (3 i j)
      then have "next_table m' r i = next_table m r i" using n(3) [of i r] root by simp
      moreover have "next_table m' u j = (if i = a \<and> j = c then Some f else next_table m u j)"
        if "next_table m r i = Some u" for u
      proof -
        have "u = t \<longleftrightarrow> i = a" using that q(3) other [of i] 3(2) by auto
        then show ?thesis using n(3) [of j u] 3(3) by simp
      qed
      ultimately show ?thesis using 3 q by (auto split: option.split)
    qed (use q root n(3) in \<open>auto split: option.split\<close>)
  qed
qed

lemma installs_tables:
  assumes "installs m m' r q t c f"
  shows "tables m' r = insert f (tables m r)"
proof -
  have q: "is_path (q @ [c])" "tbl m r (q @ [c]) = None"
    using assms installs_next(2) [OF assms] by (auto simp: installs_def is_path_def tbl_snoc)
  have "(\<exists>p. is_path p \<and> tbl m' r p = Some u) \<longleftrightarrow> u = f \<or> (\<exists>p. is_path p \<and> tbl m r p = Some u)" for u
    using installs_tbl [OF assms] q by (metis option.distinct(1) option.inject)
  then show ?thesis unfolding tables_def by auto
qed

lemma installs_tree:
  assumes "installs m m' r q t c f"
  shows "tree m' r"
  unfolding tree_def
proof (intro allI impI, elim conjE)
  fix p p' u
  assume p: "is_path p" "is_path p'" "tbl m' r p = Some u" "tbl m' r p' = Some u"
  have "tree m r" "f \<notin> tables m r" using assms by (simp_all add: installs_def)
  then show "p = p'"
    using p installs_tbl [OF assms p(1)] installs_tbl [OF assms p(2)] treeD [OF _ p(1,2)]
      tablesI [OF p(1)] tablesI [OF p(2)] by (auto split: if_splits)
qed

lemma installs_lookup:
  assumes "installs m m' r q t c f"
  shows "lookup m' r v = lookup m r v"
proof -
  note d = assms [unfolded installs_def]
  let ?p = "[v div 2 ^ 18 mod 512, v div 512 mod 512]"
  have p: "is_path ?p" and pq: "is_path q" using d by (auto simp: is_path_def)
  have entry: "m' (u * 512 + v mod 512) = m (u * 512 + v mod 512)" if "tbl m r ?p = Some u" for u
  proof -
    have "u \<noteq> t" using treeD [OF _ p pq, of m r t] d that by auto
    then show ?thesis using d by (simp add: slot_eq_iff)
  qed
  show ?thesis
  proof (cases "?p = q @ [c]")
    case True
    then have "tbl m' r ?p = Some f" using installs_tbl [OF assms p] by metis
    moreover have "tbl m r (q @ [c]) = None" using d installs_next(2) [OF assms] by (simp add: tbl_snoc)
    then have "tbl m r ?p = None" by (simp only: True)
    ultimately show ?thesis unfolding lookup_def using installs_next(5) [OF assms] by simp
  next
    case False
    then have "tbl m' r ?p = tbl m r ?p" using installs_tbl [OF assms p] by metis
    then show ?thesis unfolding lookup_def using entry by (auto split: option.split)
  qed
qed

end
