(* ===== verification/Page_Props.thy ===== *)
theory Page_Props
  imports Page_Walk
begin

text \<open>
  Correctness of the page-table operations. \<open>pt_ok K pt s\<close> is their invariant: the
  tree is well formed, its tables are frames in use, owned by the table itself or among
  the shared tables \<open>K\<close>. Every operation is described by what it does to the
  translation of all pages, and by the frames it can have written.
\<close>

unbundle bit_operations_syntax

section \<open>The invariant\<close>

definition pt_ok :: "phys_page_num set \<Rightarrow> page_table \<Rightarrow> mm_state \<Rightarrow> bool" where
  "pt_ok K pt s \<longleftrightarrow> buddy_inv s \<and> managed s \<subseteq> {..<2 ^ 44} \<and> tree (ram s) (pt_root pt) \<and>
     tables (ram s) (pt_root pt) \<inter> allocator_frames s = {} \<and>
     tables (ram s) (pt_root pt) \<subseteq> fr_ppn ` set (pt_frames pt) \<union> K \<and>
     pt_root pt \<in> fr_ppn ` set (pt_frames pt) \<and> distinct (map fr_ppn (pt_frames pt)) \<and>
     (\<forall>f\<in>set (pt_frames pt). fr_order f = 0 \<and> fr_ppn f \<in> managed s - free_ppns s)"

lemma pt_okD:
  assumes "pt_ok K pt s"
  shows "buddy_inv s" "managed s \<subseteq> {..<2 ^ 44}" "tree (ram s) (pt_root pt)"
    "tables (ram s) (pt_root pt) \<inter> allocator_frames s = {}"
    "tables (ram s) (pt_root pt) \<subseteq> fr_ppn ` set (pt_frames pt) \<union> K"
    "pt_root pt \<in> fr_ppn ` set (pt_frames pt)" "distinct (map fr_ppn (pt_frames pt))"
    "\<And>f. f \<in> set (pt_frames pt) \<Longrightarrow> fr_order f = 0"
    "\<And>f. f \<in> set (pt_frames pt) \<Longrightarrow> fr_ppn f \<in> managed s - free_ppns s"
  using assms unfolding pt_ok_def by blast+

text \<open>
  What a table operation from \<open>s\<close> to \<open>s'\<close> may do to memory: it writes its own tables
  and frames it takes from the allocator, nothing else.
\<close>

definition pt_grows :: "phys_page_num \<Rightarrow> mm_state \<Rightarrow> mm_state \<Rightarrow> bool" where
  "pt_grows r s s' \<longleftrightarrow> managed s' = managed s \<and> free_ppns s' \<subseteq> free_ppns s \<and>
     tables (ram s) r \<subseteq> tables (ram s') r \<and> tables (ram s') r \<subseteq> tables (ram s) r \<union> free_ppns s \<and>
     allocator_frames s' = allocator_frames s - (tables (ram s') r - tables (ram s) r) \<and>
     same_frames (- (allocator_frames s \<union> tables (ram s) r)) (ram s) (ram s')"

lemma pt_grows_refl [simp, intro]: "pt_grows r s s"
  by (simp add: pt_grows_def)

lemma free_allocator: "free_ppns s \<subseteq> allocator_frames s"
  by (simp add: allocator_frames_def)

lemma pt_grows_trans [trans]:
  assumes 1: "pt_grows r s s'" and 2: "pt_grows r s' s''"
  shows "pt_grows r s s''"
proof -
  have "- (allocator_frames s \<union> tables (ram s) r) \<subseteq> - (allocator_frames s' \<union> tables (ram s') r)"
    using 1 free_allocator unfolding pt_grows_def by blast
  then have "same_frames (- (allocator_frames s \<union> tables (ram s) r)) (ram s') (ram s'')"
    using 2 same_frames_mono unfolding pt_grows_def by blast
  then have "same_frames (- (allocator_frames s \<union> tables (ram s) r)) (ram s) (ram s'')"
    using 1 same_frames_trans unfolding pt_grows_def by blast
  then show ?thesis using 1 2 unfolding pt_grows_def by (simp, blast)
qed

text \<open>A store into one of the tables.\<close>

lemma store_in_use:
  assumes "buddy_inv s" "t \<notin> allocator_frames s" "i < 512"
  shows "buddy_inv (s\<lparr>ram := (ram s)(t * 512 + i := e)\<rparr>)"
    and "free_ppns (s\<lparr>ram := (ram s)(t * 512 + i := e)\<rparr>) = free_ppns s"
    and "managed (s\<lparr>ram := (ram s)(t * 512 + i := e)\<rparr>) = managed s"
    and "allocator_frames (s\<lparr>ram := (ram s)(t * 512 + i := e)\<rparr>) = allocator_frames s"
proof -
  have "same_frames (allocator_frames s) (ram s) ((ram s)(t * 512 + i := e))"
    using assms(2,3) by (auto simp: same_frames_def)
  from buddy.store [OF assms(1) this]
  show "buddy_inv (s\<lparr>ram := (ram s)(t * 512 + i := e)\<rparr>)"
    "free_ppns (s\<lparr>ram := (ram s)(t * 512 + i := e)\<rparr>) = free_ppns s"
    "managed (s\<lparr>ram := (ram s)(t * 512 + i := e)\<rparr>) = managed s"
    "allocator_frames (s\<lparr>ram := (ram s)(t * 512 + i := e)\<rparr>) = allocator_frames s"
    by (simp_all add: set_ram_def)
qed

lemma frame_alloc_some:
  assumes "frame_alloc s = (Some f, s')"
  shows "fr_order f = 0" "alloc_frame s = (Some (fr_ppn f), s')"
  using assms by (auto simp: frame_alloc_def split: prod.splits option.splits)

lemma frame_alloc_none: "frame_alloc s = (None, s') \<Longrightarrow> alloc_frame s = (None, s')"
  by (auto simp: frame_alloc_def split: prod.splits option.splits)

section \<open>Superpages\<close>

text \<open>The lower half of the address space holds no superpage.\<close>

definition no_super :: "phys_mem \<Rightarrow> phys_page_num \<Rightarrow> bool" where
  "no_super m r \<longleftrightarrow> (\<forall>p i t. is_path (p @ [i]) \<and> hd (p @ [i]) < 256 \<and> tbl m r p = Some t \<longrightarrow>
     \<not> pte_is_leaf (m (t * 512 + i)))"

lemma no_superD:
  "no_super m r \<Longrightarrow> is_path (p @ [i]) \<Longrightarrow> hd (p @ [i]) < 256 \<Longrightarrow> tbl m r p = Some t \<Longrightarrow>
    \<not> pte_is_leaf (m (t * 512 + i))"
  unfolding no_super_def by blast

lemma is_path_prefix: "is_path (p @ [i]) \<Longrightarrow> is_path p \<and> i < 512 \<and> length p \<le> 1"
  by (auto simp: is_path_def)

lemma no_super_frame:
  assumes "same_frames (tables m r) m m'" "no_super m r"
  shows "no_super m' r"
  unfolding no_super_def
proof (intro allI impI, elim conjE)
  fix p i t assume *: "is_path (p @ [i])" "hd (p @ [i]) < 256" "tbl m' r p = Some t"
  note pre = is_path_prefix [OF *(1)]
  have old: "tbl m r p = Some t" using *(3) tbl_frame [OF assms(1)] pre by simp
  then have "m' (t * 512 + i) = m (t * 512 + i)"
    using same_framesD [OF assms(1), of "t * 512 + i"] tablesI [of p] pre by simp
  then show "\<not> pte_is_leaf (m' (t * 512 + i))" using no_superD [OF assms(2) *(1,2) old] by simp
qed

lemma no_super_leaf_store:
  assumes "tree m r" "tbl m r [a, b] = Some t" "a < 512" "b < 512" "c < 512" "no_super m r"
  shows "no_super (m(t * 512 + c := e)) r"
  unfolding no_super_def
proof (intro allI impI, elim conjE)
  fix p i u assume *: "is_path (p @ [i])" "hd (p @ [i]) < 256"
    "tbl (m(t * 512 + c := e)) r p = Some u"
  note pre = is_path_prefix [OF *(1)]
  have old: "tbl m r p = Some u" using *(3) tbl_leaf_store [OF assms(1-5)] pre by simp
  have "u \<noteq> t" using treeD [OF assms(1), of p "[a, b]" t] pre old assms(2-4) by auto
  then show "\<not> pte_is_leaf ((m(t * 512 + c := e)) (u * 512 + i))"
    using no_superD [OF assms(6) *(1,2) old] pre assms(5) by (simp add: slot_eq_iff)
qed

lemma no_super_installs:
  assumes ins: "installs m m' r q t c f" and ns: "no_super m r"
  shows "no_super m' r"
  unfolding no_super_def
proof (intro allI impI, elim conjE)
  fix p i u assume *: "is_path (p @ [i])" "hd (p @ [i]) < 256" "tbl m' r p = Some u"
  note pre = is_path_prefix [OF *(1)]
  have upd: "c < 512" "m' = m(t * 512 + c := pte_new f FL_VALID)" using ins by (simp_all add: installs_def)
  show "\<not> pte_is_leaf (m' (u * 512 + i))"
  proof (cases "p = q @ [c]")
    case True
    then show ?thesis using * installs_tbl [OF ins, of p] installs_next(5) [OF ins, of i] pre by simp
  next
    case False
    then have old: "tbl m r p = Some u" using * installs_tbl [OF ins, of p] pre by simp
    show ?thesis
      using no_superD [OF ns *(1,2) old] upd pre by (auto simp: slot_eq_iff)
  qed
qed

section \<open>Walking with allocation\<close>

text \<open>One step of \<open>walk_create_loop\<close> that allocates a table.\<close>

lemma walk_step:
  assumes ok: "pt_ok K pt s" and q: "tbl (ram s) (pt_root pt) q = Some t" "length q \<le> 1"
      "set q \<subseteq> {..<512}" "c < 512"
    and inv: "\<not> pte_is_valid (ram s (t * 512 + c))" and al: "frame_alloc s = (Some f, s1)"
    and s2: "s2 = write_pte (table_at t c) (pte_new (fr_ppn f) FL_VALID) s1"
  shows "pt_ok K (pt\<lparr>pt_frames := pt_frames pt @ [f]\<rparr>) s2"
    and "\<And>p. is_path p \<Longrightarrow> tbl (ram s2) (pt_root pt) p =
           (if p = q @ [c] then Some (fr_ppn f) else tbl (ram s) (pt_root pt) p)"
    and "\<And>v. lookup (ram s2) (pt_root pt) v = lookup (ram s) (pt_root pt) v"
    and "\<And>i. i < 512 \<Longrightarrow> ram s2 (fr_ppn f * 512 + i) = 0"
    and "\<And>u i. u \<in> tables (ram s) (pt_root pt) \<Longrightarrow> i < 512 \<Longrightarrow> (u, i) \<noteq> (t, c) \<Longrightarrow>
           ram s2 (u * 512 + i) = ram s (u * 512 + i)"
    and "pt_grows (pt_root pt) s s2" and "pte_ppn (ram s2 (t * 512 + c)) = fr_ppn f"
    and "no_super (ram s) (pt_root pt) \<Longrightarrow> no_super (ram s2) (pt_root pt)"
    and "card (free_ppns s) = Suc (card (free_ppns s2))" and "fr_ppn f \<in> free_ppns s"
proof -
  let ?r = "pt_root pt" and ?p = "fr_ppn f"
  note d = pt_okD [OF ok]
  note a = frame_alloc_some [OF al]
  have b: "buddy_inv s1" "?p \<in> free_ppns s" "free_ppns s1 = free_ppns s - {?p}" "managed s1 = managed s"
    "allocator_frames s1 = allocator_frames s - {?p}"
    "same_frames (- allocator_frames s) (ram s) (ram s1)" "\<And>x. dw_frame x = ?p \<Longrightarrow> ram s1 x = 0"
    using buddy.alloc_some [OF d(1) a(2)] by blast+
  show "?p \<in> free_ppns s" by (rule b(2))
  have keep: "same_frames (tables (ram s) ?r) (ram s) (ram s1)"
    by (rule same_frames_mono [OF b(6)]) (use d(4) in blast)
  note tf = tbl_frame [OF keep] tables_frame [OF keep] tree_frame [OF keep] lookup_frame [OF keep]
  have pq: "is_path q" using q by (auto simp: is_path_def)
  have t: "t \<in> tables (ram s) ?r" by (rule tablesI [OF pq q(1)])
  have nf: "?p \<notin> tables (ram s) ?r" using b(2) d(4) free_allocator by blast
  have lim: "?p < 2 ^ 44" using b(2) free_ppns_managed [OF d(1)] d(2) by blast
  have same1: "ram s1 (u * 512 + i) = ram s (u * 512 + i)" if "u \<in> tables (ram s) ?r" "i < 512" for u i
    using same_framesD [OF keep, of "u * 512 + i"] that by simp
  have s2': "s2 = s1\<lparr>ram := (ram s1)(t * 512 + c := pte_new ?p FL_VALID)\<rparr>"
    by (simp add: s2 write_pte_slot)
  have ins: "installs (ram s1) (ram s2) ?r q t c ?p"
    unfolding installs_def using tf pq q d(3) nf lim b(7) inv same1 [OF t q(4)] by (simp add: s2')
  have tn: "t \<notin> allocator_frames s1" using t d(4) b(5) by blast
  note st = store_in_use [OF b(1) tn q(4), of "pte_new ?p FL_VALID", folded s2']
  show path2: "tbl (ram s2) ?r p = (if p = q @ [c] then Some ?p else tbl (ram s) ?r p)"
    if "is_path p" for p using installs_tbl [OF ins that] tf(1) [OF that] by simp
  show "lookup (ram s2) ?r v = lookup (ram s) ?r v" for v
    using installs_lookup [OF ins] tf(4) by simp
  show "i < 512 \<Longrightarrow> ram s2 (?p * 512 + i) = 0" for i by (rule installs_next(5) [OF ins])
  show "ram s2 (u * 512 + i) = ram s (u * 512 + i)"
    if "u \<in> tables (ram s) ?r" "i < 512" "(u, i) \<noteq> (t, c)" for u i
    using that same1 q(4) by (auto simp: s2' slot_eq_iff)
  show "pte_ppn (ram s2 (t * 512 + c)) = ?p" using pte_ppn_interior [OF lim] by (simp add: s2')
  show "no_super (ram s) ?r \<Longrightarrow> no_super (ram s2) ?r"
    using no_super_installs [OF ins] no_super_frame [OF keep] by blast
  have tab2: "tables (ram s2) ?r = insert ?p (tables (ram s) ?r)"
    using installs_tables [OF ins] tf(2) by simp
  have "same_frames (- (allocator_frames s \<union> tables (ram s) ?r)) (ram s) (ram s2)"
    using b(6) t q(4) by (auto simp: same_frames_def s2')
  then show "pt_grows ?r s s2"
    using tab2 st b nf by (auto simp: pt_grows_def)
  have "finite (free_ppns s)"
    using free_ppns_managed [OF d(1)] by (rule finite_subset) (simp add: managed_def)
  then show "card (free_ppns s) = Suc (card (free_ppns s2))"
    using b(2,3) st(2) by (metis card_Suc_Diff1)
  have "?p \<notin> fr_ppn ` set (pt_frames pt)" using d(9) b(2) by auto
  then show "pt_ok K (pt\<lparr>pt_frames := pt_frames pt @ [f]\<rparr>) s2"
    unfolding pt_ok_def using st b d(2,4,5,6,7,8,9) a(1) installs_tree [OF ins] tab2
      free_ppns_managed [OF d(1)] by auto
qed

text \<open>No superpage lies on the way to the entry at \<open>stop\<close>.\<close>

definition no_leaf :: "phys_mem \<Rightarrow> phys_page_num \<Rightarrow> usize list \<Rightarrow> usize \<Rightarrow> bool" where
  "no_leaf m r idxs stop \<longleftrightarrow>
     (\<forall>k t. k < stop \<and> tbl m r (take k idxs) = Some t \<longrightarrow> \<not> pte_is_leaf (m (t * 512 + idxs ! k)))"

lemma no_leafD:
  "no_leaf m r idxs stop \<Longrightarrow> k < stop \<Longrightarrow> tbl m r (take k idxs) = Some t \<Longrightarrow>
    \<not> pte_is_leaf (m (t * 512 + idxs ! k))"
  unfolding no_leaf_def by blast

lemma take_path: "length idxs = 3 \<Longrightarrow> set idxs \<subseteq> {..<512} \<Longrightarrow> k \<le> 2 \<Longrightarrow> is_path (take k idxs)"
  using set_take_subset [of k idxs] by (auto simp: is_path_def)

text \<open>The walk neither panics nor changes a translation, and ends at the table its path names.\<close>

definition walk_result ::
  "phys_page_num set \<Rightarrow> page_table \<Rightarrow> mm_state \<Rightarrow> usize list \<Rightarrow> usize \<Rightarrow> usize \<Rightarrow>
     phys_addr option \<Rightarrow> frame list \<Rightarrow> mm_state \<Rightarrow> bool" where
  "walk_result K pt s idxs stop level slot fs' s' \<longleftrightarrow>
     pt_ok K (pt\<lparr>pt_frames := fs'\<rparr>) s' \<and> pt_grows (pt_root pt) s s' \<and>
     (\<forall>v. lookup (ram s') (pt_root pt) v = lookup (ram s) (pt_root pt) v) \<and>
     (no_super (ram s) (pt_root pt) \<longrightarrow> no_super (ram s') (pt_root pt)) \<and>
     (\<exists>ns. fs' = pt_frames pt @ ns \<and> fr_ppn ` set ns \<subseteq> free_ppns s) \<and>
     (case slot of None \<Rightarrow> card (free_ppns s) < stop - level
      | Some a \<Rightarrow> \<exists>u. tbl (ram s') (pt_root pt) (take stop idxs) = Some u \<and> a = table_at u (idxs ! stop))"

lemma walk_create_loop_correct:
  assumes "pt_ok K pt s" "length idxs = 3" "set idxs \<subseteq> {..<512}" "stop \<le> 2" "level \<le> stop"
    and "tbl (ram s) (pt_root pt) (take level idxs) = Some t" "no_leaf (ram s) (pt_root pt) idxs stop"
  shows "\<exists>slot fs' s'. walk_create_loop level (drop level idxs) stop t (pt_frames pt) s
      = Some (slot, fs', s') \<and> walk_result K pt s idxs stop level slot fs' s'"
  using assms
proof (induction "stop - level" arbitrary: level t pt s)
  case 0
  then have "level = stop" "drop level idxs = idxs ! level # drop (Suc level) idxs"
    by (simp_all add: Cons_nth_drop_Suc)
  then show ?case using 0 by (auto simp: walk_result_def)
next
  case (Suc n)
  let ?r = "pt_root pt" and ?c = "idxs ! level"
  have lt: "level < stop" "level < 3" using Suc.hyps(2) Suc.prems(4) by simp_all
  have dr: "drop level idxs = ?c # drop (Suc level) idxs" using lt Suc.prems(2) by (simp add: Cons_nth_drop_Suc)
  have tk: "take (Suc level) idxs = take level idxs @ [?c]"
    using lt Suc.prems(2) by (simp add: take_Suc_conv_app_nth)
  have c: "?c < 512" using subsetD [OF Suc.prems(3) nth_mem [of level idxs]] lt Suc.prems(2) by simp
  have len: "length (take level idxs) \<le> 1" "set (take level idxs) \<subseteq> {..<512}"
    using lt Suc.prems(3,4) set_take_subset [of level idxs] by auto
  have nlv: "n = stop - Suc level" using Suc.hyps(2) by simp
  have tin: "t \<in> tables (ram s) ?r"
    using tablesI [OF take_path [OF Suc.prems(2,3)] Suc.prems(6)] lt Suc.prems(4) by simp
  have nl: "\<not> pte_is_leaf (ram s (t * 512 + ?c))" by (rule no_leafD [OF Suc.prems(7) lt(1) Suc.prems(6)])
  show ?case
  proof (cases "pte_is_valid (ram s (t * 512 + ?c))")
    case True
    then have "tbl (ram s) ?r (take (Suc level) idxs) = Some (pte_ppn (ram s (t * 512 + ?c)))"
      using nl Suc.prems(6) by (simp add: tk tbl_snoc next_table_def Let_def)
    from Suc.hyps(1) [OF nlv Suc.prems(1-4) _ this Suc.prems(7)] obtain slot fs' s' where
      "walk_create_loop (Suc level) (drop (Suc level) idxs) stop
         (pte_ppn (ram s (t * 512 + ?c))) (pt_frames pt) s = Some (slot, fs', s')"
      and wr: "walk_result K pt s idxs stop (Suc level) slot fs' s'" using lt by auto
    moreover have "walk_result K pt s idxs stop level slot fs' s'"
      using wr unfolding walk_result_def by (cases slot) auto
    ultimately show ?thesis using lt True by (simp add: dr read_pte_slot)
  next
    case False
    show ?thesis
    proof (cases "frame_alloc s")
      case (Pair r0 s1)
      show ?thesis
      proof (cases r0)
        case None
        then have "s1 = s" "free_ppns s = {}"
          using buddy.alloc_none [OF pt_okD(1) [OF Suc.prems(1)]] frame_alloc_none Pair by blast+
        then show ?thesis
          using Suc.prems(1) lt False Pair None by (simp add: dr read_pte_slot walk_result_def)
      next
        case (Some f)
        define s2 where "s2 = write_pte (table_at t ?c) (pte_new (fr_ppn f) FL_VALID) s1"
        let ?pt2 = "pt\<lparr>pt_frames := pt_frames pt @ [f]\<rparr>"
        note st = walk_step [OF Suc.prems(1,6) len c False Pair [unfolded Some] s2_def]
        have "tbl (ram s2) ?r (take (Suc level) idxs) = Some (fr_ppn f)"
          using st(2) [of "take (Suc level) idxs"] take_path [OF Suc.prems(2,3), of "Suc level"] lt
            Suc.prems(4) tk by simp
        moreover have "no_leaf (ram s2) ?r idxs stop"
          unfolding no_leaf_def
        proof (intro allI impI, elim conjE)
          fix k u assume k: "k < stop" and u: "tbl (ram s2) ?r (take k idxs) = Some u"
          have ck: "idxs ! k < 512" using subsetD [OF Suc.prems(3) nth_mem [of k idxs]] k Suc.prems(2,4) by simp
          have pk: "is_path (take k idxs)" using k Suc.prems(4) by (intro take_path Suc.prems) simp
          show "\<not> pte_is_leaf (ram s2 (u * 512 + idxs ! k))"
          proof (cases "take k idxs = take (Suc level) idxs")
            case True
            then show ?thesis using u st(2) [OF pk] st(4) [OF ck] tk by simp
          next
            case False
            then have old: "tbl (ram s) ?r (take k idxs) = Some u" using u st(2) [OF pk] tk by simp
            show ?thesis
            proof (cases "(u, idxs ! k) = (t, ?c)")
              case True
              then show ?thesis by (simp add: s2_def write_pte_slot)
            next
              case neq: False
              show ?thesis
                using st(5) [OF tablesI [OF pk old] ck neq] no_leafD [OF Suc.prems(7) k old] by simp
            qed
          qed
        qed
        ultimately obtain slot fs' s' where res:
          "walk_create_loop (Suc level) (drop (Suc level) idxs) stop (fr_ppn f) (pt_frames ?pt2) s2
             = Some (slot, fs', s')" "walk_result K ?pt2 s2 idxs stop (Suc level) slot fs' s'"
          using Suc.hyps(1) [of "Suc level" ?pt2 s2 "fr_ppn f", OF nlv st(1) Suc.prems(2-4)] lt by auto
        have "walk_create_loop level (drop level idxs) stop t (pt_frames pt) s = Some (slot, fs', s')"
          using res(1) lt False Pair Some st(7) by (simp add: dr read_pte_slot s2_def [symmetric] Let_def)
        moreover have "\<exists>ns. fs' = pt_frames pt @ ns \<and> fr_ppn ` set ns \<subseteq> free_ppns s"
        proof -
          obtain ns where ns: "fs' = pt_frames ?pt2 @ ns" "fr_ppn ` set ns \<subseteq> free_ppns s2"
            using res(2) unfolding walk_result_def by blast
          have "free_ppns s2 \<subseteq> free_ppns s" using st(6) by (simp add: pt_grows_def)
          then show ?thesis using ns st(10) by (intro exI [of _ "f # ns"]) auto
        qed
        then have "walk_result K pt s idxs stop level slot fs' s'"
          using res(2) st(3,8,9) lt pt_grows_trans [OF st(6)] unfolding walk_result_def
          by (cases slot) auto
        ultimately show ?thesis by blast
      qed
    qed
  qed
qed

section \<open>Mapping\<close>

lemma indices_facts:
  "length (vpn_indices v) = 3" "set (vpn_indices v) \<subseteq> {..<512}"
  "take 2 (vpn_indices v) = [v div 2 ^ 18 mod 512, v div 512 mod 512]" "vpn_indices v ! 2 = v mod 512"
  by (simp_all add: vpn_indices_eq)

lemma no_super_no_leaf:
  assumes "no_super m r" "v < 2 ^ 26"
  shows "no_leaf m r (vpn_indices v) 2"
  unfolding no_leaf_def
proof (intro allI impI, elim conjE)
  fix k t assume k: "k < 2" and t: "tbl m r (take k (vpn_indices v)) = Some t"
  have "v div 2 ^ 18 < 256" using assms(2) by (simp add: div_less_iff_less_mult)
  then have hd: "v div 2 ^ 18 mod 512 < 256" by simp
  consider "k = 0" | "k = 1" using k by linarith
  then show "\<not> pte_is_leaf (m (t * 512 + vpn_indices v ! k))"
    using t hd no_superD [OF assms(1), of "take k (vpn_indices v)" "vpn_indices v ! k" t]
    by cases (simp_all add: vpn_indices_eq)
qed

text \<open>A store into the leaf table of page \<open>v\<close>.\<close>

lemma leaf_store:
  assumes ok: "pt_ok K pt s" and v: "v < 2 ^ 27"
    and t: "tbl (ram s) (pt_root pt) [v div 2 ^ 18 mod 512, v div 512 mod 512] = Some t"
    and s': "s' = write_pte (table_at t (v mod 512)) e s"
  shows "pt_ok K pt s'" "pt_grows (pt_root pt) s s'"
    and "\<And>v'. v' < 2 ^ 27 \<Longrightarrow> pt_translate pt v' s' =
           (if v' = v then (if pte_is_valid e then Some e else None) else pt_translate pt v' s)"
    and "no_super (ram s) (pt_root pt) \<Longrightarrow> no_super (ram s') (pt_root pt)"
    and "free_ppns s' = free_ppns s"
proof -
  let ?r = "pt_root pt"
  note d = pt_okD [OF ok]
  have s2: "s' = s\<lparr>ram := (ram s)(t * 512 + v mod 512 := e)\<rparr>" by (simp add: s' write_pte_slot)
  have p: "is_path [v div 2 ^ 18 mod 512, v div 512 mod 512]" by simp
  have tin: "t \<in> tables (ram s) ?r" by (rule tablesI [OF p t])
  then have "t \<notin> allocator_frames s" using d(4) by blast
  note st = store_in_use [OF d(1) this, of "v mod 512" e, simplified, folded s2]
  have lt: "v div 2 ^ 18 mod 512 < 512" "v div 512 mod 512 < 512" "v mod 512 < 512" by simp_all
  have ram': "ram s' = (ram s)(t * 512 + v mod 512 := e)" by (simp add: s2)
  have same: "tbl (ram s') ?r q = tbl (ram s) ?r q" if "is_path q" for q
    unfolding ram' by (rule tbl_leaf_store [OF d(3) t lt that])
  have tab: "tables (ram s') ?r = tables (ram s) ?r" "tree (ram s') ?r"
    using same d(3) by (auto simp: tables_def tree_def)
  show "pt_ok K pt s'" using ok tab st unfolding pt_ok_def by simp
  have "same_frames (- (allocator_frames s \<union> tables (ram s) ?r)) (ram s) (ram s')"
    using tin lt(3) by (auto simp: same_frames_def ram')
  then show "pt_grows ?r s s'" using tab st by (simp add: pt_grows_def)
  show "pt_translate pt v' s' =
      (if v' = v then (if pte_is_valid e then Some e else None) else pt_translate pt v' s)"
    if "v' < 2 ^ 27" for v'
    unfolding pt_translate_lookup ram' by (rule lookup_leaf_store [OF d(3) t lt v that refl])
  show "no_super (ram s) ?r \<Longrightarrow> no_super (ram s') ?r"
    unfolding ram' by (rule no_super_leaf_store [OF d(3) t lt])
  show "free_ppns s' = free_ppns s" by (rule st)
qed

text \<open>The entry \<open>pt_map\<close> installs.\<close>

definition leaf_pte :: "phys_page_num \<Rightarrow> pte_flags \<Rightarrow> pte" where
  "leaf_pte ppn flags = pte_new ppn (flags OR FL_VALID OR FL_ACCESSED OR FL_DIRTY)"

lemma leaf_pte_valid [simp]: "pte_is_valid (leaf_pte ppn flags)"
  unfolding leaf_pte_def by (rule pte_new_leaf_valid)

text \<open>The three outcomes of \<open>pt_map\<close>.\<close>

lemma pt_map_cases:
  assumes ok: "pt_ok K pt s" and v: "v < 2 ^ 27" and nl: "no_leaf (ram s) (pt_root pt) (vpn_indices v) 2"
  obtains res pt' s' where "pt_map v ppn flags pt s = Some (res, pt', s')" "pt_root pt' = pt_root pt"
    "pt_ok K pt' s'" "pt_grows (pt_root pt) s s'"
    "no_super (ram s) (pt_root pt) \<Longrightarrow> no_super (ram s') (pt_root pt)"
    "\<exists>ns. pt_frames pt' = pt_frames pt @ ns \<and> fr_ppn ` set ns \<subseteq> free_ppns s"
    "res = Inr () \<and> pt_translate pt v s = None \<and> (\<forall>v'<2 ^ 27. pt_translate pt' v' s' =
         (if v' = v then Some (leaf_pte ppn flags) else pt_translate pt v' s))
     \<or> res = Inl AlreadyMapped \<and> pt_translate pt v s \<noteq> None \<and> (\<forall>v'. pt_translate pt' v' s' = pt_translate pt v' s)
     \<or> res = Inl MapOutOfMemory \<and> card (free_ppns s) < 2 \<and> (\<forall>v'. pt_translate pt' v' s' = pt_translate pt v' s)"
proof -
  let ?r = "pt_root pt" and ?e = "leaf_pte ppn flags"
  have "tbl (ram s) ?r (take 0 (vpn_indices v)) = Some ?r" by simp
  from walk_create_loop_correct [OF ok indices_facts(1,2) le_refl _ this nl]
  obtain slot fs' s1 where w: "walk_create_loop 0 (vpn_indices v) 2 ?r (pt_frames pt) s = Some (slot, fs', s1)"
    and wr: "walk_result K pt s (vpn_indices v) 2 0 slot fs' s1" by auto
  let ?pt = "pt\<lparr>pt_frames := fs'\<rparr>"
  have ok1: "pt_ok K ?pt s1" and g1: "pt_grows ?r s s1"
    and look1: "lookup (ram s1) ?r v' = lookup (ram s) ?r v'"
    and ns1: "no_super (ram s) ?r \<Longrightarrow> no_super (ram s1) ?r"
    and fs1: "\<exists>ns. pt_frames ?pt = pt_frames pt @ ns \<and> fr_ppn ` set ns \<subseteq> free_ppns s" for v'
    using wr unfolding walk_result_def by simp_all
  have same1: "pt_translate ?pt v' s1 = pt_translate pt v' s" for v'
    by (simp add: pt_translate_lookup look1)
  have two: "level_page_size 2 = Some 4096" by (simp add: level_page_size_def checked_sub_def)
  show ?thesis
  proof (cases slot)
    case None
    then have "card (free_ppns s) < 2" using wr by (simp add: walk_result_def)
    moreover have "pt_map v ppn flags pt s = Some (Inl MapOutOfMemory, ?pt, s1)"
      using w None by (simp add: pt_map_def pt_map_at_level_def two walk_create_to_def)
    ultimately show ?thesis using that [OF _ _ ok1 g1 ns1 fs1] same1 by simp
  next
    case (Some a)
    then obtain u where u: "tbl (ram s1) ?r [v div 2 ^ 18 mod 512, v div 512 mod 512] = Some u"
      and a: "a = table_at u (v mod 512)" using wr by (auto simp: walk_result_def indices_facts)
    have "lookup (ram s1) ?r v = (if pte_is_valid (read_pte s1 a) then Some (read_pte s1 a) else None)"
      unfolding lookup_def u by (simp add: a read_pte_slot)
    then have valid: "pte_is_valid (read_pte s1 a) \<longleftrightarrow> pt_translate pt v s \<noteq> None"
      unfolding pt_translate_lookup look1 by simp
    have map: "pt_map v ppn flags pt s = Some (if pte_is_valid (read_pte s1 a)
        then (Inl AlreadyMapped, ?pt, s1) else (Inr (), ?pt, write_pte a ?e s1))"
      using w Some by (simp add: pt_map_def pt_map_at_level_def two walk_create_to_def leaf_pte_def)
    show ?thesis
    proof (cases "pte_is_valid (read_pte s1 a)")
      case True
      then show ?thesis using that [OF _ _ ok1 g1 ns1 fs1] same1 map valid by simp
    next
      case False
      have root: "pt_root ?pt = ?r" by simp
      note st = leaf_store [OF ok1 v, unfolded root, OF u refl, where e = ?e, folded a]
      have "pt_grows ?r s (write_pte a ?e s1)" using pt_grows_trans [OF g1 st(2)] .
      then show ?thesis
        using that [of "Inr ()" ?pt "write_pte a ?e s1"] st(1,3,4) ns1 fs1 map valid False same1 by simp
    qed
  qed
qed

end
