(* ===== verification/Page_Correct.thy ===== *)
theory Page_Correct
  imports Page_Props
begin

text \<open>The properties of page tables, for creation, mapping, sharing and destruction.\<close>

unbundle bit_operations_syntax

section \<open>A new table\<close>

lemma cleared_root:
  assumes "\<And>d. dw_frame d = r \<Longrightarrow> m d = 0"
  shows "tables m r = {r}" "tree m r" "lookup m r v = None" "no_super m r"
proof -
  have z: "m (r * 512 + i) = 0" if "i < 512" for i using that assms [of "r * 512 + i"] by simp
  then have n: "next_table m r i = None" if "i < 512" for i using that by (simp add: next_table_def)
  have t: "tbl m r p = (if p = [] then Some r else None)" if "is_path p" for p
    using that by (cases rule: is_path_cases) (simp_all add: n)
  then show "tables m r = {r}" "tree m r"
    by (auto simp: tables_def tree_def split: if_splits intro: exI [of _ "[]"])
  show "lookup m r v = None"
    using t [of "[v div 2 ^ 18 mod 512, v div 512 mod 512]"] by (simp add: lookup_def)
  show "no_super m r"
    unfolding no_super_def
  proof (intro allI impI, elim conjE)
    fix p i u assume *: "is_path (p @ [i])" "tbl m r p = Some u"
    then have "u = r" "i < 512" using t [of p] is_path_prefix [OF *(1)] by (auto split: if_splits)
    then show "\<not> pte_is_leaf (m (u * 512 + i))" by (simp add: z)
  qed
qed

lemma pt_new_some:
  assumes inv: "buddy_inv s" "managed s \<subseteq> {..<2 ^ 44}" and new: "pt_new s = (Some pt, s')"
  shows "pt_ok {} pt s'" "pt_translate pt v s' = None" "no_super (ram s') (pt_root pt)"
    and "pt_root pt \<in> free_ppns s" "free_ppns s' = free_ppns s - {pt_root pt}"
    and "managed s' = managed s" "allocator_frames s' = allocator_frames s - {pt_root pt}"
    and "same_frames (- allocator_frames s) (ram s) (ram s')"
    and "tables (ram s') (pt_root pt) = {pt_root pt}"
proof -
  obtain f where f: "frame_alloc s = (Some f, s')" and pt: "pt = \<lparr>pt_root = fr_ppn f, pt_frames = [f]\<rparr>"
    using new by (auto simp: pt_new_def split: prod.splits option.splits)
  note a = frame_alloc_some [OF f] and b = buddy.alloc_some [OF inv(1) frame_alloc_some(2) [OF f]]
  have "\<And>d. dw_frame d = fr_ppn f \<Longrightarrow> ram s' d = 0" using b by blast
  note z = cleared_root [OF this]
  have "fr_ppn f \<in> managed s" using b free_ppns_managed [OF inv(1)] by blast
  then show "pt_ok {} pt s'" using b a z inv by (auto simp: pt_ok_def pt)
  show "pt_translate pt v s' = None" "no_super (ram s') (pt_root pt)"
    "tables (ram s') (pt_root pt) = {pt_root pt}"
    using z by (simp_all add: pt_translate_lookup pt)
  show "pt_root pt \<in> free_ppns s" "free_ppns s' = free_ppns s - {pt_root pt}" "managed s' = managed s"
    "allocator_frames s' = allocator_frames s - {pt_root pt}"
    "same_frames (- allocator_frames s) (ram s) (ram s')"
    using b by (simp_all add: pt)
qed

lemma pt_new_none:
  "buddy_inv s \<Longrightarrow> pt_new s = (None, s') \<Longrightarrow> s' = s \<and> free_ppns s = {}"
  using buddy.alloc_none [of s s'] frame_alloc_none [of s s']
  by (auto simp: pt_new_def split: prod.splits option.splits)

text \<open>A table on the small machine.\<close>

lemma small_pt:
  obtains pt s where "pt_new small_mm = (Some pt, s)" "pt_ok {} pt s" "no_super (ram s) (pt_root pt)"
    "\<And>v. pt_translate pt v s = None"
proof (cases "pt_new small_mm")
  case (Pair r s)
  have m: "managed small_mm \<subseteq> {..<2 ^ 44}" by (auto simp: managed_def small_mm_facts)
  have "free_ppns small_mm \<noteq> {}" by (simp add: small_mm_free)
  then obtain pt where r: "r = Some pt" using pt_new_none [OF small_mm_facts(1)] Pair by (cases r) auto
  then show ?thesis using that pt_new_some [OF small_mm_facts(1) m] Pair by blast
qed

text \<open>The same with page 5 mapped to frame 1030.\<close>

lemma small_mapped:
  obtains pt s where "pt_ok {} pt s" "pt_translate pt 5 s = Some (leaf_pte 1030 FL_RW)"
proof -
  obtain pt s where p: "pt_new small_mm = (Some pt, s)" "pt_ok {} pt s" "no_super (ram s) (pt_root pt)"
    "\<And>v. pt_translate pt v s = None" by (rule small_pt) blast
  have m: "managed small_mm \<subseteq> {..<2 ^ 44}" by (auto simp: managed_def small_mm_facts)
  have free: "free_ppns s = {1024..<1028} - {pt_root pt}" "pt_root pt \<in> {1024..<1028}"
    using pt_new_some(4,5) [OF small_mm_facts(1) m p(1)] by (simp_all add: small_mm_free)
  then have "card (free_ppns s) = 3" by simp
  moreover have "no_leaf (ram s) (pt_root pt) (vpn_indices 5) 2" by (rule no_super_no_leaf [OF p(3)]) simp
  ultimately show ?thesis
    by (rule_tac pt_map_cases [OF p(2), of 5 1030 FL_RW]) (use that p(4) in auto)
qed

section \<open>Sharing the kernel half\<close>

lemma share_ram:
  "ram (pt_share_upper_half kern pt s) d =
     (if \<exists>i. 256 \<le> i \<and> i < 512 \<and> d = pt_root pt * 512 + i
      then ram s (pt_root kern * 512 + (d - pt_root pt * 512)) else ram s d)"
  "fa (pt_share_upper_half kern pt s) = fa s"
proof -
  let ?w = "\<lambda>i. write_pte (table_at (pt_root pt) i) (read_pte s (table_at (pt_root kern) i))"
  have gen: "ram (fold ?w is s0) d = (if \<exists>i. i \<in> set is \<and> d = pt_root pt * 512 + i
      then ram s (pt_root kern * 512 + (d - pt_root pt * 512)) else ram s0 d) \<and> fa (fold ?w is s0) = fa s0"
    for "is" s0
    by (induction "is" arbitrary: s0) (auto simp: write_pte_slot read_pte_slot)
  have "(512::nat) div 2 = 256" by simp
  then have mem: "i \<in> set [512 div 2..<512] \<and> P \<longleftrightarrow> 256 \<le> i \<and> i < 512 \<and> P" for i :: nat and P
    by (simp only: set_upt atLeastLessThan_iff conj_assoc)
  show "ram (pt_share_upper_half kern pt s) d =
      (if \<exists>i. 256 \<le> i \<and> i < 512 \<and> d = pt_root pt * 512 + i
       then ram s (pt_root kern * 512 + (d - pt_root pt * 512)) else ram s d)"
    "fa (pt_share_upper_half kern pt s) = fa s"
    unfolding pt_share_upper_half_def using gen [of "[512 div 2..<512]" s, unfolded mem] by blast+
qed

lemma share_slot:
  assumes "i < 512"
  shows "ram (pt_share_upper_half kern pt s) (t * 512 + i) =
    (if t = pt_root pt \<and> 256 \<le> i then ram s (pt_root kern * 512 + i) else ram s (t * 512 + i))"
proof -
  have "(\<exists>j. 256 \<le> j \<and> j < 512 \<and> t * 512 + i = pt_root pt * 512 + j) \<longleftrightarrow> t = pt_root pt \<and> 256 \<le> i"
    using assms by (auto simp: slot_eq_iff)
  then show ?thesis unfolding share_ram by auto
qed

text \<open>Paths into the upper half are the kernel's, all others are as before.\<close>

lemma share_tbl:
  assumes "tree (ram s) (pt_root pt)" "tables (ram s) (pt_root kern) \<inter> tables (ram s) (pt_root pt) = {}"
    and p: "is_path p"
  shows "tbl (ram (pt_share_upper_half kern pt s)) (pt_root pt) p =
    tbl (ram s) (if p \<noteq> [] \<and> 256 \<le> hd p then pt_root kern else pt_root pt) p"
proof -
  let ?m = "ram s" and ?m' = "ram (pt_share_upper_half kern pt s)" and ?r = "pt_root pt" and ?k = "pt_root kern"
  have root: "next_table ?m' ?r i = next_table ?m (if 256 \<le> i then ?k else ?r) i" if "i < 512" for i
    using that by (simp add: next_table_def share_slot)
  have below: "next_table ?m' u j = next_table ?m u j"
    if "next_table ?m (if 256 \<le> i then ?k else ?r) i = Some u" "i < 512" "j < 512" for u i j
  proof -
    have "u \<noteq> ?r"
    proof (cases "256 \<le> i")
      case True
      then have "u \<in> tables ?m ?k" using that tablesI [of "[i]" ?m ?k u] by simp
      then show ?thesis using assms(2) by auto
    next
      case False
      then show ?thesis using treeD [OF assms(1), of "[i]" "[]" u] that by auto
    qed
    then show ?thesis using that(3) by (simp add: next_table_def share_slot)
  qed
  show ?thesis
    using p
  proof (cases rule: is_path_cases)
    case (3 a b)
    let ?q = "if 256 \<le> a then ?k else ?r"
    have "tbl ?m' ?r [a, b] = (case next_table ?m ?q a of None \<Rightarrow> None | Some u \<Rightarrow> next_table ?m' u b)"
      using root [of a] 3 by (simp split: option.split)
    also have "\<dots> = tbl ?m ?q [a, b]" using below [of a _ b] 3 by (auto split: option.split)
    finally show ?thesis using 3 by simp
  qed (use root in \<open>simp_all split: option.split\<close>)
qed

lemma share_lookup:
  assumes "tree (ram s) (pt_root pt)" "tables (ram s) (pt_root kern) \<inter> tables (ram s) (pt_root pt) = {}"
  shows "lookup (ram (pt_share_upper_half kern pt s)) (pt_root pt) v =
    lookup (ram s) (if 256 \<le> v div 2 ^ 18 mod 512 then pt_root kern else pt_root pt) v"
proof -
  let ?a = "v div 2 ^ 18 mod 512" and ?b = "v div 512 mod 512"
  let ?m = "ram s" and ?m' = "ram (pt_share_upper_half kern pt s)" and ?r = "pt_root pt"
  let ?q = "if 256 \<le> ?a then pt_root kern else ?r"
  have p: "is_path [?a, ?b]" by simp
  have t: "tbl ?m' ?r [?a, ?b] = tbl ?m ?q [?a, ?b]" using share_tbl [OF assms p] by (simp only: list.sel) simp
  have "?m' (u * 512 + v mod 512) = ?m (u * 512 + v mod 512)" if "tbl ?m ?q [?a, ?b] = Some u" for u
  proof -
    have "u \<noteq> ?r"
    proof (cases "256 \<le> ?a")
      case True
      then have "tbl ?m (pt_root kern) [?a, ?b] = Some u" using that by (simp only: if_True)
      then have "u \<in> tables ?m (pt_root kern)" by (rule tablesI [OF p])
      then show ?thesis using assms(2) by auto
    next
      case False
      then have "tbl ?m ?r [?a, ?b] = Some u" using that by (simp only: if_False)
      then show ?thesis using treeD [OF assms(1) p, of "[]" u] by auto
    qed
    then show ?thesis by (simp add: share_slot)
  qed
  then show ?thesis unfolding lookup_def t by (auto simp del: tbl.simps split: option.split)
qed

lemma share_ok:
  assumes k: "pt_ok K kern s" and p: "pt_ok J pt s"
    and disj: "tables (ram s) (pt_root kern) \<inter> tables (ram s) (pt_root pt) = {}"
  defines "s' \<equiv> pt_share_upper_half kern pt s"
  shows "pt_ok (J \<union> tables (ram s) (pt_root kern)) pt s'" and "pt_ok K kern s'"
    and "pt_translate kern v s' = pt_translate kern v s"
    and "same_frames (- {pt_root pt}) (ram s) (ram s')" "free_ppns s' = free_ppns s"
proof -
  let ?m = "ram s" and ?m' = "ram s'" and ?r = "pt_root pt" and ?k = "pt_root kern"
  note dk = pt_okD [OF k] and dp = pt_okD [OF p]
  have t: "tbl ?m' ?r q = tbl ?m (if q \<noteq> [] \<and> 256 \<le> hd q then ?k else ?r) q" if "is_path q" for q
    unfolding s'_def by (rule share_tbl [OF dp(3) disj that])
  have s': "s' = s\<lparr>ram := ram s'\<rparr>" by (simp add: s'_def share_ram(2))
  show fr: "same_frames (- {?r}) ?m ?m'"
    unfolding same_frames_def s'_def share_ram by auto
  have "?r \<notin> allocator_frames s" using dp(4) root_in_tables [of ?r ?m] by blast
  then have "same_frames (allocator_frames s) ?m ?m'" by (intro same_frames_mono [OF fr]) auto
  from buddy.store [OF dp(1) this] have st: "buddy_inv s'" "free_ppns s' = free_ppns s"
    "managed s' = managed s" "allocator_frames s' = allocator_frames s"
    using s' by (simp_all add: set_ram_def)
  show "free_ppns s' = free_ppns s" by (rule st(2))
  have kf: "same_frames (tables ?m ?k) ?m ?m'"
    using disj root_in_tables [of ?r ?m] by (intro same_frames_mono [OF fr]) auto
  note kt = tables_frame [OF kf] tree_frame [OF kf] lookup_frame [OF kf]
  show "pt_ok K kern s'" using k st kt unfolding pt_ok_def by simp
  show "pt_translate kern v s' = pt_translate kern v s" using kt by (simp add: pt_translate_lookup)
  have sub: "tables ?m' ?r \<subseteq> tables ?m ?r \<union> tables ?m ?k"
    using t tablesI unfolding tables_def by (auto split: if_splits)
  have "tree ?m' ?r"
    unfolding tree_def
  proof (intro allI impI, elim conjE)
    fix q q' u assume q: "is_path q" "is_path q'" "tbl ?m' ?r q = Some u" "tbl ?m' ?r q' = Some u"
    show "q = q'"
      using q(3,4) t [OF q(1)] t [OF q(2)] treeD [OF dp(3) q(1,2)] treeD [OF dk(3) q(1,2)]
        tablesI [OF q(1)] tablesI [OF q(2)] disj by (simp split: if_splits) blast+
  qed
  then show "pt_ok (J \<union> tables ?m ?k) pt s'"
    using p st sub dk(4) unfolding pt_ok_def by auto
qed

section \<open>Properties\<close>

text \<open>
  C5: \<open>pt_map\<close> on a page whose path holds no superpage never panics. It fails
  only when the page is mapped already or fewer than two frames are free, the most
  it may need for tables. When it succeeds, this page translates to the given frame and flags and every other page as
  before. A failed call changes no translation. In each case the tree stays well
  formed and only tables and frames taken from the allocator are written.
\<close>

theorem pt_map_correct:
  assumes "pt_ok K pt s" and "v < 2 ^ 27" and "no_leaf (ram s) (pt_root pt) (vpn_indices v) 2"
  shows "\<exists>res pt' s'. pt_map v ppn flags pt s = Some (res, pt', s') \<and> pt_ok K pt' s' \<and>
    pt_grows (pt_root pt) s s' \<and>
    (case res of
       Inr _ \<Rightarrow> pt_translate pt v s = None \<and>
         (\<forall>v'<2 ^ 27. pt_translate pt' v' s' =
            (if v' = v then Some (leaf_pte ppn flags) else pt_translate pt v' s))
     | Inl e \<Rightarrow> (e = AlreadyMapped \<and> pt_translate pt v s \<noteq> None \<or>
                 e = MapOutOfMemory \<and> card (free_ppns s) < 2) \<and>
         (\<forall>v'. pt_translate pt' v' s' = pt_translate pt v' s))"
proof -
  obtain res pt' s' where m: "pt_map v ppn flags pt s = Some (res, pt', s')" "pt_ok K pt' s'"
    "pt_grows (pt_root pt) s s'"
    "res = Inr () \<and> pt_translate pt v s = None \<and> (\<forall>v'<2 ^ 27. pt_translate pt' v' s' =
         (if v' = v then Some (leaf_pte ppn flags) else pt_translate pt v' s))
     \<or> res = Inl AlreadyMapped \<and> pt_translate pt v s \<noteq> None \<and> (\<forall>v'. pt_translate pt' v' s' = pt_translate pt v' s)
     \<or> res = Inl MapOutOfMemory \<and> card (free_ppns s) < 2 \<and> (\<forall>v'. pt_translate pt' v' s' = pt_translate pt v' s)"
    by (rule pt_map_cases [OF assms, of ppn flags])
  show ?thesis
    by (rule exI [of _ res], rule exI [of _ pt'], rule exI [of _ s']) (use m in auto)
qed

theorem pt_map_correct_witness:
  "\<exists>pt s res pt' s'. pt_new small_mm = (Some pt, s) \<and> pt_map 5 1030 FL_RW pt s = Some (res, pt', s') \<and>
     (res = Inr () \<longrightarrow> pt_translate pt' 5 s' = Some (leaf_pte 1030 FL_RW))"
proof -
  obtain pt s where p: "pt_new small_mm = (Some pt, s)" "pt_ok {} pt s" "no_super (ram s) (pt_root pt)"
    by (rule small_pt)
  have "no_leaf (ram s) (pt_root pt) (vpn_indices 5) 2" by (rule no_super_no_leaf [OF p(3)]) simp
  from pt_map_correct [OF p(2) _ this, of 1030 FL_RW] p(1) show ?thesis by fastforce
qed

text \<open>
  C6: \<open>pt_unmap\<close> returns the frame the page was mapped to, removes this
  translation and no other, and fails exactly on a page that is not mapped.
\<close>

theorem pt_unmap_correct:
  assumes "pt_ok K pt s" and "v < 2 ^ 27"
  shows "case pt_translate pt v s of
      None \<Rightarrow> pt_unmap v pt s = (Inl NotMapped, s)
    | Some e \<Rightarrow> \<exists>s'. pt_unmap v pt s = (Inr (pte_ppn e), s') \<and> pt_ok K pt s' \<and>
        (\<forall>v'<2 ^ 27. pt_translate pt v' s' = (if v' = v then None else pt_translate pt v' s))"
proof (cases "tbl (ram s) (pt_root pt) [v div 2 ^ 18 mod 512, v div 512 mod 512]")
  case None
  then have "walk_ptr pt v s = None" unfolding walk_ptr_tbl by (simp only: option.map)
  then show ?thesis by (simp add: pt_unmap_def pt_translate_def walk_read_def)
next
  case (Some t)
  then have w: "walk_ptr pt v s = Some (table_at t (v mod 512))" unfolding walk_ptr_tbl by (simp only: option.map)
  note st = leaf_store [OF assms Some refl, where e = 0]
  show ?thesis
    using st(1,3) by (auto simp: pt_unmap_def pt_translate_def walk_read_def w split: option.split)
qed

theorem pt_unmap_correct_witness:
  "\<exists>pt s s'. pt_unmap 5 pt s = (Inr (pte_ppn (leaf_pte 1030 FL_RW)), s') \<and> pt_translate pt 5 s' = None"
proof -
  obtain pt s where "pt_ok {} pt s" "pt_translate pt 5 s = Some (leaf_pte 1030 FL_RW)"
    by (rule small_mapped)
  with pt_unmap_correct [OF this(1), of 5] show ?thesis by fastforce
qed

text \<open>
  \<open>pt_protect\<close> replaces the flags of a mapped page and keeps its frame
  and every other translation; it fails exactly on a page that is not mapped.
\<close>

theorem pt_protect_correct:
  assumes "pt_ok K pt s" and "v < 2 ^ 27" and "flags AND NOT FLAG_MASK = 0"
  shows "case pt_translate pt v s of
      None \<Rightarrow> pt_protect v flags pt s = (Inl NotMapped, s)
    | Some e \<Rightarrow> \<exists>e' s'. pt_protect v flags pt s = (Inr (), s') \<and> pt_ok K pt s' \<and>
        pte_ppn e' = pte_ppn e \<and> pte_flags e' = flags OR FL_VALID OR FL_ACCESSED OR FL_DIRTY \<and>
        (\<forall>v'<2 ^ 27. pt_translate pt v' s' = (if v' = v then Some e' else pt_translate pt v' s))"
proof (cases "tbl (ram s) (pt_root pt) [v div 2 ^ 18 mod 512, v div 512 mod 512]")
  case None
  then have "walk_ptr pt v s = None" unfolding walk_ptr_tbl by (simp only: option.map)
  then show ?thesis by (simp add: pt_protect_def pt_translate_def walk_read_def)
next
  case (Some t)
  then have w: "walk_ptr pt v s = Some (table_at t (v mod 512))" unfolding walk_ptr_tbl by (simp only: option.map)
  define e where "e = read_pte s (table_at t (v mod 512))"
  define e' where "e' = pte_set_flags (flags OR FL_VALID OR FL_ACCESSED OR FL_DIRTY) e"
  note st = leaf_store [OF assms(1,2) Some refl, where e = e']
  have valid: "pte_is_valid e'" by (simp add: e'_def pte_set_flags_def pt_simps bit_simps)
  have kept: "pte_ppn e' = pte_ppn e" "pte_flags e' = flags OR FL_VALID OR FL_ACCESSED OR FL_DIRTY"
    unfolding e'_def using pte_set_flags_ppn pte_set_flags_flags leaf_flags_low [OF assms(3)] by blast+
  have "pt_translate pt v s = (if pte_is_valid e then Some e else None)"
    by (simp add: pt_translate_def walk_read_def w e_def)
  moreover have "pt_protect v flags pt s = (if pte_is_valid e
      then (Inr (), write_pte (table_at t (v mod 512)) e' s) else (Inl NotMapped, s))"
    by (simp add: pt_protect_def w e_def e'_def)
  ultimately show ?thesis
    using st(1,3) valid kept by (cases "pte_is_valid e") auto
qed

theorem pt_protect_correct_witness:
  "\<exists>pt s e' s'. pt_protect 5 FL_READ pt s = (Inr (), s') \<and> pt_translate pt 5 s' = Some e' \<and>
     pte_flags e' = FL_READ OR FL_VALID OR FL_ACCESSED OR FL_DIRTY"
proof -
  obtain pt s where "pt_ok {} pt s" "pt_translate pt 5 s = Some (leaf_pte 1030 FL_RW)"
    by (rule small_mapped)
  with pt_protect_correct [OF this(1), of 5 FL_READ] show ?thesis by fastforce
qed

text \<open>
  C7: After sharing the upper half of a kernel table, every address of the upper
  half translates as in the kernel and every other as before; the kernel's table and
  its translations are untouched, and the new table is well formed again.
\<close>

theorem pt_share_upper_half_correct:
  assumes "pt_ok {} kern s" and "pt_ok {} pt s"
    and "tables (ram s) (pt_root kern) \<inter> tables (ram s) (pt_root pt) = {}"
  shows "pt_translate pt v (pt_share_upper_half kern pt s) =
      (if PTE_PER_TABLE div 2 \<le> vpn_indices v ! 0 then pt_translate kern v s else pt_translate pt v s) \<and>
    pt_translate kern v (pt_share_upper_half kern pt s) = pt_translate kern v s \<and>
    pt_ok (tables (ram s) (pt_root kern)) pt (pt_share_upper_half kern pt s) \<and>
    pt_ok {} kern (pt_share_upper_half kern pt s)"
proof -
  have "pt_translate pt v (pt_share_upper_half kern pt s) =
      (if PTE_PER_TABLE div 2 \<le> vpn_indices v ! 0 then pt_translate kern v s else pt_translate pt v s)"
    unfolding pt_translate_lookup share_lookup [OF pt_okD(3) [OF assms(2)] assms(3)]
    by (simp add: vpn_indices_eq)
  then show ?thesis using share_ok [OF assms] by simp
qed

theorem pt_share_upper_half_correct_witness:
  "\<exists>kern pt s. pt_ok {} kern s \<and> pt_root pt \<noteq> pt_root kern \<and>
     pt_translate pt (2 ^ 26) (pt_share_upper_half kern pt s) = pt_translate kern (2 ^ 26) s"
proof -
  obtain kern s where k: "pt_new small_mm = (Some kern, s)" "pt_ok {} kern s" by (rule small_pt)
  have m: "managed small_mm \<subseteq> {..<2 ^ 44}" by (auto simp: managed_def small_mm_facts)
  note ks = pt_new_some [OF small_mm_facts(1) m k(1)]
  obtain r s2 where n: "pt_new s = (r, s2)" by (cases "pt_new s")
  have "free_ppns s = {1024..<1028} - {pt_root kern}" using ks(5) by (simp add: small_mm_free)
  then have "1024 \<in> free_ppns s \<or> 1025 \<in> free_ppns s" by auto
  then obtain pt where r: "r = Some pt" using pt_new_none [OF pt_okD(1) [OF k(2)]] n by (cases r) auto
  note ps = pt_new_some [OF pt_okD(1,2) [OF k(2)] n [unfolded r]]
  have "same_frames (tables (ram s) (pt_root kern)) (ram s) (ram s2)"
    by (rule same_frames_mono [OF ps(8)]) (use pt_okD(4) [OF k(2)] in blast)
  note kf = tables_frame [OF this] tree_frame [OF this]
  have neq: "pt_root pt \<noteq> pt_root kern" using ps(4) ks(5) by auto
  have "pt_ok {} kern s2"
    using k(2) kf ps neq ks(9) unfolding pt_ok_def by auto
  moreover have "tables (ram s2) (pt_root kern) \<inter> tables (ram s2) (pt_root pt) = {}"
    using kf ks(9) ps(9) neq by auto
  ultimately have "pt_translate pt (2 ^ 26) (pt_share_upper_half kern pt s2) = pt_translate kern (2 ^ 26) s2"
    using pt_share_upper_half_correct [OF _ ps(1), where kern = kern and v = "2 ^ 26"] by (simp add: vpn_indices_eq)
  then show ?thesis using \<open>pt_ok {} kern s2\<close> neq by blast
qed

text \<open>
  C8: Dropping a page table releases exactly the frames it owns, without a panic;
  frames it does not own, the shared kernel tables among them, stay in use and keep
  their contents.
\<close>

theorem pt_drop_correct:
  assumes "pt_ok K pt s"
  shows "\<exists>s'. pt_drop pt s = Some s' \<and> buddy_inv s' \<and>
    free_ppns s' = free_ppns s \<union> fr_ppn ` set (pt_frames pt) \<and>
    same_frames (- (allocator_frames s \<union> fr_ppn ` set (pt_frames pt))) (ram s) (ram s')"
proof -
  note d = pt_okD [OF assms]
  have "set (map fr_ppn (pt_frames pt)) \<subseteq> managed s - free_ppns s" using d(9) by auto
  from buddy.release_all_some [OF d(1) d(7) this] show ?thesis
    using frames_drop_release [of "pt_frames pt" s] d(8) by (auto simp: pt_drop_def)
qed

theorem pt_drop_correct_witness:
  "\<exists>pt s s'. pt_new small_mm = (Some pt, s) \<and> pt_drop pt s = Some s' \<and> free_ppns s' = free_ppns small_mm"
proof -
  obtain pt s where p: "pt_new small_mm = (Some pt, s)" "pt_ok {} pt s" by (rule small_pt)
  have m: "managed small_mm \<subseteq> {..<2 ^ 44}" by (auto simp: managed_def small_mm_facts)
  note n = pt_new_some [OF small_mm_facts(1) m p(1)]
  obtain f where "pt_frames pt = [f]" "fr_ppn f = pt_root pt"
    using p(1) by (auto simp: pt_new_def split: prod.splits option.splits)
  with pt_drop_correct [OF p(2)] n(4,5) p(1) show ?thesis by (auto simp: insert_absorb)
qed

text \<open>
  An entry built from a frame number and flags yields both back, and an entry
  is determined by the two.
\<close>

theorem pte_roundtrip:
  assumes "ppn < 2 ^ 44" and "flags AND NOT FLAG_MASK = 0"
  shows "pte_ppn (pte_new ppn flags) = ppn \<and> pte_flags (pte_new ppn flags) = flags \<and>
    (\<forall>ppn' flags'. ppn' < 2 ^ 44 \<and> flags' AND NOT FLAG_MASK = 0 \<and> pte_new ppn' flags' = pte_new ppn flags
       \<longrightarrow> ppn' = ppn \<and> flags' = flags)"
  using pte_ppn_new [OF assms] pte_flags_new [OF assms(2)] pte_ppn_new pte_flags_new by metis

theorem pte_roundtrip_witness:
  "pte_ppn (pte_new 0x80200 (FL_RX OR FL_VALID)) = 0x80200 \<and>
   pte_flags (pte_new 0x80200 (FL_RX OR FL_VALID)) = FL_RX OR FL_VALID"
  using pte_roundtrip [of "0x80200" "FL_RX OR FL_VALID"] by simp

end
