(* ===== verification/Address_Space.thy ===== *)
theory Address_Space
  imports Page_Correct
begin

text \<open>
  Address spaces, \<^verbatim>\<open>kernel/src/mm/space.rs\<close>: regions, their mapping into a page table,
  copying to and from user memory, duplication for \<^verbatim>\<open>fork\<close>, and destruction. \<open>None\<close> is
  a panic. The drop of a value that goes out of scope on an early return is written
  out where the source has it implicitly.
\<close>

unbundle bit_operations_syntax

section \<open>Regions\<close>

abbreviation (input) SUPERPAGE_SIZE :: usize where "SUPERPAGE_SIZE \<equiv> 2 * 1024 * 1024"

datatype backing = Linear | Framed

text \<open>\<^verbatim>\<open>BTreeMap<VirtPageNum, Frame>\<close> as an association list in key order.\<close>

record region =
  r_start :: virt_addr
  r_end :: virt_addr
  r_backing :: backing
  r_perm :: pte_flags
  r_frames :: "(virt_page_num \<times> frame) list"

fun btree_insert :: "virt_page_num \<Rightarrow> frame \<Rightarrow> (virt_page_num \<times> frame) list
    \<Rightarrow> frame option \<times> (virt_page_num \<times> frame) list" where
  "btree_insert k f [] = (None, [(k, f)])"
| "btree_insert k f ((k', f') # xs) =
     (if k < k' then (None, (k, f) # (k', f') # xs)
      else if k = k' then (Some f', (k, f) # xs)
      else case btree_insert k f xs of (old, ys) \<Rightarrow> (old, (k', f') # ys))"

definition region_new :: "virt_addr \<Rightarrow> virt_addr \<Rightarrow> backing \<Rightarrow> pte_flags \<Rightarrow> region option" where
  "region_new start end b perm = do {
     e \<leftarrow> align_up end;
     Some \<lparr>r_start = align_down start, r_end = e, r_backing = b, r_perm = perm, r_frames = []\<rparr>
   }"

definition region_contains :: "region \<Rightarrow> virt_addr \<Rightarrow> bool" where
  "region_contains r addr \<longleftrightarrow> r_start r \<le> addr \<and> addr < r_end r"

text \<open>Dropping an optional frame, as the value \<^verbatim>\<open>BTreeMap::insert\<close> returns is.\<close>

definition opt_frame_drop :: "frame option \<Rightarrow> mm_state \<Rightarrow> mm_state option" where
  "opt_frame_drop f s = (case f of None \<Rightarrow> Some s | Some g \<Rightarrow> frame_drop g s)"

text \<open>The loop of \<^verbatim>\<open>map_into\<close>. A frame that could not be mapped is dropped.\<close>

function map_into_loop :: "virt_page_num \<Rightarrow> virt_page_num \<Rightarrow> region \<Rightarrow> page_table \<Rightarrow> mm_state
    \<Rightarrow> ((map_error + unit) \<times> region \<times> page_table \<times> mm_state) option" where
  "map_into_loop vpn e r pt s =
     (if \<not> vpn < e then Some (Inr (), r, pt, s)
      else case r_backing r of
        Linear \<Rightarrow> do {
          ppn \<leftarrow> checked_sub vpn (drop_bit PAGE_SHIFT VIRT_OFFSET);
          let pages = SUPERPAGE_SIZE div PAGE_SIZE in
          if vpn mod pages = 0 \<and> ppn mod pages = 0 \<and> vpn + pages \<le> e then do {
            (res, pt1, s1) \<leftarrow> pt_map_at_level vpn ppn (r_perm r) 1 pt s;
            case res of Inl err \<Rightarrow> Some (Inl err, r, pt1, s1)
            | Inr _ \<Rightarrow> map_into_loop (vpn + pages) e r pt1 s1
          } else do {
            (res, pt1, s1) \<leftarrow> pt_map vpn ppn (r_perm r) pt s;
            case res of Inl err \<Rightarrow> Some (Inl err, r, pt1, s1)
            | Inr _ \<Rightarrow> map_into_loop (vpn + 1) e r pt1 s1
          }
        }
      | Framed \<Rightarrow>
          (case frame_alloc s of
             (None, s1) \<Rightarrow> Some (Inl MapOutOfMemory, r, pt, s1)
           | (Some f, s1) \<Rightarrow> do {
               (res, pt1, s2) \<leftarrow> pt_map vpn (fr_ppn f) (r_perm r) pt s1;
               case res of
                 Inl err \<Rightarrow> do { s3 \<leftarrow> frame_drop f s2; Some (Inl err, r, pt1, s3) }
               | Inr _ \<Rightarrow>
                   (case btree_insert vpn f (r_frames r) of
                      (old, fs) \<Rightarrow> do {
                        s3 \<leftarrow> opt_frame_drop old s2;
                        map_into_loop (vpn + 1) e (r\<lparr>r_frames := fs\<rparr>) pt1 s3
                      })
             }))"
  by pat_completeness auto
termination
  by (relation "measure (\<lambda>(vpn, e, r, pt, s). e - vpn)") auto

declare map_into_loop.simps [simp del]

definition region_map_into :: "region \<Rightarrow> page_table \<Rightarrow> mm_state
    \<Rightarrow> ((map_error + unit) \<times> region \<times> page_table \<times> mm_state) option" where
  "region_map_into r pt s = map_into_loop (va_vpn (r_start r)) (va_vpn (r_end r)) r pt s"

text \<open>Dropping a region releases its frames in key order.\<close>

definition region_drop :: "region \<Rightarrow> mm_state \<Rightarrow> mm_state option" where
  "region_drop r s = frames_drop (map snd (r_frames r)) s"

fun unmap_loop :: "virt_page_num list \<Rightarrow> page_table \<Rightarrow> mm_state \<Rightarrow> mm_state" where
  "unmap_loop [] pt s = s"
| "unmap_loop (vpn # vpns) pt s = unmap_loop vpns pt (snd (pt_unmap vpn pt s))"

definition region_unmap_from :: "region \<Rightarrow> page_table \<Rightarrow> mm_state \<Rightarrow> (region \<times> mm_state) option" where
  "region_unmap_from r pt s = do {
     s1 \<leftarrow> frames_drop (map snd (r_frames r))
             (unmap_loop [va_vpn (r_start r)..<va_vpn (r_end r)] pt s);
     Some (r\<lparr>r_frames := []\<rparr>, s1)
   }"

text \<open>
  The loop of \<^verbatim>\<open>write_data\<close>: \<open>None\<close> when a page of the destination has no frame, or
  the address overflows.
\<close>

function write_data_loop :: "region \<Rightarrow> u8 list \<Rightarrow> usize \<Rightarrow> usize \<Rightarrow> mm_state \<Rightarrow> mm_state option" where
  "write_data_loop r data written pos s =
     (if \<not> written < length data then Some s
      else let page_off = pos mod PAGE_SIZE;
               n = min (PAGE_SIZE - page_off) (length data - written)
           in do {
             va \<leftarrow> checked_add (r_start r) pos;
             f \<leftarrow> map_of (r_frames r) (va_vpn va);
             write_data_loop r data (written + n) (pos + n)
               (s\<lparr>ram := write_buf (ppn_base_addr (fr_ppn f) + page_off)
                            (take n (drop written data)) (ram s)\<rparr>)
           })"
  by pat_completeness auto
termination
  by (relation "measure (\<lambda>(r, data, written, pos, s). length data - written)")
    (auto simp: Let_def)

declare write_data_loop.simps [simp del]

definition region_write_data :: "usize \<Rightarrow> u8 list \<Rightarrow> region \<Rightarrow> mm_state \<Rightarrow> mm_state option" where
  "region_write_data offset data r s = write_data_loop r data 0 offset s"

section \<open>Spaces\<close>

record address_space =
  as_table :: page_table
  as_regions :: "region list"

definition space_new :: "mm_state \<Rightarrow> address_space option \<times> mm_state" where
  "space_new s =
     (case pt_new s of
        (None, s1) \<Rightarrow> (None, s1)
      | (Some pt, s1) \<Rightarrow> (Some \<lparr>as_table = pt, as_regions = []\<rparr>, s1))"

definition space_push :: "region \<Rightarrow> address_space \<Rightarrow> mm_state
    \<Rightarrow> ((map_error + unit) \<times> address_space \<times> mm_state) option" where
  "space_push r sp s = do {
     (res, r1, pt1, s1) \<leftarrow> region_map_into r (as_table sp) s;
     case res of
       Inl err \<Rightarrow> do { s2 \<leftarrow> region_drop r1 s1; Some (Inl err, sp\<lparr>as_table := pt1\<rparr>, s2) }
     | Inr _ \<Rightarrow> Some (Inr (), sp\<lparr>as_table := pt1, as_regions := as_regions sp @ [r1]\<rparr>, s1)
   }"

definition space_push_with_offset :: "region \<Rightarrow> usize \<Rightarrow> u8 list \<Rightarrow> address_space \<Rightarrow> mm_state
    \<Rightarrow> ((map_error + unit) \<times> address_space \<times> mm_state) option" where
  "space_push_with_offset r offset data sp s = do {
     (res, r1, pt1, s1) \<leftarrow> region_map_into r (as_table sp) s;
     case res of
       Inl err \<Rightarrow> do { s2 \<leftarrow> region_drop r1 s1; Some (Inl err, sp\<lparr>as_table := pt1\<rparr>, s2) }
     | Inr _ \<Rightarrow> do {
         s2 \<leftarrow> region_write_data offset data r1 s1;
         Some (Inr (), sp\<lparr>as_table := pt1, as_regions := as_regions sp @ [r1]\<rparr>, s2)
       }
   }"

text \<open>\<open>kern\<close> is the contents of \<^verbatim>\<open>KERNEL_SPACE\<close>, without which the source panics.\<close>

definition map_kernel_half :: "address_space option \<Rightarrow> address_space \<Rightarrow> mm_state \<Rightarrow> mm_state option" where
  "map_kernel_half kern sp s =
     (case kern of None \<Rightarrow> None
      | Some k \<Rightarrow> Some (pt_share_upper_half (as_table k) (as_table sp) s))"

text \<open>
  \<^verbatim>\<open>Drop for AddressSpace\<close>, and the drop of the page table that follows it.
\<close>

fun regions_unmap :: "region list \<Rightarrow> page_table \<Rightarrow> mm_state \<Rightarrow> mm_state option" where
  "regions_unmap [] pt s = Some s"
| "regions_unmap (r # rs) pt s = do {
     (r1, s1) \<leftarrow> region_unmap_from r pt s;
     regions_unmap rs pt s1
   }"

definition space_drop :: "address_space \<Rightarrow> mm_state \<Rightarrow> mm_state option" where
  "space_drop sp s = do {
     s1 \<leftarrow> regions_unmap (as_regions sp) (as_table sp) s;
     pt_drop (as_table sp) s1
   }"

definition find_region :: "virt_addr \<Rightarrow> address_space \<Rightarrow> region option" where
  "find_region addr sp = List.find (\<lambda>r. region_contains r addr) (as_regions sp)"

definition space_token :: "address_space \<Rightarrow> u64" where
  "space_token sp = pt_token (as_table sp)"

definition space_translate :: "address_space \<Rightarrow> virt_addr \<Rightarrow> mm_state \<Rightarrow> phys_addr option" where
  "space_translate sp addr s = pt_translate_addr (as_table sp) addr s"

section \<open>User memory\<close>

text \<open>
  The copy loops. The outer \<open>None\<close> is a panic, which the addition in
  \<^verbatim>\<open>to_virt\<close> can cause; the inner option is the source's result.
\<close>

function copy_from_loop :: "page_table \<Rightarrow> virt_addr \<Rightarrow> usize \<Rightarrow> usize \<Rightarrow> u8 list \<Rightarrow> mm_state
    \<Rightarrow> u8 list option option" where
  "copy_from_loop pt addr len copied acc s =
     (if \<not> copied < len then Some (Some acc)
      else case checked_add addr copied of
        None \<Rightarrow> Some None
      | Some va \<Rightarrow>
          if USER_MAX_ADDR \<le> va then Some None
          else case pt_translate_addr pt va s of
            None \<Rightarrow> Some None
          | Some pa \<Rightarrow>
              let n = min (PAGE_SIZE - page_offset va) (len - copied) in do {
                _ \<leftarrow> to_virt pa;
                copy_from_loop pt addr len (copied + n) (acc @ read_buf (ram s) pa n) s
              })"
  by pat_completeness auto
termination
  by (relation "measure (\<lambda>(pt, addr, len, copied, acc, s). len - copied)")
    (auto simp: Let_def page_offset_mod)

declare copy_from_loop.simps [simp del]

definition copy_from_user :: "address_space \<Rightarrow> virt_addr \<Rightarrow> usize \<Rightarrow> mm_state \<Rightarrow> u8 list option option" where
  "copy_from_user sp addr len s = copy_from_loop (as_table sp) addr len 0 [] s"

function copy_to_loop :: "page_table \<Rightarrow> virt_addr \<Rightarrow> u8 list \<Rightarrow> usize \<Rightarrow> mm_state
    \<Rightarrow> (unit option \<times> mm_state) option" where
  "copy_to_loop pt addr src copied s =
     (if \<not> copied < length src then Some (Some (), s)
      else case checked_add addr copied of
        None \<Rightarrow> Some (None, s)
      | Some va \<Rightarrow>
          if USER_MAX_ADDR \<le> va then Some (None, s)
          else case pt_translate pt (va_vpn va) s of
            None \<Rightarrow> Some (None, s)
          | Some e \<Rightarrow>
              if \<not> fl_contains (pte_flags e) (FL_WRITE OR FL_USER) then Some (None, s)
              else case pt_translate_addr pt va s of
                None \<Rightarrow> Some (None, s)
              | Some pa \<Rightarrow>
                  let n = min (PAGE_SIZE - page_offset va) (length src - copied) in do {
                    _ \<leftarrow> to_virt pa;
                    copy_to_loop pt addr src (copied + n)
                      (s\<lparr>ram := write_buf pa (take n (drop copied src)) (ram s)\<rparr>)
                  })"
  by pat_completeness auto
termination
  by (relation "measure (\<lambda>(pt, addr, src, copied, s). length src - copied)")
    (auto simp: Let_def page_offset_mod)

declare copy_to_loop.simps [simp del]

definition copy_to_user :: "address_space \<Rightarrow> virt_addr \<Rightarrow> u8 list \<Rightarrow> mm_state
    \<Rightarrow> (unit option \<times> mm_state) option" where
  "copy_to_user sp addr src s = copy_to_loop (as_table sp) addr src 0 s"

text \<open>Well-formed UTF-8, which \<^verbatim>\<open>String::from_utf8\<close> accepts.\<close>

definition utf8_cont :: "u8 \<Rightarrow> bool" where
  "utf8_cont b \<longleftrightarrow> 0x80 \<le> b \<and> b \<le> 0xbf"

fun utf8_valid :: "u8 list \<Rightarrow> bool" where
  "utf8_valid [] = True"
| "utf8_valid (a # bs) =
     (if a \<le> 0x7f then utf8_valid bs
      else if 0xc2 \<le> a \<and> a \<le> 0xdf then
        (case bs of b # rest \<Rightarrow> utf8_cont b \<and> utf8_valid rest | _ \<Rightarrow> False)
      else if 0xe0 \<le> a \<and> a \<le> 0xef then
        (case bs of b # c # rest \<Rightarrow>
           utf8_cont b \<and> utf8_cont c \<and> (a = 0xe0 \<longrightarrow> 0xa0 \<le> b) \<and> (a = 0xed \<longrightarrow> b \<le> 0x9f) \<and> utf8_valid rest
         | _ \<Rightarrow> False)
      else if 0xf0 \<le> a \<and> a \<le> 0xf4 then
        (case bs of b # c # d # rest \<Rightarrow>
           utf8_cont b \<and> utf8_cont c \<and> utf8_cont d \<and> (a = 0xf0 \<longrightarrow> 0x90 \<le> b) \<and> (a = 0xf4 \<longrightarrow> b \<le> 0x8f)
           \<and> utf8_valid rest
         | _ \<Rightarrow> False)
      else False)"

text \<open>A string is the list of its bytes.\<close>

type_synonym rust_string = "u8 list"

fun read_cstr_loop :: "nat \<Rightarrow> address_space \<Rightarrow> virt_addr \<Rightarrow> usize \<Rightarrow> u8 list \<Rightarrow> mm_state
    \<Rightarrow> rust_string option option" where
  "read_cstr_loop 0 sp addr i bytes s = Some None"
| "read_cstr_loop (Suc left) sp addr i bytes s =
     (case checked_add addr i of
        None \<Rightarrow> Some None
      | Some a \<Rightarrow> do {
          r \<leftarrow> copy_from_user sp a 1 s;
          case r of
            None \<Rightarrow> Some None
          | Some buf \<Rightarrow>
              if hd buf = 0 then Some (if utf8_valid bytes then Some bytes else None)
              else read_cstr_loop left sp addr (i + 1) (bytes @ [hd buf]) s
        })"

definition read_cstr :: "address_space \<Rightarrow> virt_addr \<Rightarrow> usize \<Rightarrow> mm_state \<Rightarrow> rust_string option option" where
  "read_cstr sp addr limit s = read_cstr_loop limit sp addr 0 [] s"

section \<open>Duplication\<close>

text \<open>\<^verbatim>\<open>copy_nonoverlapping\<close> of one page.\<close>

definition copy_page :: "phys_page_num \<Rightarrow> phys_page_num \<Rightarrow> phys_mem \<Rightarrow> phys_mem" where
  "copy_page src dst m = (\<lambda>d. if dw_frame d = dst then m (src * 512 + d mod 512) else m d)"

fun copy_frames :: "(virt_page_num \<times> frame) list \<Rightarrow> region \<Rightarrow> mm_state \<Rightarrow> unit option \<times> mm_state" where
  "copy_frames [] copy s = (Some (), s)"
| "copy_frames ((vpn, f) # fs) copy s =
     (case map_of (r_frames copy) vpn of
        None \<Rightarrow> (None, s)
      | Some dst \<Rightarrow> copy_frames fs copy (s\<lparr>ram := copy_page (fr_ppn f) (fr_ppn dst) (ram s)\<rparr>))"

text \<open>The loop over the regions. On failure the copy and the child are dropped.\<close>

fun duplicate_loop :: "region list \<Rightarrow> address_space \<Rightarrow> mm_state
    \<Rightarrow> (address_space option \<times> mm_state) option" where
  "duplicate_loop [] child s = Some (Some child, s)"
| "duplicate_loop (r # rs) child s =
     (if r_backing r \<noteq> Framed then duplicate_loop rs child s
      else do {
        copy \<leftarrow> region_new (r_start r) (r_end r) Framed (r_perm r);
        (res, copy1, pt1, s1) \<leftarrow> region_map_into copy (as_table child) s;
        let child1 = child\<lparr>as_table := pt1\<rparr> in
        case res of
          Inl err \<Rightarrow> do {
            s2 \<leftarrow> region_drop copy1 s1;
            s3 \<leftarrow> space_drop child1 s2;
            Some (None, s3)
          }
        | Inr _ \<Rightarrow>
            (case copy_frames (r_frames r) copy1 s1 of
               (None, s2) \<Rightarrow> do {
                 s3 \<leftarrow> region_drop copy1 s2;
                 s4 \<leftarrow> space_drop child1 s3;
                 Some (None, s4)
               }
             | (Some _, s2) \<Rightarrow>
                 duplicate_loop rs (child1\<lparr>as_regions := as_regions child1 @ [copy1]\<rparr>) s2)
      })"

definition space_duplicate :: "address_space option \<Rightarrow> address_space \<Rightarrow> mm_state
    \<Rightarrow> (address_space option \<times> mm_state) option" where
  "space_duplicate kern sp s =
     (case space_new s of
        (None, s1) \<Rightarrow> Some (None, s1)
      | (Some child, s1) \<Rightarrow> do {
          s2 \<leftarrow> map_kernel_half kern child s1;
          duplicate_loop (as_regions sp) child s2
        })"

section \<open>The kernel's space\<close>

text \<open>\<open>MMIO_REGIONS\<close>: base and size of each device window.\<close>

definition mmio_regions :: "(usize \<times> usize) list" where
  "mmio_regions = [(0x100000, PAGE_SIZE), (0x2000000, 0x10000), (0xc000000, 0x600000),
     (0x10000000, PAGE_SIZE), (0x10001000, 0x1000 * 8)]"

text \<open>Pushing a linear region, where a failure panics.\<close>

definition push_linear :: "virt_addr \<Rightarrow> virt_addr \<Rightarrow> pte_flags \<Rightarrow> address_space \<Rightarrow> mm_state
    \<Rightarrow> (address_space \<times> mm_state) option" where
  "push_linear start end perm sp s = do {
     r \<leftarrow> region_new start end Linear perm;
     (res, sp1, s1) \<leftarrow> space_push r sp s;
     case res of Inl _ \<Rightarrow> None | Inr _ \<Rightarrow> Some (sp1, s1)
   }"

fun push_all :: "(virt_addr \<times> virt_addr \<times> pte_flags) list \<Rightarrow> address_space \<Rightarrow> mm_state
    \<Rightarrow> (address_space \<times> mm_state) option" where
  "push_all [] sp s = Some (sp, s)"
| "push_all ((start, end, perm) # rest) sp s = do {
     (sp1, s1) \<leftarrow> push_linear start end perm sp s;
     push_all rest sp1 s1
   }"

text \<open>
  \<^verbatim>\<open>init_kernel_space\<close>, up to the switch. \<open>sections\<close> are the start and the end of
  text, rodata, data and bss, and \<open>kernel_end\<close> the physical end of the image, which
  the linker script provides.
\<close>

definition section_perms :: "pte_flags list" where
  "section_perms = [FL_RX OR FL_GLOBAL, FL_READ OR FL_GLOBAL, FL_RW OR FL_GLOBAL, FL_RW OR FL_GLOBAL]"

definition init_kernel_space :: "(virt_addr \<times> virt_addr) list \<Rightarrow> phys_addr \<Rightarrow> mm_state
    \<Rightarrow> (address_space \<times> mm_state) option" where
  "init_kernel_space sections kernel_end s =
     (case space_new s of
        (None, _) \<Rightarrow> None
      | (Some sp, s1) \<Rightarrow> do {
          (sp2, s2) \<leftarrow> push_all
             [(start, end, perm). ((start, end), perm) \<leftarrow> zip sections section_perms, start \<noteq> end] sp s1;
          lo \<leftarrow> to_virt kernel_end;
          hi \<leftarrow> to_virt (DRAM_BASE + DRAM_SIZE);
          (sp3, s3) \<leftarrow> push_linear lo hi (FL_RW OR FL_GLOBAL) sp2 s2;
          push_all (map (\<lambda>(base, size). (base + VIRT_OFFSET, base + size + VIRT_OFFSET, FL_RW OR FL_GLOBAL))
             mmio_regions) sp3 s3
        })"

end
