(* ===== verification/Machine.thy ===== *)
theory Machine
  imports Addr
begin

text \<open>
  What the kernel sees of the hardware and the firmware. Volatile accesses to device
  registers, the \<^verbatim>\<open>time\<close> counter and the \<^verbatim>\<open>ecall\<close> into SBI are not code of the
  repository: they are a parameter, a record of functions on a device state of an arbitrary
  type. A read may change the device (a receive buffer advances, a counter moves on).
  On top of it are the address translations of \<^verbatim>\<open>kernel/src/mm/mod.rs\<close>, the wrappers of
  \<^verbatim>\<open>kernel/src/sbi.rs\<close> and the interrupt masking of \<^verbatim>\<open>kernel/src/arch.rs\<close>.
\<close>

unbundle bit_operations_syntax

section \<open>The parameter\<close>

record sbi_ret =
  sr_error :: isize
  sr_value :: usize

record 'd machine =
  m_read8 :: "virt_addr \<Rightarrow> 'd \<Rightarrow> u8 \<times> 'd"
  m_write8 :: "virt_addr \<Rightarrow> u8 \<Rightarrow> 'd \<Rightarrow> 'd"
  m_read32 :: "virt_addr \<Rightarrow> 'd \<Rightarrow> u32 \<times> 'd"
  m_write32 :: "virt_addr \<Rightarrow> u32 \<Rightarrow> 'd \<Rightarrow> 'd"
  m_time :: "'d \<Rightarrow> usize \<times> 'd"
  m_ecall :: "usize \<Rightarrow> usize \<Rightarrow> usize \<Rightarrow> usize \<Rightarrow> usize \<Rightarrow> 'd \<Rightarrow> sbi_ret \<times> 'd"

section \<open>The direct map\<close>

definition phys_to_virt :: "phys_addr \<Rightarrow> virt_addr" where
  "phys_to_virt paddr = paddr + VIRT_OFFSET"

definition virt_to_phys :: "virt_addr \<Rightarrow> phys_addr option" where
  "virt_to_phys vaddr = checked_sub vaddr VIRT_OFFSET"

section \<open>Firmware calls\<close>

abbreviation (input) EID_TIME :: usize where "EID_TIME \<equiv> 0x54494D45"
abbreviation (input) EID_IPI :: usize where "EID_IPI \<equiv> 0x735049"
abbreviation (input) EID_RFNC :: usize where "EID_RFNC \<equiv> 0x52464E43"
abbreviation (input) EID_HSM :: usize where "EID_HSM \<equiv> 0x48534D"
abbreviation (input) EID_DBCN :: usize where "EID_DBCN \<equiv> 0x4442434E"
abbreviation (input) EID_LEGACY_PUTCHAR :: usize where "EID_LEGACY_PUTCHAR \<equiv> 0x01"
abbreviation (input) EID_LEGACY_GETCHAR :: usize where "EID_LEGACY_GETCHAR \<equiv> 0x02"

definition sbi_is_ok :: "sbi_ret \<Rightarrow> bool" where
  "sbi_is_ok r \<longleftrightarrow> sr_error r = 0"

definition set_timer :: "'d machine \<Rightarrow> usize \<Rightarrow> 'd \<Rightarrow> sbi_ret \<times> 'd" where
  "set_timer M stime d = m_ecall M EID_TIME 0 stime 0 0 d"

definition send_ipi :: "'d machine \<Rightarrow> usize \<Rightarrow> usize \<Rightarrow> 'd \<Rightarrow> sbi_ret \<times> 'd" where
  "send_ipi M hart_mask hart_mask_base d = m_ecall M EID_IPI 0 hart_mask hart_mask_base 0 d"

definition remote_sfence_vma :: "'d machine \<Rightarrow> usize \<Rightarrow> usize \<Rightarrow> 'd \<Rightarrow> sbi_ret \<times> 'd" where
  "remote_sfence_vma M hart_mask hart_mask_base d = m_ecall M EID_RFNC 1 hart_mask hart_mask_base 0 d"

definition hart_start :: "'d machine \<Rightarrow> usize \<Rightarrow> usize \<Rightarrow> usize \<Rightarrow> 'd \<Rightarrow> sbi_ret \<times> 'd" where
  "hart_start M hartid start_addr opaque d = m_ecall M EID_HSM 0 hartid start_addr opaque d"

definition hart_status :: "'d machine \<Rightarrow> usize \<Rightarrow> 'd \<Rightarrow> sbi_ret \<times> 'd" where
  "hart_status M hartid d = m_ecall M EID_HSM 2 hartid 0 0 d"

definition console_putchar :: "'d machine \<Rightarrow> u8 \<Rightarrow> 'd \<Rightarrow> 'd" where
  "console_putchar M c d = snd (m_ecall M EID_LEGACY_PUTCHAR 0 (unat c) 0 0 d)"

definition console_getchar :: "'d machine \<Rightarrow> 'd \<Rightarrow> u8 option \<times> 'd" where
  "console_getchar M d =
     (case m_ecall M EID_LEGACY_GETCHAR 0 0 0 0 d of (ret, d1) \<Rightarrow>
        (if sr_error ret = -1 then None else Some (word_of_int (sr_error ret)), d1))"

text \<open>\<open>at\<close> is the address of the slice.\<close>

definition console_write :: "'d machine \<Rightarrow> virt_addr \<Rightarrow> u8 list \<Rightarrow> 'd \<Rightarrow> 'd option" where
  "console_write M at bytes d = do {
     phys \<leftarrow> virt_to_phys at;
     let (ret, d1) = m_ecall M EID_DBCN 0 (length bytes) phys 0 d;
     Some (if sbi_is_ok ret then d1 else fold (console_putchar M) bytes d1)
   }"

section \<open>Interrupt masking\<close>

text \<open>The control registers of one hart that the kernel reads and writes.\<close>

record hart_csr =
  csr_sstatus :: usize
  csr_sie :: usize
  csr_sip :: usize
  csr_stvec :: usize
  csr_scause :: usize
  csr_stval :: usize

abbreviation (input) SSTATUS_SIE :: usize where "SSTATUS_SIE \<equiv> 0x2"
abbreviation (input) SSTATUS_SPIE :: usize where "SSTATUS_SPIE \<equiv> 0x20"
abbreviation (input) SSTATUS_SPP :: usize where "SSTATUS_SPP \<equiv> 0x100"
abbreviation (input) INT_SSIE :: usize where "INT_SSIE \<equiv> 0x2"
abbreviation (input) INT_STIE :: usize where "INT_STIE \<equiv> 0x20"
abbreviation (input) INT_SEIE :: usize where "INT_SEIE \<equiv> 0x200"

definition csr_set :: "usize \<Rightarrow> usize \<Rightarrow> usize" where
  "csr_set bits v = v OR bits"

definition csr_clear :: "usize \<Rightarrow> usize \<Rightarrow> usize" where
  "csr_clear bits v = v AND usize_not bits"

definition intr_enabled :: "hart_csr \<Rightarrow> bool" where
  "intr_enabled c \<longleftrightarrow> csr_sstatus c AND SSTATUS_SIE \<noteq> 0"

definition intr_enable :: "hart_csr \<Rightarrow> hart_csr" where
  "intr_enable c = c\<lparr>csr_sstatus := csr_set SSTATUS_SIE (csr_sstatus c)\<rparr>"

definition intr_disable :: "hart_csr \<Rightarrow> hart_csr" where
  "intr_disable c = c\<lparr>csr_sstatus := csr_clear SSTATUS_SIE (csr_sstatus c)\<rparr>"

text \<open>\<open>f\<close> is the closure, acting on the registers and any other state.\<close>

definition without_interrupts :: "(hart_csr \<Rightarrow> 's \<Rightarrow> 'r \<times> hart_csr \<times> 's) \<Rightarrow> hart_csr \<Rightarrow> 's \<Rightarrow> 'r \<times> hart_csr \<times> 's" where
  "without_interrupts f c s =
     (let was_enabled = intr_enabled c;
          c1 = (if was_enabled then intr_disable c else c)
      in case f c1 s of (result, c2, s2) \<Rightarrow>
           (result, if was_enabled then intr_enable c2 else c2, s2))"

lemma bit_usize_not:
  assumes "m < 2 ^ 64"
  shows "bit (usize_not m) n \<longleftrightarrow> n < 64 \<and> \<not> bit m n"
proof -
  have "int (usize_not m) = mask 64 - take_bit 64 (int m)"
    using assms by (simp add: usize_not_def mask_eq_exp_minus_1 of_nat_diff take_bit_int_eq_self)
  also have "\<dots> = take_bit 64 (NOT (int m))" by (simp add: take_bit_not_eq_mask_diff)
  finally have "bit (int (usize_not m)) n \<longleftrightarrow> n < 64 \<and> \<not> bit (int m) n"
    by (simp add: bit_simps)
  then show ?thesis by (simp add: bit_of_nat_iff)
qed

lemma and_2_iff: "(v AND 2 = 0) = (\<not> bit (v::nat) 1)"
  using and_exp_eq_0_iff_not_bit [of v 1] by simp

lemma intr_simps [simp]:
  "intr_enabled (intr_enable c)" "\<not> intr_enabled (intr_disable c)"
  by (simp_all add: intr_enabled_def intr_enable_def intr_disable_def csr_set_def csr_clear_def and_2_iff
      bit_simps bit_usize_not)

end
