(* ===== verification/Task.thy ===== *)
theory Task
  imports Address_Space Machine
begin

text \<open>
  Tasks: the saved register contexts and kernel stacks of
  \<^verbatim>\<open>kernel/src/task/context.rs\<close>, the trap frame of
  \<^verbatim>\<open>kernel/src/trap/context.rs\<close> and the task of \<^verbatim>\<open>kernel/src/task/mod.rs\<close>.
  An \<^verbatim>\<open>Arc<Task>\<close> is the task's pid, and the tasks themselves are a map from
  pids; a \<^verbatim>\<open>Weak<Task>\<close> is a pid too. Addresses fixed by the linker
  are a parameter of the definitions that store them.
\<close>

unbundle bit_operations_syntax

section \<open>Contexts and kernel stacks\<close>

record task_context =
  cx_ra :: usize
  cx_sp :: usize
  cx_s :: "usize list"

definition tc_zeroed :: task_context where
  "tc_zeroed = \<lparr>cx_ra = 0, cx_sp = 0, cx_s = replicate 12 0\<rparr>"

definition tc_new :: "usize \<Rightarrow> usize \<Rightarrow> task_context" where
  "tc_new entry stack_top = \<lparr>cx_ra = entry, cx_sp = stack_top, cx_s = replicate 12 0\<rparr>"

record kernel_stack =
  ks_frames :: frame

definition STACK_CANARY :: u64 where
  "STACK_CANARY = 0xC0DECAFEDEADBEEF"

definition ks_bottom :: "kernel_stack \<Rightarrow> virt_addr" where
  "ks_bottom ks = ppn_as_ptr (fr_ppn (ks_frames ks))"

definition ks_top :: "kernel_stack \<Rightarrow> virt_addr option" where
  "ks_top ks = checked_add (ks_bottom ks) (frame_count (ks_frames ks) * PAGE_SIZE)"

definition ks_new :: "mm_state \<Rightarrow> kernel_stack option \<times> mm_state" where
  "ks_new s =
     (case frame_alloc_order (order_for (KERNEL_STACK_SIZE div PAGE_SIZE)) s of
        (None, s1) \<Rightarrow> (None, s1)
      | (Some frames, s1) \<Rightarrow>
          let stack = \<lparr>ks_frames = frames\<rparr>
          in (Some stack, set_ram (write_u64 (ks_bottom stack - VIRT_OFFSET) STACK_CANARY (ram s1)) s1))"

definition canary_intact :: "kernel_stack \<Rightarrow> mm_state \<Rightarrow> bool" where
  "canary_intact ks s \<longleftrightarrow> read_u64 (ram s) (ks_bottom ks - VIRT_OFFSET) = STACK_CANARY"

text \<open>\<^verbatim>\<open>saturating_sub\<close> is subtraction of natural numbers.\<close>

definition headroom :: "kernel_stack \<Rightarrow> usize \<Rightarrow> usize" where
  "headroom ks sp = sp - ks_bottom ks"

section \<open>Trap frames\<close>

record trap_frame =
  tf_x :: "usize list"
  tf_sstatus :: usize
  tf_sepc :: usize
  tf_kernel_sp :: usize
  tf_kernel_satp :: usize
  tf_kernel_trap :: usize
  tf_kernel_hartid :: usize

definition tf_default :: trap_frame where
  "tf_default = \<lparr>tf_x = replicate 32 0, tf_sstatus = 0, tf_sepc = 0, tf_kernel_sp = 0,
     tf_kernel_satp = 0, tf_kernel_trap = 0, tf_kernel_hartid = 0\<rparr>"

definition tf_sp :: "trap_frame \<Rightarrow> usize" where
  "tf_sp f = tf_x f ! 2"

definition tf_set_x :: "nat \<Rightarrow> usize \<Rightarrow> trap_frame \<Rightarrow> trap_frame" where
  "tf_set_x i v f = f\<lparr>tf_x := (tf_x f)[i := v]\<rparr>"

definition tf_set_sp :: "usize \<Rightarrow> trap_frame \<Rightarrow> trap_frame" where
  "tf_set_sp sp f = tf_set_x 2 sp f"

definition tf_arg :: "trap_frame \<Rightarrow> nat \<Rightarrow> usize" where
  "tf_arg f n = tf_x f ! (10 + n)"

definition tf_syscall_id :: "trap_frame \<Rightarrow> usize" where
  "tf_syscall_id f = tf_x f ! 17"

definition tf_set_return :: "usize \<Rightarrow> trap_frame \<Rightarrow> trap_frame" where
  "tf_set_return v f = tf_set_x 10 v f"

definition tf_from_user :: "trap_frame \<Rightarrow> bool" where
  "tf_from_user f \<longleftrightarrow> tf_sstatus f AND SSTATUS_SPP = 0"

text \<open>\<open>sstatus\<close> is the value of the register when the frame is built.\<close>

definition tf_new_user :: "usize \<Rightarrow> usize \<Rightarrow> usize \<Rightarrow> usize \<Rightarrow> usize \<Rightarrow> trap_frame" where
  "tf_new_user sstatus entry user_sp kernel_sp kernel_satp =
     (let s1 = sstatus AND usize_not SSTATUS_SPP;
          s2 = s1 OR SSTATUS_SPIE;
          s3 = s2 AND usize_not SSTATUS_SIE
      in tf_set_sp user_sp (tf_default\<lparr>tf_sstatus := s3, tf_sepc := entry,
           tf_kernel_sp := kernel_sp, tf_kernel_satp := kernel_satp\<rparr>))"

section \<open>Tasks\<close>

type_synonym pid = usize

datatype task_state = Ready | Running | Blocked | Zombie

abbreviation (input) PRIORITY_LEVELS :: usize where "PRIORITY_LEVELS \<equiv> 3"

record task_inner =
  ti_state :: task_state
  ti_ctx :: task_context
  ti_kstack :: kernel_stack
  ti_level :: usize
  ti_ticks :: nat
  ti_needs_resched :: bool
  ti_wakeup_pending :: bool
  ti_exit_code :: int
  ti_space :: "address_space option"
  ti_frame :: "trap_frame option"
  ti_brk :: usize
  ti_heap_top :: usize
  ti_parent :: "pid option"
  ti_children :: "pid list"

record task =
  tk_pid :: pid
  tk_name :: rust_string
  tk_entry :: usize
  tk_child_exit :: "pid list"
  tk_inner :: task_inner

text \<open>Where the linker put the functions whose addresses are stored in tasks.\<close>

record link_syms =
  sym_task_entry :: usize
  sym_enter_user_mode :: usize

text \<open>The state every new task starts in; \<^verbatim>\<open>new_kernel\<close>, \<^verbatim>\<open>new_user\<close> and
  \<^verbatim>\<open>fork_from\<close> write the same record out and differ in the last fields.\<close>

definition fresh_inner :: "task_context \<Rightarrow> kernel_stack \<Rightarrow> task_inner" where
  "fresh_inner ctx kstack =
     \<lparr>ti_state = Ready, ti_ctx = ctx, ti_kstack = kstack, ti_level = 0, ti_ticks = 0,
      ti_needs_resched = False, ti_wakeup_pending = False, ti_exit_code = 0, ti_space = None,
      ti_frame = None, ti_brk = 0, ti_heap_top = 0, ti_parent = None, ti_children = []\<rparr>"

section \<open>The kernel's state\<close>

record run_queue =
  rq_levels :: "pid list list"
  rq_spawned :: usize

record cpu =
  cpu_current :: "pid option"
  cpu_previous :: "pid option"
  cpu_satp :: u64

text \<open>\<open>cpu_satp\<close> is the hart's \<^verbatim>\<open>satp\<close> register.\<close>

text \<open>
  The statics of the kernel: the task store, \<^verbatim>\<open>RUN_QUEUE\<close>, \<^verbatim>\<open>CPUS\<close>,
  \<^verbatim>\<open>ALL_TASKS\<close>, \<^verbatim>\<open>NEXT_PID\<close>, the memory manager and \<^verbatim>\<open>KERNEL_SPACE\<close>.
\<close>

record kstate =
  k_tasks :: "pid \<Rightarrow> task option"
  k_rq :: run_queue
  k_cpus :: "cpu list"
  k_all :: "pid list"
  k_next_pid :: usize
  k_mm :: mm_state
  k_space :: "address_space option"

definition alloc_pid :: "kstate \<Rightarrow> pid \<times> kstate" where
  "alloc_pid k = (k_next_pid k, k\<lparr>k_next_pid := (k_next_pid k + 1) mod usize_lim\<rparr>)"

definition new_kernel :: "link_syms \<Rightarrow> rust_string \<Rightarrow> usize \<Rightarrow> kstate \<Rightarrow> (task option \<times> kstate) option" where
  "new_kernel syms name entry k =
     (case ks_new (k_mm k) of
        (None, mm) \<Rightarrow> Some (None, k\<lparr>k_mm := mm\<rparr>)
      | (Some kstack, mm) \<Rightarrow> do {
          stack_top \<leftarrow> ks_top kstack;
          let ctx = tc_new (sym_task_entry syms) stack_top;
          let (pid, k1) = alloc_pid (k\<lparr>k_mm := mm\<rparr>);
          Some (Some \<lparr>tk_pid = pid, tk_name = name, tk_entry = entry, tk_child_exit = [],
                      tk_inner = fresh_inner ctx kstack\<rparr>, k1)
        })"

definition inner_of :: "pid \<Rightarrow> kstate \<Rightarrow> task_inner option" where
  "inner_of p k = map_option tk_inner (k_tasks k p)"

definition upd_inner :: "pid \<Rightarrow> (task_inner \<Rightarrow> task_inner) \<Rightarrow> kstate \<Rightarrow> kstate" where
  "upd_inner p f k =
     k\<lparr>k_tasks := (k_tasks k)(p := map_option (\<lambda>t. t\<lparr>tk_inner := f (tk_inner t)\<rparr>) (k_tasks k p))\<rparr>"

definition state_of :: "pid \<Rightarrow> kstate \<Rightarrow> task_state option" where
  "state_of p k = map_option ti_state (inner_of p k)"

end
