(* ===== verification/Scheduler.thy ===== *)
theory Scheduler
  imports Task
begin

text \<open>
  The scheduler, \<^verbatim>\<open>kernel/src/task/scheduler.rs\<close>, and the wait queues of
  \<^verbatim>\<open>kernel/src/sync/wait.rs\<close> it works with. Each definition is a piece of code
  that runs under one lock, or with interrupts masked, and so is atomic; longer
  operations of the source are sequences of them. \<open>h\<close> is the hart, and \<open>None\<close> a panic.
\<close>

section \<open>The run queue\<close>

abbreviation (input) QUANTA_PER_LEVEL :: nat where "QUANTA_PER_LEVEL \<equiv> 4"

definition rq_new :: run_queue where
  "rq_new = \<lparr>rq_levels = replicate PRIORITY_LEVELS [], rq_spawned = 0\<rparr>"

definition rq_push :: "pid \<Rightarrow> usize \<Rightarrow> run_queue \<Rightarrow> run_queue" where
  "rq_push p level q =
     (let l = min level (PRIORITY_LEVELS - 1)
      in q\<lparr>rq_levels := (rq_levels q)[l := rq_levels q ! l @ [p]]\<rparr>)"

fun pop_levels :: "pid list list \<Rightarrow> (pid \<times> pid list list) option" where
  "pop_levels [] = None"
| "pop_levels ((p # ps) # qs) = Some (p, ps # qs)"
| "pop_levels ([] # qs) = map_option (\<lambda>(p, qs'). (p, [] # qs')) (pop_levels qs)"

definition rq_pop :: "run_queue \<Rightarrow> pid option \<times> run_queue" where
  "rq_pop q = (case pop_levels (rq_levels q) of
     None \<Rightarrow> (None, q)
   | Some (p, ls) \<Rightarrow> (Some p, q\<lparr>rq_levels := ls\<rparr>))"

definition rq_len :: "run_queue \<Rightarrow> usize" where
  "rq_len q = sum_list (map length (rq_levels q))"

section \<open>Per-hart state\<close>

definition current :: "nat \<Rightarrow> kstate \<Rightarrow> pid option" where
  "current h k = cpu_current (k_cpus k ! h)"

definition current_task :: "nat \<Rightarrow> kstate \<Rightarrow> pid option" where
  "current_task h k = current h k"

definition upd_cpu :: "nat \<Rightarrow> (cpu \<Rightarrow> cpu) \<Rightarrow> kstate \<Rightarrow> kstate" where
  "upd_cpu h f k = k\<lparr>k_cpus := (k_cpus k)[h := f (k_cpus k ! h)]\<rparr>"

definition kernel_token :: "kstate \<Rightarrow> u64 option" where
  "kernel_token k = map_option space_token (k_space k)"

definition activate_token :: "nat \<Rightarrow> u64 \<Rightarrow> kstate \<Rightarrow> kstate" where
  "activate_token h token k =
     (if cpu_satp (k_cpus k ! h) = token then k else upd_cpu h (\<lambda>c. c\<lparr>cpu_satp := token\<rparr>) k)"

definition activate_kernel :: "nat \<Rightarrow> kstate \<Rightarrow> kstate option" where
  "activate_kernel h k = map_option (\<lambda>token. activate_token h token k) (kernel_token k)"

definition task_token :: "pid \<Rightarrow> kstate \<Rightarrow> u64 option" where
  "task_token p k =
     (case inner_of p k of None \<Rightarrow> None
      | Some inner \<Rightarrow>
          (case ti_space inner of Some space \<Rightarrow> Some (space_token space) | None \<Rightarrow> kernel_token k))"

section \<open>Admission and wakeups\<close>

definition admit :: "task \<Rightarrow> kstate \<Rightarrow> kstate option" where
  "admit t k = do {
     n \<leftarrow> checked_add (rq_spawned (k_rq k)) 1;
     Some (k\<lparr>k_tasks := (k_tasks k)(tk_pid t \<mapsto> t), k_all := k_all k @ [tk_pid t],
            k_rq := rq_push (tk_pid t) 0 ((k_rq k)\<lparr>rq_spawned := n\<rparr>)\<rparr>)
   }"

definition spawn :: "link_syms \<Rightarrow> rust_string \<Rightarrow> usize \<Rightarrow> kstate \<Rightarrow> (pid option \<times> kstate) option" where
  "spawn syms name entry k = do {
     (t, k1) \<leftarrow> new_kernel syms name entry k;
     case t of
       None \<Rightarrow> Some (None, k1)
     | Some t \<Rightarrow> do { k2 \<leftarrow> admit t k1; Some (Some (tk_pid t), k2) }
   }"

definition wake :: "pid \<Rightarrow> kstate \<Rightarrow> kstate" where
  "wake p k =
     (case inner_of p k of
        None \<Rightarrow> k
      | Some inner \<Rightarrow>
          if ti_state inner \<noteq> Blocked then upd_inner p (\<lambda>i. i\<lparr>ti_wakeup_pending := True\<rparr>) k
          else let level = ti_level inner - 1;
                   k1 = upd_inner p (\<lambda>i. i\<lparr>ti_state := Ready, ti_level := level, ti_ticks := 0\<rparr>) k
            in k1\<lparr>k_rq := rq_push p level (k_rq k1)\<rparr>)"

section \<open>The timer\<close>

definition on_timer_tick :: "nat \<Rightarrow> kstate \<Rightarrow> kstate" where
  "on_timer_tick h k =
     (case current h k of
        None \<Rightarrow> k
      | Some p \<Rightarrow>
          upd_inner p (\<lambda>i.
            let i1 = i\<lparr>ti_ticks := ti_ticks i + 1\<rparr>;
                i2 = (if ti_ticks i1 \<ge> QUANTA_PER_LEVEL
                      then i1\<lparr>ti_level := min (ti_level i1 + 1) (PRIORITY_LEVELS - 1), ti_ticks := 0\<rparr>
                      else i1)
            in i2\<lparr>ti_needs_resched := True\<rparr>) k)"

section \<open>Switching\<close>

text \<open>
  \<^verbatim>\<open>switch_to_idle\<close> up to the context switch, and the two halves of an iteration
  of \<^verbatim>\<open>run\<close>: what becomes of the task that switched away, and the choice of the
  next one. The switch itself, \<^verbatim>\<open>switch.S\<close>, saves and restores registers.
\<close>

definition park :: "nat \<Rightarrow> task_state \<Rightarrow> kstate \<Rightarrow> kstate option" where
  "park h st k =
     (case current h k of
        None \<Rightarrow> None
      | Some p \<Rightarrow>
          let k1 = upd_cpu h (\<lambda>c. c\<lparr>cpu_current := None\<rparr>) k;
              k2 = upd_inner p (\<lambda>i.
                     if st = Blocked \<and> ti_wakeup_pending i
                     then i\<lparr>ti_wakeup_pending := False, ti_state := Ready\<rparr>
                     else i\<lparr>ti_state := st\<rparr>) k1
          in case inner_of p k2 of
               None \<Rightarrow> None
             | Some inner \<Rightarrow>
                 if \<not> canary_intact (ti_kstack inner) (k_mm k2) then None
                 else Some (upd_cpu h (\<lambda>c. c\<lparr>cpu_previous := Some p\<rparr>) k2))"

definition idle_prev :: "nat \<Rightarrow> kstate \<Rightarrow> kstate option" where
  "idle_prev h k =
     (case cpu_previous (k_cpus k ! h) of
        None \<Rightarrow> Some k
      | Some p \<Rightarrow>
          let k1 = upd_cpu h (\<lambda>c. c\<lparr>cpu_previous := None\<rparr>) k
          in case inner_of p k1 of
               None \<Rightarrow> None
             | Some inner \<Rightarrow>
                 (case ti_state inner of
                    Ready \<Rightarrow> Some (k1\<lparr>k_rq := rq_push p (ti_level inner) (k_rq k1)\<rparr>)
                  | Running \<Rightarrow> None
                  | _ \<Rightarrow> Some k1))"

definition idle_pick :: "nat \<Rightarrow> kstate \<Rightarrow> kstate option" where
  "idle_pick h k =
     (case rq_pop (k_rq k) of
        (None, q) \<Rightarrow> Some (k\<lparr>k_rq := q\<rparr>)
      | (Some p, q) \<Rightarrow> do {
          let k1 = k\<lparr>k_rq := q\<rparr>;
          token \<leftarrow> task_token p k1;
          let k2 = activate_token h token k1;
          let k3 = upd_inner p (\<lambda>i. i\<lparr>ti_state := Running, ti_needs_resched := False\<rparr>) k2;
          Some (upd_cpu h (\<lambda>c. c\<lparr>cpu_current := Some p\<rparr>) k3)
        })"

text \<open>With one hart and interrupts masked from the switch to the end of the loop body,
  these three run without interruption.\<close>

definition switch_out :: "nat \<Rightarrow> task_state \<Rightarrow> kstate \<Rightarrow> kstate option" where
  "switch_out h st k = do { k1 \<leftarrow> park h st k; k2 \<leftarrow> idle_prev h k1; idle_pick h k2 }"

definition yield_now :: "nat \<Rightarrow> kstate \<Rightarrow> kstate option" where
  "yield_now h k = switch_out h Ready k"

definition block_current :: "nat \<Rightarrow> kstate \<Rightarrow> kstate option" where
  "block_current h k = switch_out h Blocked k"

definition resched_if_needed :: "nat \<Rightarrow> kstate \<Rightarrow> kstate option" where
  "resched_if_needed h k =
     (case current h k of
        None \<Rightarrow> Some k
      | Some p \<Rightarrow>
          (case inner_of p k of
             None \<Rightarrow> None
           | Some inner \<Rightarrow>
               let k1 = upd_inner p (\<lambda>i. i\<lparr>ti_needs_resched := False\<rparr>) k
               in if \<not> ti_needs_resched inner then Some k1 else yield_now h k1))"

section \<open>Wait queues\<close>

definition wq_wake_one :: "pid list \<Rightarrow> kstate \<Rightarrow> pid list \<times> kstate" where
  "wq_wake_one ws k = (case ws of [] \<Rightarrow> ([], k) | p # ws' \<Rightarrow> (ws', wake p k))"

definition wq_wake_all :: "pid list \<Rightarrow> kstate \<Rightarrow> pid list \<times> kstate" where
  "wq_wake_all ws k = ([], fold wake ws k)"

text \<open>The two critical sections of \<^verbatim>\<open>wait\<close>, before and after the task blocks.\<close>

definition wq_enqueue :: "pid \<Rightarrow> pid list \<Rightarrow> pid list" where
  "wq_enqueue p ws = ws @ [p]"

definition wq_forget :: "pid \<Rightarrow> pid list \<Rightarrow> pid list" where
  "wq_forget p ws = remove1 p ws"

definition wq_len :: "pid list \<Rightarrow> usize" where
  "wq_len ws = length ws"

definition upd_child_exit :: "pid \<Rightarrow> (pid list \<Rightarrow> pid list) \<Rightarrow> kstate \<Rightarrow> kstate" where
  "upd_child_exit p f k =
     k\<lparr>k_tasks := (k_tasks k)(p := map_option (\<lambda>t. t\<lparr>tk_child_exit := f (tk_child_exit t)\<rparr>) (k_tasks k p))\<rparr>"

section \<open>Exit\<close>

text \<open>\<^verbatim>\<open>process::on_exit\<close>: wake the parent, if it still exists.\<close>

definition on_exit :: "pid \<Rightarrow> kstate \<Rightarrow> kstate" where
  "on_exit p k =
     (case inner_of p k of
        None \<Rightarrow> k
      | Some inner \<Rightarrow>
          (case ti_parent inner of
             None \<Rightarrow> k
           | Some parent \<Rightarrow>
               (case k_tasks k parent of
                  None \<Rightarrow> k
                | Some t \<Rightarrow>
                    let (ws, k1) = wq_wake_all (tk_child_exit t) (upd_child_exit parent (\<lambda>_. []) k)
                    in k1)))"

text \<open>\<^verbatim>\<open>exit_current\<close> up to the switch, and all of it.\<close>

definition exit_release :: "nat \<Rightarrow> int \<Rightarrow> kstate \<Rightarrow> kstate option" where
  "exit_release h code k =
     (case current h k of
        None \<Rightarrow> Some k
      | Some p \<Rightarrow> do {
          inner \<leftarrow> inner_of p k;
          let k1 = upd_inner p (\<lambda>i. i\<lparr>ti_exit_code := code, ti_space := None\<rparr>) k;
          k2 \<leftarrow> (case ti_space inner of
                   None \<Rightarrow> Some k1
                 | Some space \<Rightarrow> do {
                     ka \<leftarrow> activate_kernel h k1;
                     mm \<leftarrow> space_drop space (k_mm ka);
                     Some (ka\<lparr>k_mm := mm\<rparr>)
                   });
          Some (on_exit p k2)
        })"

definition exit_current :: "nat \<Rightarrow> int \<Rightarrow> kstate \<Rightarrow> kstate option" where
  "exit_current h code k = do { k1 \<leftarrow> exit_release h code k; switch_out h Zombie k1 }"

definition sched_stats :: "kstate \<Rightarrow> usize \<times> usize" where
  "sched_stats k = (rq_len (k_rq k), rq_spawned (k_rq k))"

end
