(* ===== verification/Sched_Inv.thy ===== *)
theory Sched_Inv
  imports Scheduler
begin

text \<open>
  The invariant of the scheduler: where a task is agrees with its state. The invariant
  is stated over the run queue's levels, the running task and the tasks' inner states,
  and each elementary update of the scheduler preserves it.
\<close>

section \<open>Projections of the updates\<close>

lemma inner_of_upd_inner [sched_simps]:
  "inner_of q (upd_inner p f k) = (if q = p then map_option f (inner_of p k) else inner_of q k)"
  by (simp add: inner_of_def upd_inner_def option.map_comp comp_def)

lemma upd_inner_simps [sched_simps]:
  "k_rq (upd_inner p f k) = k_rq k" "k_cpus (upd_inner p f k) = k_cpus k"
  "k_mm (upd_inner p f k) = k_mm k" "k_space (upd_inner p f k) = k_space k"
  "k_next_pid (upd_inner p f k) = k_next_pid k" "k_all (upd_inner p f k) = k_all k"
  "current h (upd_inner p f k) = current h k"
  "(k_tasks (upd_inner p f k) q = None) = (k_tasks k q = None)"
  by (simp_all add: upd_inner_def current_def)

lemma upd_cpu_simps [sched_simps]:
  "k_rq (upd_cpu h f k) = k_rq k" "k_mm (upd_cpu h f k) = k_mm k"
  "k_tasks (upd_cpu h f k) = k_tasks k" "k_space (upd_cpu h f k) = k_space k"
  "k_next_pid (upd_cpu h f k) = k_next_pid k" "k_all (upd_cpu h f k) = k_all k"
  "inner_of p (upd_cpu h f k) = inner_of p k" "length (k_cpus (upd_cpu h f k)) = length (k_cpus k)"
  "h < length (k_cpus k) \<Longrightarrow> k_cpus (upd_cpu h f k) ! h = f (k_cpus k ! h)"
  "h < length (k_cpus k) \<Longrightarrow> current h (upd_cpu h f k) = cpu_current (f (k_cpus k ! h))"
  by (simp_all add: upd_cpu_def inner_of_def current_def)

lemma upd_rq_simps [sched_simps]:
  "inner_of p (k\<lparr>k_rq := q\<rparr>) = inner_of p k" "current h (k\<lparr>k_rq := q\<rparr>) = current h k"
  by (simp_all add: inner_of_def current_def)

lemma upd_mm_simps [sched_simps]:
  "inner_of p (k\<lparr>k_mm := m\<rparr>) = inner_of p k" "current h (k\<lparr>k_mm := m\<rparr>) = current h k"
  by (simp_all add: inner_of_def current_def)

lemma upd_child_exit_simps [sched_simps]:
  "k_rq (upd_child_exit p f k) = k_rq k" "k_cpus (upd_child_exit p f k) = k_cpus k"
  "k_mm (upd_child_exit p f k) = k_mm k" "k_space (upd_child_exit p f k) = k_space k"
  "inner_of q (upd_child_exit p f k) = inner_of q k" "current h (upd_child_exit p f k) = current h k"
  by (auto simp: upd_child_exit_def inner_of_def current_def option.map_comp comp_def)

lemma activate_token_simps [sched_simps]:
  "k_rq (activate_token h t k) = k_rq k" "k_mm (activate_token h t k) = k_mm k"
  "k_tasks (activate_token h t k) = k_tasks k" "k_space (activate_token h t k) = k_space k"
  "inner_of p (activate_token h t k) = inner_of p k"
  "h < length (k_cpus k) \<Longrightarrow> current h (activate_token h t k) = current h k"
  "length (k_cpus (activate_token h t k)) = length (k_cpus k)"
  "h < length (k_cpus k) \<Longrightarrow> cpu_previous (k_cpus (activate_token h t k) ! h) = cpu_previous (k_cpus k ! h)"
  by (auto simp: activate_token_def upd_cpu_def inner_of_def current_def nth_list_update)

section \<open>The invariant over its parts\<close>

text \<open>
  The three levels hold each task at most once. A task on level \<open>l\<close> is ready and at
  that level; every ready task is on the queue; exactly the current task is running.
\<close>

definition sinv :: "pid list list \<Rightarrow> pid option \<Rightarrow> (pid \<Rightarrow> task_inner option) \<Rightarrow> bool" where
  "sinv levels cur inn \<longleftrightarrow> length levels = PRIORITY_LEVELS \<and> distinct (concat levels) \<and>
     (\<forall>l<PRIORITY_LEVELS. \<forall>p\<in>set (levels ! l). \<exists>i. inn p = Some i \<and> ti_state i = Ready \<and> ti_level i = l) \<and>
     (\<forall>p i. inn p = Some i \<longrightarrow> ti_level i < PRIORITY_LEVELS \<and> ti_ticks i < QUANTA_PER_LEVEL \<and>
        (ti_state i = Ready \<longrightarrow> p \<in> set (concat levels)) \<and> (ti_state i = Running \<longleftrightarrow> cur = Some p)) \<and>
     (\<forall>p. cur = Some p \<longrightarrow> inn p \<noteq> None)"

lemma sinvD:
  assumes "sinv levels cur inn"
  shows "length levels = 3" "distinct (concat levels)"
    "l < 3 \<Longrightarrow> p \<in> set (levels ! l) \<Longrightarrow> \<exists>i. inn p = Some i \<and> ti_state i = Ready \<and> ti_level i = l"
    "inn p = Some i \<Longrightarrow> ti_level i < 3" "inn p = Some i \<Longrightarrow> ti_ticks i < 4"
    "inn p = Some i \<Longrightarrow> ti_state i = Ready \<Longrightarrow> p \<in> set (concat levels)"
    "inn p = Some i \<Longrightarrow> ti_state i = Running \<longleftrightarrow> cur = Some p"
    "cur = Some p \<Longrightarrow> \<exists>i. inn p = Some i"
  using assms by (simp_all add: sinv_def)

lemma sinv_inner:
  assumes "sinv levels cur inn" "inn p = Some i"
  shows "ti_level i < 3 \<and> ti_ticks i < 4 \<and> (ti_state i = Ready \<longrightarrow> p \<in> set (concat levels)) \<and>
    (ti_state i = Running \<longleftrightarrow> cur = Some p)"
  using assms by (simp add: sinv_def)

lemma in_levels:
  assumes "length levels = 3"
  shows "p \<in> set (concat levels) \<longleftrightarrow> (\<exists>l<3. p \<in> set (levels ! l))"
  using assms by (metis (no_types, lifting) UN_iff in_set_conv_nth set_concat)

lemma sinv_queued:
  assumes "sinv levels cur inn" "p \<in> set (concat levels)"
  obtains i where "inn p = Some i" "ti_state i = Ready" "cur \<noteq> Some p"
  using assms sinvD(1,3,7) [OF assms(1)] by (metis in_levels task_state.distinct(1))

lemma sinv_updI:
  assumes "length ls = 3" "distinct (concat ls)"
    and "\<And>l q. l < 3 \<Longrightarrow> q \<in> set (ls ! l) \<Longrightarrow> q \<noteq> p \<Longrightarrow> \<exists>i. inn q = Some i \<and> ti_state i = Ready \<and> ti_level i = l"
    and "\<And>l. l < 3 \<Longrightarrow> p \<in> set (ls ! l) \<Longrightarrow> ti_state j = Ready \<and> ti_level j = l"
    and "\<And>q i. q \<noteq> p \<Longrightarrow> inn q = Some i \<Longrightarrow> ti_level i < 3 \<and> ti_ticks i < 4 \<and>
      (ti_state i = Ready \<longrightarrow> q \<in> set (concat ls)) \<and> (ti_state i = Running \<longleftrightarrow> cur = Some q)"
    and "ti_level j < 3" "ti_ticks j < 4" "ti_state j = Ready \<Longrightarrow> p \<in> set (concat ls)"
      "ti_state j = Running \<longleftrightarrow> cur = Some p"
    and "\<And>q. cur = Some q \<Longrightarrow> q \<noteq> p \<Longrightarrow> inn q \<noteq> None"
  shows "sinv ls cur (inn(p \<mapsto> j))"
  unfolding sinv_def
proof (intro conjI allI impI ballI)
  fix l q assume "l < 3" "q \<in> set (ls ! l)"
  then show "\<exists>i. (inn(p \<mapsto> j)) q = Some i \<and> ti_state i = Ready \<and> ti_level i = l"
    using assms(3,4) by (cases "q = p") auto
qed (use assms in \<open>auto split: if_splits\<close>)

text \<open>Changes that do not move a task.\<close>

lemma sinv_keep:
  assumes s: "sinv levels cur inn" and p: "inn p = Some i" and "ti_state j = ti_state i"
    and "ti_level j < 3" "ti_ticks j < 4" "ti_state i = Ready \<Longrightarrow> ti_level j = ti_level i"
  shows "sinv levels cur (inn(p \<mapsto> j))"
proof (rule sinv_updI)
  show "ti_state j = Ready \<and> ti_level j = l" if "l < 3" "p \<in> set (levels ! l)" for l
    using sinvD(3) [OF s that] p assms(3,6) by auto
  show "ti_state j = Running \<longleftrightarrow> cur = Some p" using sinvD(7) [OF s p] assms(3) by simp
  show "ti_level i < 3 \<and> ti_ticks i < 4 \<and> (ti_state i = Ready \<longrightarrow> q \<in> set (concat levels)) \<and>
      (ti_state i = Running \<longleftrightarrow> cur = Some q)" if "inn q = Some i" for q i
    by (rule sinv_inner [OF s that])
  show "ti_state j = Ready \<Longrightarrow> p \<in> set (concat levels)" using sinvD(6) [OF s p] assms(3) by simp
qed (use sinvD(1-3,8) [OF s] assms(4,5) in auto)

lemma distinct_concat_push:
  assumes "distinct (concat levels)" "p \<notin> set (concat levels)" "l < length levels"
  shows "distinct (concat (levels[l := levels ! l @ [p]]))"
    "set (concat (levels[l := levels ! l @ [p]])) = insert p (set (concat levels))"
proof -
  have split: "levels = take l levels @ levels ! l # drop (Suc l) levels"
    using assms(3) by (simp add: id_take_nth_drop)
  have upd: "levels[l := x] = take l levels @ x # drop (Suc l) levels" for x
    using assms(3) by (simp add: upd_conv_take_nth_drop)
  have "concat levels = concat (take l levels) @ levels ! l @ concat (drop (Suc l) levels)"
    by (subst split) simp
  with assms(1,2) show "distinct (concat (levels[l := levels ! l @ [p]]))"
    "set (concat (levels[l := levels ! l @ [p]])) = insert p (set (concat levels))"
    by (auto simp: upd)
qed

text \<open>A task that is neither queued nor running is put on the queue.\<close>

lemma sinv_push:
  assumes s: "sinv levels cur inn" and p: "p \<notin> set (concat levels)" "cur \<noteq> Some p"
    and j: "ti_state j = Ready" "ti_level j = l" "l < 3" "ti_ticks j < 4"
  shows "sinv (levels[l := levels ! l @ [p]]) cur (inn(p \<mapsto> j))"
proof -
  note d = sinvD [OF s]
  have l: "l < length levels" using d(1) j(3) by simp
  note c = distinct_concat_push [OF d(2) p(1) l]
  show ?thesis
  proof (rule sinv_updI)
    show "\<exists>i. inn q = Some i \<and> ti_state i = Ready \<and> ti_level i = m"
      if "m < 3" "q \<in> set (levels[l := levels ! l @ [p]] ! m)" "q \<noteq> p" for m q
      using d(3) [of m q] that l by (auto simp: nth_list_update split: if_splits)
    show "ti_state j = Ready \<and> ti_level j = m" if "m < 3" "p \<in> set (levels[l := levels ! l @ [p]] ! m)" for m
      using that p(1) in_levels [OF d(1)] l j by (auto simp: nth_list_update split: if_splits)
    show "ti_level i < 3 \<and> ti_ticks i < 4 \<and>
        (ti_state i = Ready \<longrightarrow> q \<in> set (concat (levels[l := levels ! l @ [p]]))) \<and>
        (ti_state i = Running \<longleftrightarrow> cur = Some q)" if "inn q = Some i" for q i
      using d(4-7) [OF that] c(2) by blast
    show "cur = Some q \<Longrightarrow> inn q \<noteq> None" for q using d(8) by auto
  qed (use d(1) c j p in simp_all)
qed

lemma pop_levels_Some:
  "pop_levels ls = Some (p, ls') \<Longrightarrow> \<exists>n<length ls. ls ! n = p # tl (ls ! n) \<and> ls' = ls[n := tl (ls ! n)] \<and>
     (\<forall>m<n. ls ! m = [])"
proof (induction ls arbitrary: ls' rule: pop_levels.induct)
  case (2 p ps qs)
  then show ?case by (auto intro!: exI [of _ 0])
next
  case (3 qs)
  then obtain qs' where q: "pop_levels qs = Some (p, qs')" "ls' = [] # qs'" by auto
  from 3(1) [OF q(1)] obtain n where n: "n < length qs" "qs ! n = p # tl (qs ! n)" "qs' = qs[n := tl (qs ! n)]"
    "\<forall>m<n. qs ! m = []" by blast
  have "\<forall>m<Suc n. ([] # qs) ! m = []" using n(4) by (auto simp: nth_Cons split: nat.split)
  with n q(2) show ?case by (intro exI [of _ "Suc n"]) auto
qed simp

lemma pop_levels_None: "pop_levels ls = None \<longleftrightarrow> concat ls = []"
  by (induction ls rule: pop_levels.induct) auto

text \<open>The head of the first level that is not empty becomes the running task.\<close>

lemma sinv_pop:
  assumes s: "sinv levels None inn" and pop: "pop_levels levels = Some (p, ls)"
  shows "\<exists>i. inn p = Some i \<and> ti_state i = Ready \<and>
    (\<forall>j. ti_state j = Running \<longrightarrow> ti_level j < 3 \<longrightarrow> ti_ticks j < 4 \<longrightarrow> sinv ls (Some p) (inn(p \<mapsto> j)))"
proof -
  note d = sinvD [OF s]
  obtain n where n: "n < 3" "levels ! n = p # tl (levels ! n)" "ls = levels[n := tl (levels ! n)]"
    using pop_levels_Some [OF pop] d(1) by auto
  have split: "levels = take n levels @ levels ! n # drop (Suc n) levels"
    using n(1) d(1) by (simp add: id_take_nth_drop)
  have upd: "ls = take n levels @ tl (levels ! n) # drop (Suc n) levels"
    using n(1,3) d(1) by (simp add: upd_conv_take_nth_drop)
  have "concat levels = concat (take n levels) @ (p # tl (levels ! n)) @ concat (drop (Suc n) levels)"
    by (subst split) (simp add: n(2) [symmetric])
  then have dis: "distinct (concat ls)" "set (concat levels) = insert p (set (concat ls))" "p \<notin> set (concat ls)"
    using d(2) by (auto simp: upd)
  have "p \<in> set (levels ! n)" using n(2) by (metis list.set_intros(1))
  then obtain i where i: "inn p = Some i" "ti_state i = Ready" using d(3) n(1) by blast
  have sub: "set (ls ! m) \<subseteq> set (levels ! m) - {p}" if "m < 3" for m
  proof -
    have "set (tl (levels ! n)) \<subseteq> set (levels ! n)" by (cases "levels ! n") auto
    then have "set (ls ! m) \<subseteq> set (levels ! m)" using n(1,3) d(1) that by (cases "m = n") auto
    moreover have "p \<notin> set (ls ! m)" using dis(3) that n(3) d(1) in_levels [of ls p] by auto
    ultimately show ?thesis by blast
  qed
  have "sinv ls (Some p) (inn(p \<mapsto> j))" if j: "ti_state j = Running" "ti_level j < 3" "ti_ticks j < 4" for j
  proof (rule sinv_updI)
    show "\<exists>i. inn q = Some i \<and> ti_state i = Ready \<and> ti_level i = m" if "m < 3" "q \<in> set (ls ! m)" for m q
      using d(3) sub [OF that(1)] that by blast
    show "ti_state j = Ready \<and> ti_level j = m" if "m < 3" "p \<in> set (ls ! m)" for m
      using sub [OF that(1)] that(2) by blast
    show "ti_level i < 3 \<and> ti_ticks i < 4 \<and> (ti_state i = Ready \<longrightarrow> q \<in> set (concat ls)) \<and>
        (ti_state i = Running \<longleftrightarrow> Some p = Some q)" if "q \<noteq> p" "inn q = Some i" for q i
      using d(4-7) [OF that(2)] that(1) dis(2) by auto
  qed (use j dis(1) n(3) d(1) in simp_all)
  with i show ?thesis by blast
qed

text \<open>The running task stops running without being queued.\<close>

lemma sinv_stop:
  assumes s: "sinv levels (Some p) inn" and j: "ti_state j \<noteq> Running" "ti_state j \<noteq> Ready" "ti_level j < 3" "ti_ticks j < 4"
  shows "sinv levels None (inn(p \<mapsto> j))"
proof -
  note d = sinvD [OF s]
  have p: "p \<notin> set (concat levels)" using sinv_queued [OF s] by blast
  show ?thesis
  proof (rule sinv_updI)
    show "ti_state j = Ready \<and> ti_level j = m" if "m < 3" "p \<in> set (levels ! m)" for m
      using that p in_levels [OF d(1)] by blast
    show "ti_level i < 3 \<and> ti_ticks i < 4 \<and> (ti_state i = Ready \<longrightarrow> q \<in> set (concat levels)) \<and>
        (ti_state i = Running \<longleftrightarrow> None = Some q)" if "q \<noteq> p" "inn q = Some i" for q i
      using d(4-7) [OF that(2)] that(1) by auto
  qed (use d j in simp_all)
qed

end
