(* ===== verification/Sched_Correct.thy ===== *)
theory Sched_Correct
  imports Sched_Inv
begin

text \<open>
  The scheduler on one hart. The step relation interleaves, in any order, everything
  that can happen between two context switches (timer ticks, wakeups from tasks and
  interrupt handlers, new tasks) with the switches themselves; the invariant holds in
  every state reachable from boot.
\<close>

section \<open>The invariant on kernel states\<close>

definition sched_inv :: "nat \<Rightarrow> kstate \<Rightarrow> bool" where
  "sched_inv h k \<longleftrightarrow> h < length (k_cpus k) \<and> cpu_previous (k_cpus k ! h) = None \<and> k_space k \<noteq> None \<and>
     sinv (rq_levels (k_rq k)) (current h k) (\<lambda>p. inner_of p k)"

lemma inner_fun_upd:
  "inner_of p k = Some i \<Longrightarrow> (\<lambda>q. inner_of q (upd_inner p f k)) = (\<lambda>q. inner_of q k)(p \<mapsto> f i)"
  by (auto simp: sched_simps)

lemma if_fun_upd: "(\<lambda>q. if q = p then x else f q) = f(p := x)"
  by auto

lemma upd_inner_None: "inner_of p k = None \<Longrightarrow> upd_inner p f k = k"
  by (simp add: inner_of_def upd_inner_def fun_upd_idem)

lemma sched_inv_keep:
  assumes "sched_inv h k"
    and "\<And>i. inner_of p k = Some i \<Longrightarrow> ti_state (f i) = ti_state i \<and> ti_level (f i) < 3 \<and> ti_ticks (f i) < 4 \<and>
      (ti_state i = Ready \<longrightarrow> ti_level (f i) = ti_level i)"
  shows "sched_inv h (upd_inner p f k)"
proof (cases "inner_of p k")
  case None
  then show ?thesis using assms(1) by (simp add: upd_inner_None)
next
  case (Some i)
  have s: "sinv (rq_levels (k_rq k)) (current h k) (\<lambda>p. inner_of p k)" using assms(1) by (simp add: sched_inv_def)
  have "sinv (rq_levels (k_rq k)) (current h k) ((\<lambda>p. inner_of p k)(p \<mapsto> f i))"
    using assms(2) [OF Some] by (intro sinv_keep [OF s Some]) blast+
  then show ?thesis
    using assms(1) Some unfolding sched_inv_def inner_fun_upd [OF Some] by (simp add: sched_simps)
qed

lemma sched_inv_inner:
  assumes "sched_inv h k" "inner_of p k = Some i"
  shows "ti_level i < 3" "ti_ticks i < 4"
    "ti_state i = Ready \<Longrightarrow> p \<in> set (concat (rq_levels (k_rq k)))"
    "ti_state i = Running \<longleftrightarrow> current h k = Some p"
proof -
  have "sinv (rq_levels (k_rq k)) (current h k) (\<lambda>p. inner_of p k)" using assms(1) by (simp add: sched_inv_def)
  from sinvD(4-7) [OF this assms(2)] show "ti_level i < 3" "ti_ticks i < 4"
    "ti_state i = Ready \<Longrightarrow> p \<in> set (concat (rq_levels (k_rq k)))"
    "ti_state i = Running \<longleftrightarrow> current h k = Some p" by blast+
qed

lemma sched_inv_wake: "sched_inv h k \<Longrightarrow> sched_inv h (wake p k)"
proof -
  assume inv: "sched_inv h k"
  show ?thesis
  proof (cases "inner_of p k")
    case None
    then show ?thesis using inv by (simp add: wake_def)
  next
    case (Some i)
    note b = sched_inv_inner [OF inv Some]
    show ?thesis
    proof (cases "ti_state i = Blocked")
      case False
      have "sched_inv h (upd_inner p (\<lambda>i. i\<lparr>ti_wakeup_pending := True\<rparr>) k)"
        using b(1,2) Some by (intro sched_inv_keep [OF inv]) auto
      then show ?thesis using False Some by (simp add: wake_def)
    next
      case True
      have s: "sinv (rq_levels (k_rq k)) (current h k) (\<lambda>p. inner_of p k)" using inv by (simp add: sched_inv_def)
      let ?j = "i\<lparr>ti_state := Ready, ti_level := ti_level i - 1, ti_ticks := 0\<rparr>" and ?l = "ti_level i - 1"
      have "p \<notin> set (concat (rq_levels (k_rq k)))" "current h k \<noteq> Some p"
        using sinv_queued [OF s, of p] b(4) Some True by force+
      then have "sinv ((rq_levels (k_rq k))[?l := rq_levels (k_rq k) ! ?l @ [p]]) (current h k)
          ((\<lambda>p. inner_of p k)(p \<mapsto> ?j))"
        using b(1) by (intro sinv_push [OF s]) auto
      moreover have "min ?l 2 = ?l" using b(1) by simp
      ultimately show ?thesis
        using inv Some True unfolding sched_inv_def wake_def
        by (simp add: Let_def if_fun_upd rq_push_def sched_simps)
    qed
  qed
qed

lemma sched_inv_fold_wake: "sched_inv h k \<Longrightarrow> sched_inv h (fold wake ps k)"
  by (induction ps arbitrary: k) (auto intro: sched_inv_wake)

lemma sched_inv_tick: "sched_inv h k \<Longrightarrow> sched_inv h (on_timer_tick h k)"
proof -
  assume inv: "sched_inv h k"
  show ?thesis
  proof (cases "current h k")
    case None
    then show ?thesis using inv by (simp add: on_timer_tick_def)
  next
    case (Some p)
    show ?thesis unfolding on_timer_tick_def Some option.case
      using sched_inv_inner [OF inv, of p] Some by (intro sched_inv_keep [OF inv]) (auto simp: Let_def)
  qed
qed

text \<open>A new task is put on the queue.\<close>

lemma sched_inv_admit:
  assumes inv: "sched_inv h k" and t: "k_tasks k (tk_pid t) = None"
    and i: "ti_state (tk_inner t) = Ready" "ti_level (tk_inner t) = 0" "ti_ticks (tk_inner t) = 0"
    and r: "admit t k = Some k'"
  shows "sched_inv h k'"
proof -
  let ?p = "tk_pid t"
  have s: "sinv (rq_levels (k_rq k)) (current h k) (\<lambda>p. inner_of p k)" using inv by (simp add: sched_inv_def)
  have none: "inner_of ?p k = None" using t by (simp add: inner_of_def)
  then have "?p \<notin> set (concat (rq_levels (k_rq k)))" "current h k \<noteq> Some ?p"
    using sinv_queued [OF s, of ?p] sinvD(8) [OF s, of ?p] by force+
  then have "sinv ((rq_levels (k_rq k))[0 := rq_levels (k_rq k) ! 0 @ [?p]]) (current h k)
      ((\<lambda>p. inner_of p k)(?p \<mapsto> tk_inner t))"
    using i by (intro sinv_push [OF s]) auto
  moreover have "(\<lambda>p. inner_of p k') = (\<lambda>p. inner_of p k)(?p \<mapsto> tk_inner t)" "current h k' = current h k"
    using r by (auto simp: admit_def inner_of_def current_def split: bind_splits)
  ultimately show ?thesis
    using inv r by (auto simp: sched_inv_def admit_def rq_push_def Let_def split: bind_splits)
qed

section \<open>Switching\<close>

text \<open>The inner state a task is parked in.\<close>

definition parked :: "task_state \<Rightarrow> task_inner \<Rightarrow> task_inner" where
  "parked st i = (if st = Blocked \<and> ti_wakeup_pending i
     then i\<lparr>ti_wakeup_pending := False, ti_state := Ready\<rparr> else i\<lparr>ti_state := st\<rparr>)"

lemma parked_simps [simp]:
  "ti_level (parked st i) = ti_level i" "ti_ticks (parked st i) = ti_ticks i"
  "ti_kstack (parked st i) = ti_kstack i" "ti_space (parked st i) = ti_space i"
  by (simp_all add: parked_def)

lemma parked_state:
  "ti_state (parked st i) = (if st = Blocked \<and> ti_wakeup_pending i then Ready else st)"
  by (simp add: parked_def)

text \<open>Parking the current task and the idle loop's treatment of it, in one step.\<close>

lemma park_idle_prev:
  assumes inv: "sched_inv h k" and p: "current h k = Some p" "inner_of p k = Some i"
    and can: "canary_intact (ti_kstack i) (k_mm k)" and st: "st \<noteq> Running"
  obtains k1 k2 where "park h st k = Some k1" "idle_prev h k1 = Some k2" "sched_inv h k2"
    "current h k2 = None" "inner_of p k2 = Some (parked st i)" "\<And>q. q \<noteq> p \<Longrightarrow> inner_of q k2 = inner_of q k"
    "k_rq k2 = (if ti_state (parked st i) = Ready then rq_push p (ti_level i) (k_rq k) else k_rq k)"
    "k_mm k2 = k_mm k" "k_space k2 = k_space k"
proof -
  have h: "h < length (k_cpus k)" and s: "sinv (rq_levels (k_rq k)) (Some p) (\<lambda>p. inner_of p k)"
    using inv p(1) by (simp_all add: sched_inv_def)
  note b = sched_inv_inner [OF inv p(2)]
  define k1 where "k1 = upd_cpu h (\<lambda>c. c\<lparr>cpu_previous := Some p\<rparr>)
    (upd_inner p (parked st) (upd_cpu h (\<lambda>c. c\<lparr>cpu_current := None\<rparr>) k))"
  define k2 where "k2 = (let k' = upd_cpu h (\<lambda>c. c\<lparr>cpu_previous := None\<rparr>) k1
    in k'\<lparr>k_rq := (if ti_state (parked st i) = Ready then rq_push p (ti_level i) (k_rq k) else k_rq k)\<rparr>)"
  have park: "park h st k = Some k1"
    using p can unfolding park_def k1_def parked_def [abs_def] by (simp add: Let_def sched_simps)
  have i1: "inner_of p k1 = Some (parked st i)" "k_rq k1 = k_rq k" "cpu_previous (k_cpus k1 ! h) = Some p"
    using p h by (simp_all add: k1_def sched_simps)
  have "ti_state (parked st i) \<noteq> Running" using st by (simp add: parked_state)
  then have idle: "idle_prev h k1 = Some k2"
    using i1 by (cases "ti_state (parked st i)") (auto simp: idle_prev_def k2_def Let_def sched_simps)
  have f2: "(\<lambda>q. inner_of q k2) = (\<lambda>q. inner_of q k)(p \<mapsto> parked st i)" "current h k2 = None"
    "cpu_previous (k_cpus k2 ! h) = None" "h < length (k_cpus k2)" "k_space k2 = k_space k" "k_mm k2 = k_mm k"
    "k_rq k2 = (if ti_state (parked st i) = Ready then rq_push p (ti_level i) (k_rq k) else k_rq k)"
    using p h by (auto simp: k2_def k1_def Let_def sched_simps)
  have "sinv (rq_levels (k_rq k2)) None ((\<lambda>q. inner_of q k)(p \<mapsto> parked st i))"
  proof (cases "ti_state (parked st i) = Ready")
    case False
    then show ?thesis using st b(1,2) f2(7) by (auto simp: parked_state intro!: sinv_stop [OF s] split: if_splits)
  next
    case True
    let ?l = "ti_level i" and ?z = "i\<lparr>ti_state := Zombie\<rparr>"
    have z: "sinv (rq_levels (k_rq k)) None ((\<lambda>q. inner_of q k)(p \<mapsto> ?z))"
      using b(1,2) by (intro sinv_stop [OF s]) simp_all
    have "p \<notin> set (concat (rq_levels (k_rq k)))" using sinv_queued [OF s, of p] by blast
    from sinv_push [OF z this, of "parked st i" ?l] show ?thesis
      using True b(1,2) f2(7) by (simp add: rq_push_def Let_def min_def)
  qed
  then have "sched_inv h k2" using f2 inv by (simp add: sched_inv_def)
  then show ?thesis
    using that [OF park idle] f2 by (metis fun_upd_apply)
qed

text \<open>The choice of the next task.\<close>

lemma pop_levels_concat: "pop_levels ls = Some (p, ls') \<Longrightarrow> concat ls = p # concat ls'"
  by (induction ls arbitrary: ls' rule: pop_levels.induct) auto

lemma sched_pick:
  assumes inv: "sched_inv h k" and cur: "current h k = None"
  shows "case concat (rq_levels (k_rq k)) of
     [] \<Rightarrow> idle_pick h k = Some k
   | p # ps \<Rightarrow> \<exists>k' i. idle_pick h k = Some k' \<and> sched_inv h k' \<and> current h k' = Some p \<and>
       inner_of p k = Some i \<and> inner_of p k' = Some (i\<lparr>ti_state := Running, ti_needs_resched := False\<rparr>) \<and>
       (\<forall>q. q \<noteq> p \<longrightarrow> inner_of q k' = inner_of q k) \<and> concat (rq_levels (k_rq k')) = ps \<and> k_mm k' = k_mm k"
proof (cases "pop_levels (rq_levels (k_rq k))")
  case None
  then have e: "concat (rq_levels (k_rq k)) = []" using pop_levels_None by blast
  show ?thesis unfolding e list.case using None by (simp add: idle_pick_def rq_pop_def)
next
  case (Some r)
  obtain p ls where r: "r = (p, ls)" by force
  have s: "sinv (rq_levels (k_rq k)) None (\<lambda>p. inner_of p k)" and h: "h < length (k_cpus k)"
    using inv cur by (simp_all add: sched_inv_def)
  obtain i where i: "inner_of p k = Some i" "ti_state i = Ready"
    and new: "sinv ls (Some p) ((\<lambda>p. inner_of p k)(p \<mapsto> i\<lparr>ti_state := Running, ti_needs_resched := False\<rparr>))"
    using sinv_pop [OF s Some [unfolded r]] sched_inv_inner(1,2) [OF inv] by fastforce
  have cc: "concat (rq_levels (k_rq k)) = p # concat ls"
    by (rule pop_levels_concat [OF Some [unfolded r]])
  obtain sp where sp: "k_space k = Some sp" using inv by (auto simp: sched_inv_def)
  let ?k1 = "k\<lparr>k_rq := (k_rq k)\<lparr>rq_levels := ls\<rparr>\<rparr>"
  obtain token where tok: "task_token p ?k1 = Some token"
    using i sp by (cases "ti_space i") (auto simp: task_token_def kernel_token_def sched_simps)
  let ?k' = "upd_cpu h (\<lambda>c. c\<lparr>cpu_current := Some p\<rparr>)
    (upd_inner p (\<lambda>i. i\<lparr>ti_state := Running, ti_needs_resched := False\<rparr>) (activate_token h token ?k1))"
  have pick: "idle_pick h k = Some ?k'"
    using Some r tok by (simp add: idle_pick_def rq_pop_def)
  have "sched_inv h ?k'"
    using new i inv h by (simp add: sched_inv_def sched_simps if_fun_upd)
  then show ?thesis
    using pick cc i h by (auto simp: sched_simps)
qed

section \<open>Steps\<close>

text \<open>
  Everything that can happen on the hart. The last three rules stand for the rest of the
  kernel, which changes memory, the other fields of tasks and their wait queues.
\<close>

inductive sched_step :: "nat \<Rightarrow> kstate \<Rightarrow> kstate \<Rightarrow> bool" for h where
  step_wake: "sched_step h k (wake p k)"
| step_tick: "sched_step h k (on_timer_tick h k)"
| step_switch: "st \<noteq> Running \<Longrightarrow> switch_out h st k = Some k' \<Longrightarrow> sched_step h k k'"
| step_idle: "current h k = None \<Longrightarrow> idle_pick h k = Some k' \<Longrightarrow> sched_step h k k'"
| step_resched: "resched_if_needed h k = Some k' \<Longrightarrow> sched_step h k k'"
| step_admit: "alloc_pid k = (tk_pid t, k1) \<Longrightarrow> ti_state (tk_inner t) = Ready \<Longrightarrow>
    ti_level (tk_inner t) = 0 \<Longrightarrow> ti_ticks (tk_inner t) = 0 \<Longrightarrow> admit t k1 = Some k' \<Longrightarrow> sched_step h k k'"
| step_exit: "exit_release h code k = Some k' \<Longrightarrow> sched_step h k k'"
| step_memory: "sched_step h k (k\<lparr>k_mm := mm\<rparr>)"
| step_fields: "(\<And>i. ti_state (f i) = ti_state i \<and> ti_level (f i) = ti_level i \<and> ti_ticks (f i) = ti_ticks i) \<Longrightarrow>
    sched_step h k (upd_inner p f k)"
| step_waiters: "sched_step h k (upd_child_exit p ws k)"

inductive_cases sched_stepE: "sched_step h k k'"

text \<open>Pids are handed out in order and counted by the run queue, so none is used twice.\<close>

definition pids_ok :: "kstate \<Rightarrow> bool" where
  "pids_ok k \<longleftrightarrow> k_next_pid k = (rq_spawned (k_rq k) + 1) mod usize_lim \<and>
     (\<forall>p. k_tasks k p \<noteq> None \<longrightarrow> p \<le> rq_spawned (k_rq k))"

lemma rq_push_spawned [simp]: "rq_spawned (rq_push p l q) = rq_spawned q"
  by (simp add: rq_push_def Let_def)

lemma pids_upd_inner: "pids_ok k \<Longrightarrow> pids_ok (upd_inner p f k)"
  by (simp add: pids_ok_def sched_simps del: not_None_eq)

lemma pids_upd_child_exit: "pids_ok k \<Longrightarrow> pids_ok (upd_child_exit p f k)"
  by (simp add: pids_ok_def upd_child_exit_def del: not_None_eq)

lemma pids_upd_cpu: "pids_ok (upd_cpu h f k) = pids_ok k"
  by (simp add: pids_ok_def sched_simps)

lemma pids_activate: "pids_ok (activate_token h t k) = pids_ok k"
  by (simp add: activate_token_def pids_upd_cpu)

lemma pids_rq: "rq_spawned q = rq_spawned (k_rq k) \<Longrightarrow> pids_ok (k\<lparr>k_rq := q\<rparr>) = pids_ok k"
  by (simp add: pids_ok_def)

lemma pids_mm: "pids_ok (k\<lparr>k_mm := m\<rparr>) = pids_ok k"
  by (simp add: pids_ok_def)

lemmas pids_simps = pids_upd_cpu pids_activate pids_rq pids_mm

lemma pids_wake: "pids_ok k \<Longrightarrow> pids_ok (wake p k)"
  by (auto simp: wake_def Let_def pids_simps sched_simps intro: pids_upd_inner split: option.split)

lemma pids_fold_wake: "pids_ok k \<Longrightarrow> pids_ok (fold wake ps k)"
  by (induction ps arbitrary: k) (auto intro: pids_wake)

lemma pids_park: "pids_ok k \<Longrightarrow> park h st k = Some k' \<Longrightarrow> pids_ok k'"
  by (auto simp: park_def Let_def pids_simps split: option.splits if_splits intro!: pids_upd_inner)

lemma pids_idle_prev: "pids_ok k \<Longrightarrow> idle_prev h k = Some k' \<Longrightarrow> pids_ok k'"
  by (auto simp: idle_prev_def Let_def pids_simps sched_simps split: option.splits task_state.splits)

lemma rq_pop_spawned: "rq_pop q = (r, q') \<Longrightarrow> rq_spawned q' = rq_spawned q"
  by (auto simp: rq_pop_def split: option.splits)

lemma pids_idle_pick: "pids_ok k \<Longrightarrow> idle_pick h k = Some k' \<Longrightarrow> pids_ok k'"
  by (auto simp: idle_pick_def Let_def pids_simps rq_pop_spawned split: prod.splits option.splits bind_splits
      intro!: pids_upd_inner)

lemma switch_outE:
  assumes "switch_out h st k = Some k'"
  obtains k1 k2 where "park h st k = Some k1" "idle_prev h k1 = Some k2" "idle_pick h k2 = Some k'"
  using assms by (auto simp: switch_out_def split: bind_splits)

lemma pids_switch_out: "pids_ok k \<Longrightarrow> switch_out h st k = Some k' \<Longrightarrow> pids_ok k'"
  by (elim switch_outE) (rule pids_idle_pick [OF pids_idle_prev [OF pids_park]])

lemma pids_on_exit: "pids_ok k \<Longrightarrow> pids_ok (on_exit p k)"
  by (auto simp: on_exit_def wq_wake_all_def intro!: pids_fold_wake pids_upd_child_exit split: option.split)

lemma pids_exit_release: "pids_ok k \<Longrightarrow> exit_release h code k = Some k' \<Longrightarrow> pids_ok k'"
  by (auto simp: exit_release_def Let_def activate_kernel_def pids_simps
      intro!: pids_on_exit pids_upd_inner split: option.splits bind_splits)

lemma pids_tick: "pids_ok k \<Longrightarrow> pids_ok (on_timer_tick h k)"
  by (auto simp: on_timer_tick_def intro: pids_upd_inner split: option.split)

lemma pids_admit:
  assumes "pids_ok k" "alloc_pid k = (tk_pid t, k1)" "admit t k1 = Some k'"
  shows "pids_ok k'" "k_tasks k (tk_pid t) = None" "k_tasks k1 = k_tasks k"
proof -
  have k1: "k1 = k\<lparr>k_next_pid := (k_next_pid k + 1) mod usize_lim\<rparr>" "tk_pid t = k_next_pid k"
    using assms(2) by (auto simp: alloc_pid_def)
  have lt: "rq_spawned (k_rq k) + 1 < usize_lim"
    using assms(3) k1 by (auto simp: admit_def checked_add_def split: bind_splits if_splits)
  then have pid: "tk_pid t = rq_spawned (k_rq k) + 1" using assms(1) k1 by (simp add: pids_ok_def)
  show "k_tasks k (tk_pid t) = None" using assms(1) pid unfolding pids_ok_def by (metis Suc_eq_plus1 not_less_eq_eq order_refl)
  show "k_tasks k1 = k_tasks k" by (simp add: k1)
  have le: "k_tasks k p \<noteq> None \<Longrightarrow> p \<le> Suc (rq_spawned (k_rq k))" for p
    using assms(1) by (simp add: pids_ok_def le_SucI)
  have "k_tasks k' = (k_tasks k)(tk_pid t \<mapsto> t)" "rq_spawned (k_rq k') = rq_spawned (k_rq k) + 1"
    "k_next_pid k' = (k_next_pid k + 1) mod usize_lim"
    using assms(3) k1(1) by (auto simp: admit_def checked_add_def split: bind_splits if_splits)
  then show "pids_ok k'"
    using le lt pid k1(2) unfolding pids_ok_def by (auto split: if_splits)
qed

lemma switch_out_some:
  assumes inv: "sched_inv h k" and p: "current h k = Some p" "inner_of p k = Some i"
    and can: "canary_intact (ti_kstack i) (k_mm k)" and st: "st \<noteq> Running"
  defines "q \<equiv> (if ti_state (parked st i) = Ready then rq_push p (ti_level i) (k_rq k) else k_rq k)"
  obtains k' where "switch_out h st k = Some k'" "sched_inv h k'"
    "current h k' = (case concat (rq_levels q) of [] \<Rightarrow> None | r # _ \<Rightarrow> Some r)"
    "concat (rq_levels (k_rq k')) = tl (concat (rq_levels q))"
    "\<And>r. r \<noteq> p \<Longrightarrow> current h k' \<noteq> Some r \<Longrightarrow> inner_of r k' = inner_of r k"
    "current h k' \<noteq> Some p \<Longrightarrow> inner_of p k' = Some (parked st i)"
proof -
  obtain k1 k2 where k2: "park h st k = Some k1" "idle_prev h k1 = Some k2" "sched_inv h k2"
    "current h k2 = None" "inner_of p k2 = Some (parked st i)" "\<And>q. q \<noteq> p \<Longrightarrow> inner_of q k2 = inner_of q k"
    "k_rq k2 = q"
    using park_idle_prev [OF inv p can st] unfolding q_def by metis
  have sw: "switch_out h st k = idle_pick h k2" by (simp add: switch_out_def k2)
  show ?thesis
  proof (cases "concat (rq_levels q)")
    case Nil
    have "idle_pick h k2 = Some k2" using sched_pick [OF k2(3,4)] unfolding k2(7) Nil list.case .
    then show ?thesis using that [of k2] k2(3-6) sw unfolding k2(7) Nil by simp
  next
    case (Cons r rs)
    then obtain k' where "idle_pick h k2 = Some k'" "sched_inv h k'" "current h k' = Some r"
      "\<forall>q. q \<noteq> r \<longrightarrow> inner_of q k' = inner_of q k2" "concat (rq_levels (k_rq k')) = rs"
      using sched_pick [OF k2(3,4)] by (auto simp: k2(7))
    then show ?thesis using that [of k'] sw Cons k2(5,6) by auto
  qed
qed

text \<open>Whether or not the canary is intact, a switch that returns keeps the invariant.\<close>

lemma switch_out_inv:
  assumes inv: "sched_inv h k" and r: "switch_out h st k = Some k'" and st: "st \<noteq> Running"
  shows "sched_inv h k'"
proof -
  obtain k1 where pk: "park h st k = Some k1" using r by (auto simp: switch_out_def split: bind_splits)
  obtain p where p: "current h k = Some p" using pk by (auto simp: park_def split: option.splits)
  obtain i where i: "inner_of p k = Some i"
    using sinvD(8) [of _ "Some p" "\<lambda>p. inner_of p k" p] inv p by (auto simp: sched_inv_def)
  have "canary_intact (ti_kstack i) (k_mm k)"
    using pk p i by (auto simp: park_def Let_def sched_simps split: if_splits)
  from switch_out_some [OF inv p i this st] r show ?thesis by (metis option.inject)
qed

lemma sched_inv_child_exit: "sched_inv h k \<Longrightarrow> sched_inv h (upd_child_exit p f k)"
  by (simp add: sched_inv_def sched_simps)

lemma sched_inv_mm: "sched_inv h (k\<lparr>k_mm := m\<rparr>) = sched_inv h k"
  by (simp add: sched_inv_def sched_simps)

lemma sched_inv_activate: "sched_inv h k \<Longrightarrow> sched_inv h (activate_token h t k)"
  by (auto simp: sched_inv_def sched_simps)

lemma sched_inv_on_exit: "sched_inv h k \<Longrightarrow> sched_inv h (on_exit p k)"
  by (auto simp: on_exit_def wq_wake_all_def intro!: sched_inv_fold_wake sched_inv_child_exit split: option.split)

lemma sched_inv_exit_release: "sched_inv h k \<Longrightarrow> exit_release h code k = Some k' \<Longrightarrow> sched_inv h k'"
  using sched_inv_inner(1,2)
  by (auto simp: exit_release_def Let_def activate_kernel_def sched_inv_mm
      intro!: sched_inv_on_exit sched_inv_activate sched_inv_keep split: option.splits bind_splits)

lemma sched_inv_pick:
  assumes "sched_inv h k" "current h k = None" "idle_pick h k = Some k'"
  shows "sched_inv h k'"
  using sched_pick [OF assms(1,2)] assms(1,3) by (cases "concat (rq_levels (k_rq k))") auto

lemma sched_inv_resched:
  assumes inv: "sched_inv h k" and r: "resched_if_needed h k = Some k'"
  shows "sched_inv h k'" "pids_ok k \<Longrightarrow> pids_ok k'"
proof -
  let ?k = "\<lambda>p. upd_inner p (\<lambda>i. i\<lparr>ti_needs_resched := False\<rparr>) k"
  have up: "sched_inv h (?k p)" for p
    using sched_inv_inner [OF inv] by (intro sched_inv_keep [OF inv]) simp
  have "sched_inv h k' \<and> (pids_ok k \<longrightarrow> pids_ok k')"
  proof (cases "current h k")
    case None
    then show ?thesis using r inv by (simp add: resched_if_needed_def)
  next
    case (Some p)
    then obtain i where i: "inner_of p k = Some i" using r by (cases "inner_of p k") (auto simp: resched_if_needed_def)
    show ?thesis
    proof (cases "ti_needs_resched i")
      case True
      then have "switch_out h Ready (?k p) = Some k'"
        using r Some i by (simp add: resched_if_needed_def yield_now_def)
      then show ?thesis using switch_out_inv [OF up] pids_switch_out pids_upd_inner by blast
    next
      case False
      then have "k' = ?k p" using r Some i by (simp add: resched_if_needed_def)
      then show ?thesis using up pids_upd_inner by blast
    qed
  qed
  then show "sched_inv h k'" "pids_ok k \<Longrightarrow> pids_ok k'" by blast+
qed

lemma sched_step_inv:
  "sched_step h k k' \<Longrightarrow> sched_inv h k \<Longrightarrow> pids_ok k \<Longrightarrow> sched_inv h k' \<and> pids_ok k'"
proof (induction rule: sched_step.induct)
  case (step_admit k t k1 k')
  note a = pids_admit [OF step_admit.prems(2) step_admit.hyps(1,5)]
  have "sched_inv h k1" using step_admit.prems(1) step_admit.hyps(1)
    by (auto simp: alloc_pid_def sched_inv_def inner_of_def current_def)
  moreover have "k_tasks k1 (tk_pid t) = None" using a by simp
  ultimately show ?case using sched_inv_admit step_admit.hyps a(1) by blast
next
  case (step_fields f k p)
  then show ?case
    using sched_inv_inner(1,2) by (auto intro!: sched_inv_keep pids_upd_inner)
qed (auto intro: sched_inv_wake pids_wake sched_inv_tick pids_tick switch_out_inv pids_switch_out sched_inv_pick pids_idle_pick
    sched_inv_resched sched_inv_exit_release pids_exit_release sched_inv_child_exit pids_upd_child_exit
    simp: sched_inv_mm pids_mm)

end
