(* ===== verification/Sched_Props.thy ===== *)
theory Sched_Props
  imports Sched_Correct
begin

text \<open>
  The scheduler's properties: the invariant in every reachable state, what a context
  switch does, that a wakeup of a running task is not lost, the feedback between levels,
  and what goes wrong when a second hart wakes a task that is still being parked.
\<close>

declare concat_eq_Nil_conv [simp del]

section \<open>The state at boot\<close>

definition boot_cpu :: cpu where
  "boot_cpu = \<lparr>cpu_current = None, cpu_previous = None, cpu_satp = 0\<rparr>"

definition boot_state :: "mm_state \<Rightarrow> address_space \<Rightarrow> kstate" where
  "boot_state mm kern = \<lparr>k_tasks = (\<lambda>_. None), k_rq = rq_new, k_cpus = replicate MAX_HARTS boot_cpu,
     k_all = [], k_next_pid = 1, k_mm = mm, k_space = Some kern\<rparr>"

lemma boot_inv:
  assumes "h < MAX_HARTS"
  shows "sched_inv h (boot_state mm kern)" "pids_ok (boot_state mm kern)"
  using assms
  by (auto simp: sched_inv_def boot_state_def boot_cpu_def current_def inner_of_def sinv_def rq_new_def
      pids_ok_def nth_Cons' numeral_3_eq_3)

lemma sched_reachable_inv:
  assumes "(sched_step h)\<^sup>*\<^sup>* k k'" "sched_inv h k" "pids_ok k"
  shows "sched_inv h k' \<and> pids_ok k'"
  using assms by (induction rule: rtranclp_induct) (auto dest: sched_step_inv)


definition demo_mm :: mm_state where
  "demo_mm = \<lparr>fa = buddy_empty, ram = (\<lambda>_. STACK_CANARY)\<rparr>"

definition demo_space :: address_space where
  "demo_space = \<lparr>as_table = \<lparr>pt_root = 0, pt_frames = []\<rparr>, as_regions = []\<rparr>"

definition demo_task :: "pid \<Rightarrow> task" where
  "demo_task p = \<lparr>tk_pid = p, tk_name = [], tk_entry = 0, tk_child_exit = [],
     tk_inner = fresh_inner tc_zeroed \<lparr>ks_frames = \<lparr>fr_ppn = 0x80300, fr_order = 3\<rparr>\<rparr>\<rparr>"

definition demo_ready :: kstate where
  "demo_ready = the (admit (demo_task 1) (snd (alloc_pid (boot_state demo_mm demo_space))))"

lemma demo_admit: "admit (demo_task 1) (snd (alloc_pid (boot_state demo_mm demo_space))) = Some demo_ready"
  by (simp add: demo_ready_def admit_def checked_add_def alloc_pid_def boot_state_def rq_new_def)

lemma demo_step: "sched_step 0 (boot_state demo_mm demo_space) demo_ready"
  by (rule step_admit [OF _ _ _ _ demo_admit])
    (simp_all add: alloc_pid_def boot_state_def demo_task_def fresh_inner_def)

lemma demo_ready_inv: "sched_inv 0 demo_ready" "pids_ok demo_ready"
  using sched_step_inv [OF demo_step boot_inv [of 0]] by simp_all

lemma demo_ready_fields:
  "rq_levels (k_rq demo_ready) = [[1], [], []]" "k_mm demo_ready = demo_mm" "current 0 demo_ready = None"
  "inner_of 1 demo_ready = Some (tk_inner (demo_task 1))"
  by (simp_all add: demo_ready_def admit_def checked_add_def alloc_pid_def boot_state_def rq_new_def
      rq_push_def demo_task_def numeral_3_eq_3 inner_of_def current_def boot_cpu_def)


text \<open>
  C12: A switch away from the current task never panics while its stack canary is
  intact. The task goes to the back of its level if it stays runnable, which includes
  blocking with a wakeup pending, and leaves the queue otherwise; then the hart runs
  the first task of the highest level that is not empty, and idles only when nothing
  is runnable.
\<close>

theorem switch_out_correct:
  assumes "sched_inv h k" and "current h k = Some p" and "inner_of p k = Some i"
    and "canary_intact (ti_kstack i) (k_mm k)" and "st \<noteq> Running"
  shows "\<exists>k'. switch_out h st k = Some k' \<and> sched_inv h k' \<and>
    (let stays = (st = Ready \<or> st = Blocked \<and> ti_wakeup_pending i);
         levels = (if stays then (rq_levels (k_rq k))[ti_level i := rq_levels (k_rq k) ! ti_level i @ [p]]
                   else rq_levels (k_rq k))
     in (case concat levels of
           [] \<Rightarrow> current h k' = None
         | r # rs \<Rightarrow> current h k' = Some r \<and> concat (rq_levels (k_rq k')) = rs) \<and>
        (\<not> stays \<longrightarrow> state_of p k' = Some st))"
proof -
  have st: "ti_state (parked st i) = Ready \<longleftrightarrow> st = Ready \<or> st = Blocked \<and> ti_wakeup_pending i"
    by (auto simp: parked_state)
  have l: "min (ti_level i) 2 = ti_level i" using sched_inv_inner(1) [OF assms(1,3)] by simp
  from switch_out_some [OF assms(1-5)] obtain k' where k': "switch_out h st k = Some k'" "sched_inv h k'"
    and cur: "current h k' = (case concat (rq_levels (if ti_state (parked st i) = Ready
        then rq_push p (ti_level i) (k_rq k) else k_rq k)) of [] \<Rightarrow> None | r # _ \<Rightarrow> Some r)"
    and rest: "concat (rq_levels (k_rq k')) = tl (concat (rq_levels (if ti_state (parked st i) = Ready
        then rq_push p (ti_level i) (k_rq k) else k_rq k)))"
    and out: "current h k' \<noteq> Some p \<Longrightarrow> inner_of p k' = Some (parked st i)"
    by metis
  have "state_of p k' = Some st" if no: "\<not> (st = Ready \<or> st = Blocked \<and> ti_wakeup_pending i)"
  proof -
    have s: "sinv (rq_levels (k_rq k)) (Some p) (\<lambda>p. inner_of p k)" using assms(1,2) by (simp add: sched_inv_def)
    have "p \<notin> set (concat (rq_levels (k_rq k)))" using sinv_queued [OF s, of p] by blast
    then have "current h k' \<noteq> Some p" using cur st no by (cases "concat (rq_levels (k_rq k))") auto
    from out [OF this] show ?thesis using no by (auto simp: state_of_def parked_state)
  qed
  moreover have "rq_levels (if ti_state (parked st i) = Ready then rq_push p (ti_level i) (k_rq k) else k_rq k) =
      (if st = Ready \<or> st = Blocked \<and> ti_wakeup_pending i
       then (rq_levels (k_rq k))[ti_level i := rq_levels (k_rq k) ! ti_level i @ [p]] else rq_levels (k_rq k))"
    (is "_ = ?levels") unfolding st by (simp add: rq_push_def Let_def l)
  ultimately show ?thesis
    using k' cur rest unfolding Let_def by (intro exI [of _ k']) (cases "concat ?levels"; simp)
qed

definition demo_running :: kstate where
  "demo_running = the (idle_pick 0 demo_ready)"

lemma demo_running_facts:
  "sched_inv 0 demo_running" "current 0 demo_running = Some 1" "k_mm demo_running = demo_mm"
  "inner_of 1 demo_running = Some ((tk_inner (demo_task 1))\<lparr>ti_state := Running, ti_needs_resched := False\<rparr>)"
  "concat (rq_levels (k_rq demo_running)) = []"
proof -
  have c: "concat (rq_levels (k_rq demo_ready)) = [1]" by (simp add: demo_ready_fields)
  obtain k' i where k': "idle_pick 0 demo_ready = Some k'" "sched_inv 0 k'" "current 0 k' = Some 1"
    "inner_of 1 demo_ready = Some i" "inner_of 1 k' = Some (i\<lparr>ti_state := Running, ti_needs_resched := False\<rparr>)"
    "concat (rq_levels (k_rq k')) = []" "k_mm k' = k_mm demo_ready"
    using sched_pick [OF demo_ready_inv(1) demo_ready_fields(3)] unfolding c list.case by blast
  then show "sched_inv 0 demo_running" "current 0 demo_running = Some 1" "k_mm demo_running = demo_mm"
    "inner_of 1 demo_running = Some ((tk_inner (demo_task 1))\<lparr>ti_state := Running, ti_needs_resched := False\<rparr>)"
    "concat (rq_levels (k_rq demo_running)) = []"
    using demo_ready_fields by (auto simp: demo_running_def)
qed

lemma demo_canary: "canary_intact ks demo_mm"
  by (simp add: canary_intact_def demo_mm_def read_u64_def)

theorem switch_out_correct_witness:
  "\<exists>k'. switch_out 0 Zombie demo_running = Some k' \<and> current 0 k' = None \<and> state_of 1 k' = Some Zombie"
proof -
  have "canary_intact (ti_kstack ((tk_inner (demo_task 1))\<lparr>ti_state := Running, ti_needs_resched := False\<rparr>))
      (k_mm demo_running)" by (simp add: demo_running_facts demo_canary)
  from switch_out_correct [OF demo_running_facts(1,2,4) this, of Zombie] show ?thesis
    using demo_running_facts(5) by (auto simp: Let_def split: list.splits)
qed

text \<open>
  C13: A wakeup that reaches a task while it is still running, after it queued itself
  and before it blocks, is not lost: the following attempt to block leaves the task
  runnable and consumes the wakeup.
\<close>

theorem wakeup_not_lost:
  assumes "sched_inv h k" and "current h k = Some p" and "inner_of p k = Some i"
    and "canary_intact (ti_kstack i) (k_mm k)"
  shows "\<exists>k' j. block_current h (wake p k) = Some k' \<and> inner_of p k' = Some j \<and>
    ti_state j \<in> {Ready, Running} \<and> \<not> ti_wakeup_pending j"
proof -
  let ?i = "i\<lparr>ti_wakeup_pending := True\<rparr>"
  have "ti_state i = Running" using sched_inv_inner(4) [OF assms(1,3)] assms(2) by simp
  then have w: "wake p k = upd_inner p (\<lambda>i. i\<lparr>ti_wakeup_pending := True\<rparr>) k"
    using assms(3) by (simp add: wake_def)
  have k1: "current h (wake p k) = Some p" "inner_of p (wake p k) = Some ?i"
    "canary_intact (ti_kstack ?i) (k_mm (wake p k))"
    using assms by (simp_all add: w sched_simps)
  obtain k1 k2 where k2: "park h Blocked (wake p k) = Some k1" "idle_prev h k1 = Some k2" "sched_inv h k2"
    "current h k2 = None" "inner_of p k2 = Some (parked Blocked ?i)"
    using park_idle_prev [OF sched_inv_wake [OF assms(1)] k1, of Blocked] by (metis task_state.distinct(7))
  have sw: "block_current h (wake p k) = idle_pick h k2"
    by (simp add: block_current_def switch_out_def k2)
  have j: "ti_state (parked Blocked ?i) = Ready" "\<not> ti_wakeup_pending (parked Blocked ?i)"
    by (simp_all add: parked_def)
  show ?thesis
  proof (cases "concat (rq_levels (k_rq k2))")
    case Nil
    then show ?thesis using sched_pick [OF k2(3,4)] sw k2(5) j unfolding Nil list.case by auto
  next
    case (Cons q qs)
    then obtain k' jj where k': "idle_pick h k2 = Some k'" "inner_of q k2 = Some jj"
      "inner_of q k' = Some (jj\<lparr>ti_state := Running, ti_needs_resched := False\<rparr>)"
      "\<forall>r. r \<noteq> q \<longrightarrow> inner_of r k' = inner_of r k2"
      using sched_pick [OF k2(3,4)] unfolding Cons list.case by blast
    then show ?thesis using sw k2(5) j by (cases "p = q") auto
  qed
qed

theorem wakeup_not_lost_witness:
  "\<exists>k' j. block_current 0 (wake 1 demo_running) = Some k' \<and> inner_of 1 k' = Some j \<and>
    ti_state j \<in> {Ready, Running}"
proof -
  have "canary_intact (ti_kstack ((tk_inner (demo_task 1))\<lparr>ti_state := Running, ti_needs_resched := False\<rparr>))
      (k_mm demo_running)" by (simp add: demo_running_facts demo_canary)
  from wakeup_not_lost [OF demo_running_facts(1,2,4) this] show ?thesis by blast
qed

section \<open>The feedback between levels\<close>

lemma tick_current [sched_simps]: "current h' (on_timer_tick h k) = current h' k"
  by (simp add: on_timer_tick_def sched_simps split: option.split)

lemma ticks_current: "current h' ((on_timer_tick h ^^ n) k) = current h' k"
  by (induction n) (simp_all add: sched_simps)

lemma tick_inner:
  "current h k = Some p \<Longrightarrow> inner_of p k = Some i \<Longrightarrow> inner_of p (on_timer_tick h k) =
    Some (if QUANTA_PER_LEVEL \<le> ti_ticks i + 1
      then i\<lparr>ti_level := min (ti_level i + 1) (PRIORITY_LEVELS - 1), ti_ticks := 0, ti_needs_resched := True\<rparr>
      else i\<lparr>ti_ticks := ti_ticks i + 1, ti_needs_resched := True\<rparr>)"
  by (simp add: on_timer_tick_def sched_simps Let_def)

text \<open>
  The running task keeps its level for the first three timer ticks and drops one
  level, but not below the last, on the fourth, when its tick count starts again; each
  tick asks for a reschedule.
\<close>

theorem ticks_demote:
  assumes "current h k = Some p" and "inner_of p k = Some i" and "ti_ticks i = 0" and "n < QUANTA_PER_LEVEL"
  shows "inner_of p ((on_timer_tick h ^^ Suc n) k) =
    Some (i\<lparr>ti_level := (if Suc n = QUANTA_PER_LEVEL then min (ti_level i + 1) (PRIORITY_LEVELS - 1) else ti_level i),
            ti_ticks := Suc n mod QUANTA_PER_LEVEL, ti_needs_resched := True\<rparr>)"
  using assms(4)
proof (induction n)
  case 0
  then show ?case using assms(3) tick_inner [OF assms(1,2)] by simp
next
  case (Suc n)
  have cur: "current h ((on_timer_tick h ^^ Suc n) k) = Some p" using assms(1) by (simp only: ticks_current)
  have step: "(on_timer_tick h ^^ Suc (Suc n)) k = on_timer_tick h ((on_timer_tick h ^^ Suc n) k)"
    by (simp only: funpow.simps comp_apply)
  have "n < QUANTA_PER_LEVEL" using Suc.prems by simp
  note t = tick_inner [OF cur Suc.IH [OF this]]
  have "n = 0 \<or> n = 1 \<or> n = 2" using Suc.prems by linarith
  then show ?case unfolding step t by (elim disjE) simp_all
qed

theorem ticks_demote_witness:
  "map_option ti_level (inner_of 1 ((on_timer_tick 0 ^^ Suc 2) demo_running)) = Some 0 \<and>
   map_option ti_level (inner_of 1 ((on_timer_tick 0 ^^ Suc 3) demo_running)) = Some 1"
proof -
  let ?i = "(tk_inner (demo_task 1))\<lparr>ti_state := Running, ti_needs_resched := False\<rparr>"
  have i: "ti_ticks ?i = 0" "ti_level ?i = 0" by (simp_all add: demo_task_def fresh_inner_def)
  have "2 < QUANTA_PER_LEVEL" "3 < QUANTA_PER_LEVEL" by simp_all
  then show ?thesis
    unfolding ticks_demote [OF demo_running_facts(2,4) i(1) \<open>2 < QUANTA_PER_LEVEL\<close>]
      ticks_demote [OF demo_running_facts(2,4) i(1) \<open>3 < QUANTA_PER_LEVEL\<close>]
    using i(2) by simp
qed

section \<open>Two harts\<close>

text \<open>
  C14: When another hart wakes a task after it has been marked blocked and before its
  own hart's idle loop has looked at it, both put it on the run queue, which then holds
  the task twice.
\<close>

theorem wake_while_parking_duplicates:
  assumes "sched_inv h k" and "current h k = Some p" and "inner_of p k = Some i"
    and "canary_intact (ti_kstack i) (k_mm k)" and "\<not> ti_wakeup_pending i"
  shows "\<exists>k1 k2. park h Blocked k = Some k1 \<and> idle_prev h (wake p k1) = Some k2 \<and>
    count_list (concat (rq_levels (k_rq k2))) p = 2"
proof -
  have h: "h < length (k_cpus k)" and s: "sinv (rq_levels (k_rq k)) (Some p) (\<lambda>p. inner_of p k)"
    using assms(1,2) by (simp_all add: sched_inv_def)
  let ?L = "rq_levels (k_rq k)" and ?l = "ti_level i - 1"
  define k1 where "k1 = upd_cpu h (\<lambda>c. c\<lparr>cpu_previous := Some p\<rparr>)
    (upd_inner p (parked Blocked) (upd_cpu h (\<lambda>c. c\<lparr>cpu_current := None\<rparr>) k))"
  have park: "park h Blocked k = Some k1"
    using assms unfolding park_def k1_def parked_def [abs_def] by (simp add: Let_def sched_simps)
  have i1: "inner_of p k1 = Some (i\<lparr>ti_state := Blocked\<rparr>)" "k_rq k1 = k_rq k"
    "cpu_previous (k_cpus k1 ! h) = Some p" "h < length (k_cpus k1)"
    using assms h by (simp_all add: k1_def sched_simps parked_def)
  define q where "q = rq_push p ?l (rq_push p ?l (k_rq k))"
  have "\<exists>k2. idle_prev h (wake p k1) = Some k2 \<and> k_rq k2 = q"
    using i1 by (simp add: idle_prev_def wake_def Let_def sched_simps q_def)
  moreover have "count_list (concat (rq_levels q)) p = 2"
  proof -
    have l: "?l < length ?L" "min ?l 2 = ?l" using sinvD(1) [OF s] sched_inv_inner(1) [OF assms(1,3)] by simp_all
    have "p \<notin> set (concat ?L)" using sinv_queued [OF s, of p] by blast
    then have "count_list (concat ?L) p = 0" by (simp add: count_list_0_iff)
    moreover have "?L = take ?l ?L @ ?L ! ?l # drop (Suc ?l) ?L" using l(1) by (simp only: id_take_nth_drop)
    then have "concat ?L = concat (take ?l ?L) @ ?L ! ?l @ concat (drop (Suc ?l) ?L)"
      by (metis concat.simps(2) concat_append)
    moreover have "rq_levels q = ?L[?l := ?L ! ?l @ [p, p]]"
      using l by (simp add: q_def rq_push_def Let_def)
    then have "rq_levels q = take ?l ?L @ (?L ! ?l @ [p, p]) # drop (Suc ?l) ?L"
      using l(1) by (simp only: upd_conv_take_nth_drop)
    ultimately show ?thesis by simp
  qed
  ultimately show ?thesis using park by blast
qed

theorem wake_while_parking_duplicates_witness:
  "\<exists>k1 k2. park 0 Blocked demo_running = Some k1 \<and> idle_prev 0 (wake 1 k1) = Some k2 \<and>
    count_list (concat (rq_levels (k_rq k2))) 1 = 2"
proof -
  have "canary_intact (ti_kstack ((tk_inner (demo_task 1))\<lparr>ti_state := Running, ti_needs_resched := False\<rparr>))
      (k_mm demo_running)" by (simp add: demo_running_facts demo_canary)
  then show ?thesis
    by (intro wake_while_parking_duplicates [OF demo_running_facts(1,2,4)])
      (simp_all add: demo_task_def fresh_inner_def)
qed

end
