(* ===== verification/Timer.thy ===== *)
theory Timer
  imports Scheduler Machine
begin

text \<open>
  Timer interrupts, \<^verbatim>\<open>kernel/src/timer.rs\<close>. The deadlines are 64-bit counter values
  kept as natural numbers; \<open>None\<close> is the panic of an overflowing addition or product.
\<close>

abbreviation (input) TIMER_FREQ :: nat where "TIMER_FREQ \<equiv> 10000000"
abbreviation (input) TICK_MS :: nat where "TICK_MS \<equiv> 10"

record timer_statics =
  tm_ticks :: nat
  tm_next :: nat

definition interval :: nat where
  "interval = TIMER_FREQ div 1000 * TICK_MS"

definition timer_init :: "'d machine \<Rightarrow> timer_statics \<Rightarrow> 'd \<Rightarrow> (timer_statics \<times> 'd) option" where
  "timer_init M t d = do {
     let (now, d1) = m_time M d;
     deadline \<leftarrow> checked_add now interval;
     Some (t\<lparr>tm_next := deadline\<rparr>, snd (set_timer M deadline d1))
   }"

definition on_tick :: "'d machine \<Rightarrow> nat \<Rightarrow> timer_statics \<times> kstate \<times> 'd \<Rightarrow> (timer_statics \<times> kstate \<times> 'd) option" where
  "on_tick M h = (\<lambda>(t, k, d). do {
     let t1 = t\<lparr>tm_ticks := (tm_ticks t + 1) mod 2 ^ 64\<rparr>;
     let k1 = on_timer_tick h k;
     let (now, d1) = m_time M d;
     next \<leftarrow> checked_add (tm_next t1) interval;
     next \<leftarrow> (if next \<le> now then checked_add now interval else Some next);
     Some (t1\<lparr>tm_next := next\<rparr>, k1, snd (set_timer M next d1))
   })"

definition ticks :: "timer_statics \<Rightarrow> nat" where
  "ticks t = tm_ticks t"

definition uptime_ms :: "'d machine \<Rightarrow> 'd \<Rightarrow> (nat \<times> 'd) option" where
  "uptime_ms M d =
     (case m_time M d of (now, d1) \<Rightarrow>
        if now * 1000 < 2 ^ 64 then Some (now * 1000 div TIMER_FREQ, d1) else None)"

partial_function (option) spin_until :: "'d machine \<Rightarrow> nat \<Rightarrow> 'd \<Rightarrow> 'd option" where
  "spin_until M target d =
     (case m_time M d of (now, d1) \<Rightarrow> if now < target then spin_until M target d1 else Some d1)"

definition spin_delay_ms :: "'d machine \<Rightarrow> nat \<Rightarrow> 'd \<Rightarrow> 'd option" where
  "spin_delay_ms M ms d = do {
     let (now, d1) = m_time M d;
     target \<leftarrow> (if TIMER_FREQ div 1000 * ms < 2 ^ 64 then checked_add now (TIMER_FREQ div 1000 * ms) else None);
     spin_until M target d1
   }"

section \<open>Deadlines\<close>

lemma on_tick_some:
  assumes "m_time M d = (now, d1)" "tm_next t + interval < 2 ^ 64" "now + interval < 2 ^ 64"
  shows "\<exists>next. on_tick M h (t, k, d) =
      Some (\<lparr>tm_ticks = (tm_ticks t + 1) mod 2 ^ 64, tm_next = next\<rparr>, on_timer_tick h k, snd (set_timer M next d1))
    \<and> next = (if now < tm_next t + interval then tm_next t + interval else now + interval)"
  using assms by (cases t) (auto simp: on_tick_def checked_add_def Let_def)

text \<open>C18: A timer interrupt accounts one tick to the running task and arms the firmware
  timer with a deadline that lies in the future. The deadline is the previous one plus
  one quantum, unless that has already passed; then it is one quantum from now. Nothing
  panics as long as the counter stays below its range.\<close>

theorem on_tick_correct:
  assumes "m_time M d = (now, d1)" "tm_next t + interval < 2 ^ 64" "now + interval < 2 ^ 64"
  shows "\<exists>t' next. on_tick M h (t, k, d) = Some (t', on_timer_tick h k, snd (set_timer M next d1))
    \<and> tm_next t' = next \<and> now < next \<and> tm_ticks t' = (tm_ticks t + 1) mod 2 ^ 64
    \<and> next \<le> max now (tm_next t) + interval
    \<and> (now < tm_next t + interval \<longrightarrow> next = tm_next t + interval)"
proof -
  have "0 < interval" by (simp add: interval_def)
  then show ?thesis using on_tick_some [OF assms, of h k] by auto
qed

text \<open>A machine whose counter advances by 7 at each read and which remembers the timer.\<close>

definition demo_clock :: "(nat \<times> nat) machine" where
  "demo_clock = \<lparr>m_read8 = (\<lambda>_ d. (0, d)), m_write8 = (\<lambda>_ _ d. d), m_read32 = (\<lambda>_ d. (0, d)),
     m_write32 = (\<lambda>_ _ d. d), m_time = (\<lambda>(now, tm). (now, now + 7, tm)),
     m_ecall = (\<lambda>eid _ a _ _ (now, tm). (\<lparr>sr_error = 0, sr_value = 0\<rparr>, now, if eid = EID_TIME then a else tm))\<rparr>"

theorem on_tick_correct_witness:
  "\<forall>k. \<exists>t'. on_tick demo_clock 0 (\<lparr>tm_ticks = 4, tm_next = 100000\<rparr>, k, 100050, 0)
     = Some (t', on_timer_tick 0 k, 100057, 200000) \<and> tm_next t' = 200000"
proof
  fix k
  show "\<exists>t'. on_tick demo_clock 0 (\<lparr>tm_ticks = 4, tm_next = 100000\<rparr>, k, 100050, 0)
     = Some (t', on_timer_tick 0 k, 100057, 200000) \<and> tm_next t' = 200000"
    using on_tick_correct [of demo_clock "(100050, 0)" 100050 "(100057, 0)" "\<lparr>tm_ticks = 4, tm_next = 100000\<rparr>" 0 k]
    by (auto simp: demo_clock_def interval_def set_timer_def)
qed

section \<open>Runs of ticks\<close>

primrec tick_run :: "'d machine \<Rightarrow> nat \<Rightarrow> nat \<Rightarrow> timer_statics \<times> kstate \<times> 'd \<Rightarrow> (timer_statics \<times> kstate \<times> 'd) option" where
  "tick_run M h 0 w = Some w"
| "tick_run M h (Suc n) w = do { w1 \<leftarrow> tick_run M h n w; on_tick M h w1 }"

text \<open>The tick rate does not drift. If every interrupt is handled before the deadline
  after it, however late within its own period, then after \<open>n\<close> ticks the timer is armed
  for exactly \<open>n\<close> quanta after the first deadline, and \<open>n\<close> ticks have been counted and accounted.\<close>

theorem tick_run_exact:
  assumes "tm_next t + n * interval < 2 ^ 64"
    and "\<And>i t1 k1 d1. i < n \<Longrightarrow> tick_run M h i (t, k, d) = Some (t1, k1, d1) \<Longrightarrow>
      fst (m_time M d1) < tm_next t + (i + 1) * interval \<and> fst (m_time M d1) + interval < 2 ^ 64"
  shows "\<exists>t' d'. tick_run M h n (t, k, d) = Some (t', (on_timer_tick h ^^ n) k, d')
    \<and> tm_next t' = tm_next t + n * interval \<and> tm_ticks t' mod 2 ^ 64 = (tm_ticks t + n) mod 2 ^ 64"
  using assms
proof (induction n)
  case (Suc n)
  have le: "tm_next t + n * interval < 2 ^ 64" using Suc.prems(1) by simp
  obtain t1 d1 where 1: "tick_run M h n (t, k, d) = Some (t1, (on_timer_tick h ^^ n) k, d1)"
    "tm_next t1 = tm_next t + n * interval" "tm_ticks t1 mod 2 ^ 64 = (tm_ticks t + n) mod 2 ^ 64"
    using Suc.IH [OF le] Suc.prems(2) by (metis less_SucI)
  obtain now d2 where now: "m_time M d1 = (now, d2)" by fastforce
  have "now < tm_next t1 + interval" "now + interval < 2 ^ 64" "tm_next t1 + interval < 2 ^ 64"
    using Suc.prems(2) [of n, OF _ 1(1)] Suc.prems(1) 1(2) now by (auto simp: algebra_simps)
  moreover have "(tm_ticks t1 + 1) mod 2 ^ 64 = (tm_ticks t + Suc n) mod 2 ^ 64"
    using mod_add_cong [OF 1(3), of 1 1] by simp
  ultimately show ?case
    using on_tick_some [OF now, of t1 h "(on_timer_tick h ^^ n) k"] 1 by (auto simp: algebra_simps)
qed simp

theorem tick_run_exact_witness:
  "\<forall>k. \<exists>t' d'. tick_run demo_clock 0 2 (\<lparr>tm_ticks = 4, tm_next = 100000\<rparr>, k, 100000, 0)
     = Some (t', (on_timer_tick 0 ^^ 2) k, d') \<and> tm_next t' = 300000"
proof
  fix k
  let ?t = "\<lparr>tm_ticks = 4, tm_next = 100000\<rparr>"
  have "fst (m_time demo_clock d1) < tm_next ?t + (i + 1) * interval \<and> fst (m_time demo_clock d1) + interval < 2 ^ 64"
    if "i < 2" "tick_run demo_clock 0 i (?t, k, 100000, 0) = Some (t1, k1, d1)" for i t1 k1 d1
  proof -
    have "i = 0 \<or> i = 1" using that(1) by auto
    then show ?thesis using that(2)
      by (auto simp: on_tick_def demo_clock_def interval_def set_timer_def checked_add_def Let_def)
  qed
  moreover have "tm_next ?t + 2 * interval < 2 ^ 64" by (simp add: interval_def)
  ultimately have "\<exists>t' d'. tick_run demo_clock 0 2 (?t, k, 100000, 0) = Some (t', (on_timer_tick 0 ^^ 2) k, d')
    \<and> tm_next t' = tm_next ?t + 2 * interval"
    using tick_run_exact [of ?t 2 demo_clock 0 k "(100000, 0)"] by blast
  then show "\<exists>t' d'. tick_run demo_clock 0 2 (?t, k, 100000, 0)
     = Some (t', (on_timer_tick 0 ^^ 2) k, d') \<and> tm_next t' = 300000"
    by (simp add: interval_def)
qed

end
