(* ===== verification/Uart_Correct.thy ===== *)
theory Uart_Correct
  imports Uart
begin

text \<open>
  Correctness of the serial driver: the ring refines a queue that drops what does not fit,
  the interrupt handler moves the device's bytes into it in order, and the writer sends
  each byte with line feeds expanded.
\<close>

unbundle bit_operations_syntax

section \<open>The ring refines a queue\<close>

datatype ring_op = Push u8 | Pop

datatype ring_res = Pushed bool | Popped "u8 option"

fun ring_step :: "ring_op \<Rightarrow> rx_ring \<Rightarrow> ring_res \<times> rx_ring" where
  "ring_step (Push b) r = (case rx_push b r of (ok, r') \<Rightarrow> (Pushed ok, r'))"
| "ring_step Pop r = (case rx_pop r of (b, r') \<Rightarrow> (Popped b, r'))"

fun queue_step :: "ring_op \<Rightarrow> u8 list \<Rightarrow> ring_res \<times> u8 list" where
  "queue_step (Push b) q = (if length q < RX_CAP - 1 then (Pushed True, q @ [b]) else (Pushed False, q))"
| "queue_step Pop q = (case q of [] \<Rightarrow> (Popped None, []) | b # q' \<Rightarrow> (Popped (Some b), q'))"

fun run_ops :: "(ring_op \<Rightarrow> 's \<Rightarrow> ring_res \<times> 's) \<Rightarrow> ring_op list \<Rightarrow> 's \<Rightarrow> ring_res list \<times> 's" where
  "run_ops step [] s = ([], s)"
| "run_ops step (x # xs) s =
     (case step x s of (y, s1) \<Rightarrow> case run_ops step xs s1 of (ys, s2) \<Rightarrow> (y # ys, s2))"

lemma ring_step_refines:
  assumes "rx_ok r"
  shows "\<exists>r'. ring_step x r = (fst (queue_step x (rx_items r)), r') \<and> rx_ok r'
    \<and> rx_items r' = snd (queue_step x (rx_items r))"
proof (cases x)
  case (Push b)
  then show ?thesis
    using rx.push_room [OF assms, of b] rx.push_full [OF assms, of b] rx.items_cap [OF assms] assms
    by (cases "length (rx_items r) < 255") auto
next
  case Pop
  then show ?thesis
    using rx.pop_empty [OF assms] rx.pop_nonempty [OF assms] assms
    by (cases "rx_items r") fastforce+
qed

lemma run_refines:
  "rx_ok r \<Longrightarrow> \<exists>r'. run_ops ring_step xs r = (fst (run_ops queue_step xs (rx_items r)), r') \<and> rx_ok r'
     \<and> rx_items r' = snd (run_ops queue_step xs (rx_items r))"
proof (induction xs arbitrary: r)
  case (Cons x xs)
  obtain r1 where r1: "ring_step x r = (fst (queue_step x (rx_items r)), r1)" "rx_ok r1"
    "rx_items r1 = snd (queue_step x (rx_items r))"
    using ring_step_refines [OF Cons.prems] by blast
  then show ?case using Cons.IH [OF r1(2)] by (auto split: prod.splits)
qed simp

lemma rx_new_ok: "rx_ok rx_new" "rx_items rx_new = []"
  by (simp_all add: rx_ok_def rx_new_def rx_items_def rx_len_def)

text \<open>C16: Any sequence of pushes and pops on a new receive ring gives the results
  of the same sequence on a queue of at most 255 bytes that refuses the newest byte when
  full, and the ring holds what the queue holds.\<close>

theorem rx_ring_refines:
  "\<exists>r. run_ops ring_step ops rx_new = (fst (run_ops queue_step ops []), r) \<and> rx_ok r
     \<and> rx_items r = snd (run_ops queue_step ops [])"
  using run_refines [OF rx_new_ok(1)] by (simp add: rx_new_ok(2))

section \<open>The device's contract\<close>

text \<open>
  What is observable of a 16550: its configuration, the receive queue, the bytes sent, and
  how many more polls find the transmitter busy. Bytes may arrive at any read.
\<close>

record uart_obs =
  o_lcr :: u8
  o_ier :: u8
  o_dll :: u8
  o_dlm :: u8
  o_rx :: "u8 list"
  o_sent :: "u8 list"
  o_busy :: nat

abbreviation dlab :: "uart_obs \<Rightarrow> bool" where "dlab ob \<equiv> o_lcr ob AND LCR_DLAB \<noteq> 0"

definition lsr_law :: "'d machine \<Rightarrow> uart \<Rightarrow> ('d \<Rightarrow> uart_obs) \<Rightarrow> bool" where
  "lsr_law M u obs \<longleftrightarrow>
     (\<forall>d v d'. uart_read M u LSR d = (v, d') \<longrightarrow>
        (\<exists>new. obs d' = (obs d)\<lparr>o_rx := o_rx (obs d) @ new, o_busy := o_busy (obs d) - 1\<rparr>) \<and>
        (v AND LSR_DATA_READY = 0 \<longleftrightarrow> o_rx (obs d') = []) \<and>
        (v AND LSR_THR_EMPTY = 0 \<longleftrightarrow> o_busy (obs d) \<noteq> 0))"

definition rbr_law :: "'d machine \<Rightarrow> uart \<Rightarrow> ('d \<Rightarrow> uart_obs) \<Rightarrow> bool" where
  "rbr_law M u obs \<longleftrightarrow>
     (\<forall>d b d' x xs. uart_read M u RBR_THR_DLL d = (b, d') \<longrightarrow> \<not> dlab (obs d) \<longrightarrow> o_rx (obs d) = x # xs \<longrightarrow>
        b = x \<and> (\<exists>new. obs d' = (obs d)\<lparr>o_rx := xs @ new\<rparr>))"

definition thr_law :: "'d machine \<Rightarrow> uart \<Rightarrow> ('d \<Rightarrow> uart_obs) \<Rightarrow> bool" where
  "thr_law M u obs \<longleftrightarrow>
     (\<forall>d b. o_busy (obs d) = 0 \<longrightarrow> \<not> dlab (obs d) \<longrightarrow>
        (\<exists>n. obs (uart_write M u RBR_THR_DLL b d) = (obs d)\<lparr>o_sent := o_sent (obs d) @ [b], o_busy := n\<rparr>))"

definition config_law :: "'d machine \<Rightarrow> uart \<Rightarrow> ('d \<Rightarrow> uart_obs) \<Rightarrow> bool" where
  "config_law M u obs \<longleftrightarrow>
     (\<forall>d b. dlab (obs d) \<longrightarrow> obs (uart_write M u RBR_THR_DLL b d) = (obs d)\<lparr>o_dll := b\<rparr>) \<and>
     (\<forall>d b. obs (uart_write M u IER_DLM b d) =
        (if dlab (obs d) then (obs d)\<lparr>o_dlm := b\<rparr> else (obs d)\<lparr>o_ier := b\<rparr>)) \<and>
     (\<forall>d b. obs (uart_write M u LCR b d) = (obs d)\<lparr>o_lcr := b\<rparr>) \<and>
     (\<forall>d b. b AND FCR_CLEAR_RX \<noteq> 0 \<longrightarrow> obs (uart_write M u IIR_FCR b d) = (obs d)\<lparr>o_rx := []\<rparr>) \<and>
     (\<forall>d b. obs (uart_write M u MCR b d) = obs d)"

definition ns16550 :: "'d machine \<Rightarrow> uart \<Rightarrow> ('d \<Rightarrow> uart_obs) \<Rightarrow> bool" where
  "ns16550 M u obs \<longleftrightarrow> lsr_law M u obs \<and> rbr_law M u obs \<and> thr_law M u obs \<and> config_law M u obs"

text \<open>A device that behaves so: the observations are its state.\<close>

definition demo_uart_read :: "virt_addr \<Rightarrow> uart_obs \<Rightarrow> u8 \<times> uart_obs" where
  "demo_uart_read a ob =
     (if a = phys_to_virt (UART_BASE + LSR)
      then ((if o_rx ob \<noteq> [] then 0x01 else 0) OR (if o_busy ob = 0 then 0x20 else 0),
            ob\<lparr>o_busy := o_busy ob - 1\<rparr>)
      else case o_rx ob of [] \<Rightarrow> (0, ob) | x # xs \<Rightarrow> (x, ob\<lparr>o_rx := xs\<rparr>))"

definition demo_uart_write :: "virt_addr \<Rightarrow> u8 \<Rightarrow> uart_obs \<Rightarrow> uart_obs" where
  "demo_uart_write a b ob =
     (if a = phys_to_virt (UART_BASE + RBR_THR_DLL)
      then if dlab ob then ob\<lparr>o_dll := b\<rparr> else ob\<lparr>o_sent := o_sent ob @ [b], o_busy := 3\<rparr>
      else if a = phys_to_virt (UART_BASE + IER_DLM)
      then if dlab ob then ob\<lparr>o_dlm := b\<rparr> else ob\<lparr>o_ier := b\<rparr>
      else if a = phys_to_virt (UART_BASE + LCR) then ob\<lparr>o_lcr := b\<rparr>
      else if a = phys_to_virt (UART_BASE + IIR_FCR) \<and> b AND FCR_CLEAR_RX \<noteq> 0 then ob\<lparr>o_rx := []\<rparr>
      else ob)"

definition demo_uart :: "uart_obs machine" where
  "demo_uart = \<lparr>m_read8 = demo_uart_read, m_write8 = demo_uart_write, m_read32 = (\<lambda>_ d. (0, d)),
     m_write32 = (\<lambda>_ _ d. d), m_time = (\<lambda>d. (0, d)), m_ecall = (\<lambda>_ _ _ _ _ d. (\<lparr>sr_error = 0, sr_value = 0\<rparr>, d))\<rparr>"

definition demo_obs :: uart_obs where
  "demo_obs = \<lparr>o_lcr = 3, o_ier = 1, o_dll = 3, o_dlm = 0, o_rx = [104, 105], o_sent = [], o_busy = 2\<rparr>"

lemma demo_uart_ok: "ns16550 demo_uart (us_uart uart_statics_new) (\<lambda>d. d)"
proof -
  have 1: "\<exists>new. r\<lparr>o_busy := n\<rparr> = r\<lparr>o_rx := o_rx r @ new, o_busy := n\<rparr>" for r :: uart_obs and n
    by (rule exI [of _ "[]"]) simp
  have 2: "\<exists>new. r\<lparr>o_busy := n\<rparr> = r\<lparr>o_rx := new, o_busy := n\<rparr>" if "o_rx r = []" for r :: uart_obs and n
    using 1 [of n r] that by simp
  have 3: "\<exists>new. r\<lparr>o_rx := xs\<rparr> = r\<lparr>o_rx := xs @ new\<rparr>" for r :: uart_obs and xs
    by (rule exI [of _ "[]"]) simp
  have 4: "\<exists>n. r\<lparr>o_sent := s, o_busy := 3\<rparr> = r\<lparr>o_sent := s, o_busy := n\<rparr>" for r :: uart_obs and s
    by blast
  show ?thesis
    unfolding ns16550_def lsr_law_def rbr_law_def thr_law_def config_law_def
    by (simp add: demo_uart_def demo_uart_read_def demo_uart_write_def uart_read_def uart_write_def
        uart_reg_def uart_statics_new_def phys_to_virt_def 1 2 3 4 split: list.splits)
qed

lemma ns16550_lsr:
  assumes "ns16550 M u obs" "uart_read M u LSR d = (v, d')"
  shows "\<exists>new. obs d' = (obs d)\<lparr>o_rx := o_rx (obs d) @ new, o_busy := o_busy (obs d) - 1\<rparr>"
    "v AND LSR_DATA_READY = 0 \<longleftrightarrow> o_rx (obs d') = []" "v AND LSR_THR_EMPTY = 0 \<longleftrightarrow> o_busy (obs d) \<noteq> 0"
proof -
  have "lsr_law M u obs" using assms(1) by (simp add: ns16550_def)
  note law = this [unfolded lsr_law_def, rule_format, OF assms(2)]
  show "\<exists>new. obs d' = (obs d)\<lparr>o_rx := o_rx (obs d) @ new, o_busy := o_busy (obs d) - 1\<rparr>"
    "v AND LSR_DATA_READY = 0 \<longleftrightarrow> o_rx (obs d') = []" "v AND LSR_THR_EMPTY = 0 \<longleftrightarrow> o_busy (obs d) \<noteq> 0"
    using law by blast+
qed

lemma ns16550_rbr:
  assumes "ns16550 M u obs" "uart_read M u RBR_THR_DLL d = (b, d')" "\<not> dlab (obs d)" "o_rx (obs d) = x # xs"
  shows "b = x" "\<exists>new. obs d' = (obs d)\<lparr>o_rx := xs @ new\<rparr>"
proof -
  have "rbr_law M u obs" using assms(1) by (simp add: ns16550_def)
  note law = this [unfolded rbr_law_def, rule_format, OF assms(2-4)]
  show "b = x" "\<exists>new. obs d' = (obs d)\<lparr>o_rx := xs @ new\<rparr>" using law by blast+
qed

lemma ns16550_thr:
  assumes "ns16550 M u obs" "o_busy (obs d) = 0" "\<not> dlab (obs d)"
  shows "\<exists>n. obs (uart_write M u RBR_THR_DLL b d) = (obs d)\<lparr>o_sent := o_sent (obs d) @ [b], o_busy := n\<rparr>"
proof -
  have "thr_law M u obs" using assms(1) by (simp add: ns16550_def)
  then show ?thesis unfolding thr_law_def using assms(2,3) by blast
qed

lemma ns16550_config:
  assumes "ns16550 M u obs"
  shows "obs (uart_write M u IER_DLM b d) = (if dlab (obs d) then (obs d)\<lparr>o_dlm := b\<rparr> else (obs d)\<lparr>o_ier := b\<rparr>)"
    "obs (uart_write M u LCR b d) = (obs d)\<lparr>o_lcr := b\<rparr>"
    "obs (uart_write M u MCR b d) = obs d"
    "dlab (obs d) \<Longrightarrow> obs (uart_write M u RBR_THR_DLL b d) = (obs d)\<lparr>o_dll := b\<rparr>"
    "b AND FCR_CLEAR_RX \<noteq> 0 \<Longrightarrow> obs (uart_write M u IIR_FCR b d) = (obs d)\<lparr>o_rx := []\<rparr>"
  using assms unfolding ns16550_def config_law_def by blast+

section \<open>The interrupt handler\<close>

lemma uart_get_none:
  assumes dev: "ns16550 M u obs" and g: "uart_get M u d = (None, d')"
  shows "o_rx (obs d') = []" "o_rx (obs d) = []" "o_lcr (obs d') = o_lcr (obs d)" "o_sent (obs d') = o_sent (obs d)"
proof -
  obtain v where r: "uart_read M u LSR d = (v, d')" "v AND 1 = 0"
    using g by (auto simp: uart_get_def split: prod.splits if_splits)
  have "\<exists>new. obs d' = (obs d)\<lparr>o_rx := o_rx (obs d) @ new, o_busy := o_busy (obs d) - 1\<rparr>" "o_rx (obs d') = []"
    using ns16550_lsr [OF dev r(1)] r(2) by blast+
  then show "o_rx (obs d') = []" "o_rx (obs d) = []" "o_lcr (obs d') = o_lcr (obs d)" "o_sent (obs d') = o_sent (obs d)"
    by auto
qed

lemma uart_get_some:
  assumes dev: "ns16550 M u obs" and g: "uart_get M u d = (Some b, d')" and dl: "\<not> dlab (obs d)"
  shows "\<exists>new. o_rx (obs d) @ new = b # o_rx (obs d')" "o_lcr (obs d') = o_lcr (obs d)" "o_sent (obs d') = o_sent (obs d)"
proof -
  obtain v d1 where r: "uart_read M u LSR d = (v, d1)" "v AND 1 \<noteq> 0" "uart_read M u RBR_THR_DLL d1 = (b, d')"
    using g by (auto simp: uart_get_def split: prod.splits if_splits)
  obtain new where d1: "obs d1 = (obs d)\<lparr>o_rx := o_rx (obs d) @ new, o_busy := o_busy (obs d) - 1\<rparr>" "o_rx (obs d1) \<noteq> []"
    using ns16550_lsr [OF dev r(1)] r(2) by blast
  then obtain x xs where x: "o_rx (obs d1) = x # xs" by (cases "o_rx (obs d1)") auto
  have "\<not> dlab (obs d1)" using d1(1) dl by simp
  then have b: "b = x" "\<exists>new. obs d' = (obs d1)\<lparr>o_rx := xs @ new\<rparr>"
    using ns16550_rbr [OF dev r(3) _ x] by blast+
  then obtain new' where "obs d' = (obs d1)\<lparr>o_rx := xs @ new'\<rparr>" by blast
  then show "\<exists>new. o_rx (obs d) @ new = b # o_rx (obs d')" "o_lcr (obs d') = o_lcr (obs d)" "o_sent (obs d') = o_sent (obs d)"
    using d1(1) x b(1) by (auto intro: exI [of _ "new @ new'"])
qed

text \<open>
  What one run of the handler's loop does, given that the bytes \<open>new\<close> arrive while it
  runs: \<open>bs\<close> go into the ring and at most one byte is dropped.
\<close>

definition moved :: "u8 list \<Rightarrow> u8 list \<Rightarrow> rx_ring \<Rightarrow> rx_ring \<Rightarrow> nat \<Rightarrow> bool" where
  "moved before after r r' n \<longleftrightarrow>
     (\<exists>bs new dropped. before @ new = bs @ dropped @ after \<and> rx_items r' = rx_items r @ bs \<and> length bs = n
        \<and> (if dropped = [] then after = [] else length dropped = 1 \<and> length (rx_items r') = RX_CAP - 1))"

lemma moved_step:
  assumes "before @ new0 = b # mid" "moved mid after r1 r' n" "rx_items r1 = rx_items r @ [b]"
  shows "moved before after r r' (Suc n)"
proof -
  obtain bs new dropped where *: "mid @ new = bs @ dropped @ after" "rx_items r' = rx_items r1 @ bs" "length bs = n"
    "if dropped = [] then after = [] else length dropped = 1 \<and> length (rx_items r') = RX_CAP - 1"
    using assms(2) unfolding moved_def by blast
  have "before @ (new0 @ new) = (b # bs) @ dropped @ after"
    using assms(1) *(1) by (metis append_Cons append_assoc)
  then show ?thesis
    unfolding moved_def using * assms(3)
    by (intro exI [of _ "b # bs"] exI [of _ "new0 @ new"] exI [of _ dropped]) simp
qed

lemma handle_loop_correct:
  assumes dev: "ns16550 M u obs"
  shows "rx_ok r \<Longrightarrow> \<not> dlab (obs d) \<Longrightarrow>
    \<exists>n r' d'. handle_loop M u q r d = Some (q + n, r', d') \<and> rx_ok r' \<and> moved (o_rx (obs d)) (o_rx (obs d')) r r' n
      \<and> o_sent (obs d') = o_sent (obs d) \<and> o_lcr (obs d') = o_lcr (obs d)"
proof (induction "RX_CAP - length (rx_items r)" arbitrary: r d q rule: less_induct)
  case less
  note ok = less.prems(1) and dl = less.prems(2)
  show ?case
  proof (cases "uart_get M u d")
    case (Pair res d1)
    show ?thesis
    proof (cases res)
      case None
      note g = uart_get_none [OF dev Pair [unfolded None]]
      have "moved (o_rx (obs d)) (o_rx (obs d1)) r r 0"
        unfolding moved_def using g(1,2) by (intro exI [of _ "[]"]) simp
      then show ?thesis
        using Pair None ok g(3,4) by (subst handle_loop.simps) (auto intro!: exI [of _ "0::nat"])
    next
      case (Some b)
      note g = uart_get_some [OF dev Pair [unfolded Some] dl]
      obtain new where new: "o_rx (obs d) @ new = b # o_rx (obs d1)" using g(1) by blast
      show ?thesis
      proof (cases "length (rx_items r) < 255")
        case True
        then obtain r1 where r1: "rx_push b r = (True, r1)" "rx_ok r1" "rx_items r1 = rx_items r @ [b]"
          using rx.push_room [OF ok, of b] by auto
        have "RX_CAP - length (rx_items r1) < RX_CAP - length (rx_items r)" using True r1(3) by simp
        moreover have "\<not> dlab (obs d1)" using dl g(2) by simp
        ultimately obtain n r' d' where rest: "handle_loop M u (q + 1) r1 d1 = Some (q + 1 + n, r', d')" "rx_ok r'"
          "moved (o_rx (obs d1)) (o_rx (obs d')) r1 r' n" "o_sent (obs d') = o_sent (obs d1)" "o_lcr (obs d') = o_lcr (obs d1)"
          using less.hyps [OF _ r1(2)] by blast
        have "handle_loop M u q r d = Some (q + Suc n, r', d')"
          using Pair Some r1(1) rest(1) by (subst handle_loop.simps) simp
        then show ?thesis using moved_step [OF new rest(3) r1(3)] rest g by auto
      next
        case False
        then have full: "length (rx_items r) = 255" using rx.items_cap [OF ok] by simp
        then have "moved (o_rx (obs d)) (o_rx (obs d1)) r r 0"
          unfolding moved_def using new by (intro exI [of _ "[]"] exI [of _ new] exI [of _ "[b]"]) simp
        then show ?thesis
          using Pair Some rx.push_full [OF ok, of b] full ok g
          by (subst handle_loop.simps) (auto intro!: exI [of _ "0::nat"])
      qed
    qed
  qed
qed

text \<open>C15: With a 16550 behind it, the interrupt handler always returns. The
  bytes it counts are appended to the receive ring in the order in which the device
  received them, and it stops only when the device has no more bytes or when the ring holds
  255 and exactly one byte had to be dropped. It sends nothing.\<close>

theorem handle_interrupt_correct:
  assumes "ns16550 M (us_uart u) obs" "rx_ok (us_rx u)" "\<not> dlab (obs d)"
  shows "\<exists>n r' d'. handle_interrupt M u d = Some (n, u\<lparr>us_rx := r'\<rparr>, d') \<and> rx_ok r'
    \<and> moved (o_rx (obs d)) (o_rx (obs d')) (us_rx u) r' n \<and> o_sent (obs d') = o_sent (obs d)"
proof -
  obtain n r' d' where "handle_loop M (us_uart u) 0 (us_rx u) d = Some (n, r', d')" "rx_ok r'"
    "moved (o_rx (obs d)) (o_rx (obs d')) (us_rx u) r' n" "o_sent (obs d') = o_sent (obs d)"
    using handle_loop_correct [OF assms, of 0] by auto
  then show ?thesis by (auto simp: handle_interrupt_def)
qed

theorem handle_interrupt_correct_witness:
  "\<exists>n r' d'. handle_interrupt demo_uart uart_statics_new demo_obs = Some (n, uart_statics_new\<lparr>us_rx := r'\<rparr>, d')
     \<and> moved [104, 105] (o_rx d') rx_new r' n"
proof -
  have pre: "rx_ok (us_rx uart_statics_new)" "\<not> dlab demo_obs"
    by (simp_all add: rx_new_ok uart_statics_new_def demo_obs_def)
  have "o_rx demo_obs = [104, 105]" "us_rx uart_statics_new = rx_new"
    by (simp_all add: uart_statics_new_def demo_obs_def)
  then show ?thesis using handle_interrupt_correct [OF demo_uart_ok pre] by metis
qed

section \<open>Transmission\<close>

lemma uart_put_correct:
  assumes dev: "ns16550 M u obs"
  shows "\<not> dlab (obs d) \<Longrightarrow> \<exists>d'. uart_put M u b d = Some d' \<and> o_sent (obs d') = o_sent (obs d) @ [b]
    \<and> o_lcr (obs d') = o_lcr (obs d)"
proof (induction "o_busy (obs d)" arbitrary: d)
  case 0
  obtain v d1 where r: "uart_read M u LSR d = (v, d1)" by fastforce
  then obtain new where d1: "obs d1 = (obs d)\<lparr>o_rx := o_rx (obs d) @ new, o_busy := o_busy (obs d) - 1\<rparr>" and v: "v AND 0x20 \<noteq> 0"
    using ns16550_lsr [OF dev r] 0 by auto
  then have "o_busy (obs d1) = 0" "\<not> dlab (obs d1)" using 0 by auto
  then have "\<exists>n. obs (uart_write M u RBR_THR_DLL b d1) = (obs d1)\<lparr>o_sent := o_sent (obs d1) @ [b], o_busy := n\<rparr>"
    by (rule ns16550_thr [OF dev])
  moreover have "uart_poll M u d = Some d1" using r v by (subst uart_poll.simps) simp
  ultimately show ?case using d1 by (auto simp: uart_put_def)
next
  case (Suc k)
  obtain v d1 where r: "uart_read M u LSR d = (v, d1)" by fastforce
  then obtain new where d1: "obs d1 = (obs d)\<lparr>o_rx := o_rx (obs d) @ new, o_busy := o_busy (obs d) - 1\<rparr>" and v: "v AND 0x20 = 0"
    using ns16550_lsr [OF dev r] Suc.hyps(2) by auto
  have k: "k = o_busy (obs d1)" "\<not> dlab (obs d1)" using d1 Suc.hyps(2) Suc.prems by auto
  have "uart_put M u b d = uart_put M u b d1"
    unfolding uart_put_def by (subst uart_poll.simps) (simp add: r v)
  then show ?case using Suc.hyps(1) [OF k] d1 by simp
qed

text \<open>What goes over the line: every line feed preceded by a carriage return.\<close>

definition crlf :: "u8 list \<Rightarrow> u8 list" where
  "crlf bs = concat (map (\<lambda>b. if b = 10 then [13, 10] else [b]) bs)"

lemma write_bytes_sends:
  assumes dev: "ns16550 M (us_uart u) obs" and dl: "\<not> dlab (obs d)"
  shows "\<exists>d'. write_bytes M u bs d = Some d' \<and> o_sent (obs d') = o_sent (obs d) @ crlf bs \<and> o_lcr (obs d') = o_lcr (obs d)"
  using dl
proof (induction bs arbitrary: d)
  case Nil
  then show ?case by (simp add: crlf_def)
next
  case (Cons b bs)
  obtain d1 where d1: "(if b = 10 then uart_put M (us_uart u) 13 d else Some d) = Some d1"
    "o_sent (obs d1) = o_sent (obs d) @ (if b = 10 then [13] else [])" "o_lcr (obs d1) = o_lcr (obs d)"
    using uart_put_correct [OF dev Cons.prems, of 13] by (cases "b = 10") auto
  then have "\<not> dlab (obs d1)" using Cons.prems by simp
  then obtain d2 where d2: "uart_put M (us_uart u) b d1 = Some d2" "o_sent (obs d2) = o_sent (obs d1) @ [b]"
    "o_lcr (obs d2) = o_lcr (obs d1)"
    using uart_put_correct [OF dev] by blast
  have "\<not> dlab (obs d2)" using d1 d2 Cons.prems by simp
  then obtain d3 where d3: "write_bytes M u bs d2 = Some d3" "o_sent (obs d3) = o_sent (obs d2) @ crlf bs" "o_lcr (obs d3) = o_lcr (obs d2)"
    using Cons.IH by blast
  then show ?case using d1 d2 by (simp add: crlf_def)
qed

text \<open>Writing a slice always returns and sends exactly its bytes in order, each
  line feed preceded by a carriage return, whatever the transmitter's pace.\<close>

theorem write_bytes_correct:
  assumes "ns16550 M (us_uart u) obs" "\<not> dlab (obs d)"
  shows "\<exists>d'. write_bytes M u bs d = Some d' \<and> o_sent (obs d') = o_sent (obs d) @ crlf bs"
  using write_bytes_sends [OF assms] by blast

theorem write_bytes_correct_witness:
  "\<exists>d'. write_bytes demo_uart uart_statics_new [104, 10] demo_obs = Some d' \<and> o_sent d' = [104, 13, 10]"
proof -
  have "\<not> dlab demo_obs" by (simp add: demo_obs_def)
  from write_bytes_correct [OF demo_uart_ok this, of "[104, 10]"] show ?thesis
    by (simp add: crlf_def) (simp add: demo_obs_def)
qed

section \<open>Initialisation\<close>

text \<open>After initialisation the device is set to eight data bits with the
  divisor latch closed, the divisor is 3, the receive queue is flushed and exactly the
  receive interrupt is armed; the driver reports itself initialised and the console uses it.\<close>

theorem uart_driver_init_correct:
  assumes dev: "ns16550 M (us_uart u) obs" and init: "uart_driver_init M u d = (u', d')"
  shows "obs d' = (obs d)\<lparr>o_lcr := 3, o_ier := 1, o_dll := 3, o_dlm := 0, o_rx := []\<rparr> \<and> \<not> dlab (obs d')
    \<and> is_initialised u' \<and> us_console_ready u'"
proof -
  have "obs d' = (obs d)\<lparr>o_lcr := 3, o_ier := 1, o_dll := 3, o_dlm := 0, o_rx := []\<rparr>"
    using init unfolding uart_driver_init_def uart_init_def Let_def
    by (auto simp: ns16550_config [OF dev] ns16550_config(1) [OF dev, simplified])
  moreover have "is_initialised u'" "us_console_ready u'"
    using init by (auto simp: uart_driver_init_def use_uart_backend_def is_initialised_def Let_def)
  ultimately show ?thesis by simp
qed

theorem uart_driver_init_correct_witness:
  "o_lcr (snd (uart_driver_init demo_uart uart_statics_new demo_obs)) = 3
   \<and> is_initialised (fst (uart_driver_init demo_uart uart_statics_new demo_obs))"
  using uart_driver_init_correct [OF demo_uart_ok, of demo_obs] by (auto simp: prod_eq_iff)

end
