(* ===== verification/Plic.thy ===== *)
theory Plic
  imports Scheduler Uart_Correct "HOL-Library.Sublist"
begin

text \<open>
  The interrupt controller driver, \<^verbatim>\<open>kernel/src/drivers/plic.rs\<close>, and
  \<^verbatim>\<open>uart::notify_readers\<close>. The controller is hardware: what it documents about claiming and
  completing is the hypothesis \<open>plic_law\<close>. Log output is not modelled.
\<close>

unbundle bit_operations_syntax

section \<open>Registers\<close>

abbreviation (input) PLIC_BASE :: usize where "PLIC_BASE \<equiv> 0x0c000000"
abbreviation (input) UART_IRQ :: u32 where "UART_IRQ \<equiv> 10"
abbreviation (input) PLIC_PRIORITY :: usize where "PLIC_PRIORITY \<equiv> 0x0"
abbreviation (input) PLIC_ENABLE :: usize where "PLIC_ENABLE \<equiv> 0x2000"
abbreviation (input) ENABLE_STRIDE :: usize where "ENABLE_STRIDE \<equiv> 0x80"
abbreviation (input) PLIC_THRESHOLD :: usize where "PLIC_THRESHOLD \<equiv> 0x200000"
abbreviation (input) PLIC_CLAIM :: usize where "PLIC_CLAIM \<equiv> 0x200004"
abbreviation (input) CONTEXT_STRIDE :: usize where "CONTEXT_STRIDE \<equiv> 0x1000"

definition plic_context :: "nat \<Rightarrow> usize" where
  "plic_context hart = 2 * hart + 1"

definition plic_reg :: "usize \<Rightarrow> virt_addr" where
  "plic_reg off = phys_to_virt (PLIC_BASE + off)"

definition set_priority :: "'d machine \<Rightarrow> u32 \<Rightarrow> u32 \<Rightarrow> 'd \<Rightarrow> 'd" where
  "set_priority M irq priority d = m_write32 M (plic_reg (PLIC_PRIORITY + unat irq * 4)) priority d"

definition plic_enable :: "'d machine \<Rightarrow> nat \<Rightarrow> u32 \<Rightarrow> 'd \<Rightarrow> 'd" where
  "plic_enable M hart irq d =
     (let word = PLIC_ENABLE + plic_context hart * ENABLE_STRIDE + (unat irq div 32) * 4
      in case m_read32 M (plic_reg word) d of (v, d1) \<Rightarrow>
           m_write32 M (plic_reg word) (v OR push_bit (unat irq mod 32) 1) d1)"

definition set_threshold :: "'d machine \<Rightarrow> nat \<Rightarrow> u32 \<Rightarrow> 'd \<Rightarrow> 'd" where
  "set_threshold M hart threshold d =
     m_write32 M (plic_reg (PLIC_THRESHOLD + plic_context hart * CONTEXT_STRIDE)) threshold d"

definition claim :: "'d machine \<Rightarrow> nat \<Rightarrow> 'd \<Rightarrow> u32 option \<times> 'd" where
  "claim M hart d =
     (case m_read32 M (plic_reg (PLIC_CLAIM + plic_context hart * CONTEXT_STRIDE)) d of (irq, d1) \<Rightarrow>
        (if irq = 0 then None else Some irq, d1))"

definition complete :: "'d machine \<Rightarrow> nat \<Rightarrow> u32 \<Rightarrow> 'd \<Rightarrow> 'd" where
  "complete M hart irq d = m_write32 M (plic_reg (PLIC_CLAIM + plic_context hart * CONTEXT_STRIDE)) irq d"

definition plic_init :: "'d machine \<Rightarrow> nat \<Rightarrow> 'd \<Rightarrow> 'd" where
  "plic_init M hart d =
     (let d = set_threshold M hart 0 d;
          d = set_priority M UART_IRQ 1 d
      in plic_enable M hart UART_IRQ d)"

section \<open>The handler\<close>

definition notify_readers :: "uart_statics \<Rightarrow> kstate \<Rightarrow> uart_statics \<times> kstate" where
  "notify_readers u k = (case wq_wake_all (us_readers u) k of (ws, k1) \<Rightarrow> (u\<lparr>us_readers := ws\<rparr>, k1))"

text \<open>The body of the loop for a claimed interrupt, up to its completion.\<close>

definition service_irq :: "'d machine \<Rightarrow> u32 \<Rightarrow> uart_statics \<Rightarrow> kstate \<Rightarrow> 'd \<Rightarrow> (uart_statics \<times> kstate \<times> 'd) option" where
  "service_irq M irq u k d =
     (if irq = UART_IRQ then do {
        (queued, u1, d1) \<leftarrow> handle_interrupt M u d;
        let (u2, k2) = (if queued > 0 then notify_readers u1 k else (u1, k));
        Some (u2, k2, d1)
      } else Some (u, k, d))"

partial_function (option) handle_external_interrupt ::
  "'d machine \<Rightarrow> nat \<Rightarrow> uart_statics \<Rightarrow> kstate \<Rightarrow> 'd \<Rightarrow> (uart_statics \<times> kstate \<times> 'd) option" where
  "handle_external_interrupt M hart u k d =
     (case claim M hart d of
        (None, d1) \<Rightarrow> Some (u, k, d1)
      | (Some irq, d1) \<Rightarrow> do {
          (u2, k2, d2) \<leftarrow> service_irq M irq u k d1;
          handle_external_interrupt M hart u2 k2 (complete M hart irq d2)
        })"

section \<open>The controller's contract\<close>

text \<open>
  \<open>irqs d\<close> are the interrupts that successive claims will deliver, \<open>acked d\<close> those completed.
  The serial port and the controller do not disturb each other.
\<close>

definition plic_law :: "'d machine \<Rightarrow> nat \<Rightarrow> uart \<Rightarrow> ('d \<Rightarrow> uart_obs) \<Rightarrow> ('d \<Rightarrow> u32 list) \<Rightarrow> ('d \<Rightarrow> u32 list) \<Rightarrow> bool" where
  "plic_law M hart u obs irqs acked \<longleftrightarrow>
     (\<forall>d v d'. m_read32 M (plic_reg (PLIC_CLAIM + plic_context hart * CONTEXT_STRIDE)) d = (v, d') \<longrightarrow>
        v = (case irqs d of [] \<Rightarrow> 0 | x # xs \<Rightarrow> x) \<and> irqs d' = tl (irqs d) \<and> acked d' = acked d \<and> obs d' = obs d) \<and>
     (\<forall>d v. let d' = m_write32 M (plic_reg (PLIC_CLAIM + plic_context hart * CONTEXT_STRIDE)) v d
        in irqs d' = irqs d \<and> acked d' = acked d @ [v] \<and> obs d' = obs d) \<and>
     (\<forall>d off v d'. uart_read M u off d = (v, d') \<longrightarrow> irqs d' = irqs d \<and> acked d' = acked d)"

lemma claim_cases:
  assumes law: "plic_law M hart u obs irqs acked" and nz: "0 \<notin> set (irqs d)"
  obtains (none) d' where "claim M hart d = (None, d')" "irqs d = []" "irqs d' = []" "acked d' = acked d" "obs d' = obs d"
  | (some) x xs d' where "claim M hart d = (Some x, d')" "irqs d = x # xs" "irqs d' = xs" "acked d' = acked d" "obs d' = obs d"
proof -
  obtain v d' where r: "m_read32 M (plic_reg (PLIC_CLAIM + plic_context hart * CONTEXT_STRIDE)) d = (v, d')" by fastforce
  have d': "v = (case irqs d of [] \<Rightarrow> 0 | x # xs \<Rightarrow> x)" "irqs d' = tl (irqs d)" "acked d' = acked d" "obs d' = obs d"
    using law r unfolding plic_law_def by blast+
  show thesis
  proof (cases "irqs d")
    case Nil
    then show thesis using none [of d'] d' r by (simp add: claim_def)
  next
    case (Cons x xs)
    then have "x \<noteq> 0" using nz by auto
    then show thesis using some [of x d' xs] d' r Cons by (simp add: claim_def)
  qed
qed

lemma complete_law:
  assumes "plic_law M hart u obs irqs acked"
  shows "irqs (complete M hart x d) = irqs d" "acked (complete M hart x d) = acked d @ [x]" "obs (complete M hart x d) = obs d"
  using assms unfolding plic_law_def complete_def Let_def by blast+

lemma uart_get_plic:
  assumes "plic_law M hart u obs irqs acked" "uart_get M u d = (r, d')"
  shows "irqs d' = irqs d" "acked d' = acked d"
proof -
  have "irqs d' = irqs d \<and> acked d' = acked d" if "uart_read M u off d = (v, d')" for off v d d'
    using assms(1) that unfolding plic_law_def by blast
  then show "irqs d' = irqs d" "acked d' = acked d"
    using assms(2) by (auto simp: uart_get_def split: prod.splits if_splits)
qed

lemma handle_loop_preserves:
  assumes get: "\<And>d v d'. uart_get M u d = (v, d') \<Longrightarrow> f d' = f d" and run: "handle_loop M u q r d = Some y"
  shows "f (snd (snd y)) = f d"
proof -
  let ?P = "\<lambda>M' u' q r d y. M' = M \<and> u' = u \<longrightarrow> f (snd (snd y)) = f d"
  have "?P M u q r d y"
  proof (rule handle_loop.raw_induct [where P = ?P, OF _ run], intro impI, elim conjE)
    fix loop M' u' q r d y
    assume ih: "\<And>M' u' q r d y. loop M' u' q r d = Some y \<Longrightarrow> M' = M \<and> u' = u \<longrightarrow> f (snd (snd y)) = f d"
      and body: "(case uart_get M' u' d of (None, d1) \<Rightarrow> Some (q, r, d1)
        | (Some byte, d1) \<Rightarrow> (case rx_push byte r of (pushed, r1) \<Rightarrow>
             if \<not> pushed then Some (q, r1, d1) else loop M' u' (q + 1) r1 d1)) = Some y"
      and eq: "M' = M" "u' = u"
    obtain v d1 where g: "uart_get M u d = (v, d1)" by fastforce
    show "f (snd (snd y)) = f d"
      using body ih [of M u "q + 1" _ d1 y] get [OF g] g eq
      by (cases v) (auto split: prod.splits if_splits)
  qed
  then show ?thesis by simp
qed

lemma handle_interrupt_plic:
  assumes law: "plic_law M hart (us_uart u) obs irqs acked" and run: "handle_interrupt M u d = Some (n, u', d')"
  shows "irqs d' = irqs d" "acked d' = acked d"
proof -
  obtain y where y: "handle_loop M (us_uart u) 0 (us_rx u) d = Some y" "snd (snd y) = d'"
    using run by (auto simp: handle_interrupt_def split: bind_splits prod.splits)
  show "irqs d' = irqs d" "acked d' = acked d"
    using handle_loop_preserves [where f = irqs, OF uart_get_plic(1) [OF law] y(1)]
      handle_loop_preserves [where f = acked, OF uart_get_plic(2) [OF law] y(1)] y(2) by simp_all
qed

section \<open>Servicing interrupts\<close>

text \<open>What a run of the handler may do to the driver and the tasks: nothing, or take input
  into the ring and wake every task that waits for it.\<close>

definition input_taken :: "uart_statics \<Rightarrow> kstate \<Rightarrow> uart_statics \<Rightarrow> kstate \<Rightarrow> bool" where
  "input_taken u k u' k' \<longleftrightarrow>
     rx_items (us_rx u') = rx_items (us_rx u) \<and> us_readers u' = us_readers u \<and> k' = k
   \<or> prefix (rx_items (us_rx u)) (rx_items (us_rx u')) \<and> us_readers u' = [] \<and> k' = fold wake (us_readers u) k"

lemma input_taken_trans:
  "input_taken u k u1 k1 \<Longrightarrow> input_taken u1 k1 u2 k2 \<Longrightarrow> input_taken u k u2 k2"
  unfolding input_taken_def by (elim disjE conjE) (auto simp: prefix_order.trans)

lemma service_irq_some:
  assumes dev: "ns16550 M (us_uart u) obs" and law: "plic_law M hart (us_uart u) obs irqs acked"
    and ok: "rx_ok (us_rx u)" "\<not> dlab (obs d)"
  shows "\<exists>u' k' d'. service_irq M irq u k d = Some (u', k', d') \<and> irqs d' = irqs d \<and> acked d' = acked d
    \<and> input_taken u k u' k' \<and> rx_ok (us_rx u') \<and> \<not> dlab (obs d') \<and> us_uart u' = us_uart u"
proof (cases "irq = UART_IRQ")
  case False
  then show ?thesis using ok by (simp add: service_irq_def input_taken_def)
next
  case True
  obtain n r' d' where h: "handle_loop M (us_uart u) 0 (us_rx u) d = Some (n, r', d')" "rx_ok r'"
    "moved (o_rx (obs d)) (o_rx (obs d')) (us_rx u) r' n" "o_lcr (obs d') = o_lcr (obs d)"
    using handle_loop_correct [OF dev ok, of 0] by auto
  then have hi: "handle_interrupt M u d = Some (n, u\<lparr>us_rx := r'\<rparr>, d')" by (simp add: handle_interrupt_def)
  obtain bs where bs: "rx_items r' = rx_items (us_rx u) @ bs" "length bs = n" using h(3) unfolding moved_def by blast
  show ?thesis
    using True hi handle_interrupt_plic [OF law hi] h bs ok
    by (cases "n = 0") (auto simp: service_irq_def input_taken_def notify_readers_def wq_wake_all_def prefix_def)
qed


section \<open>A controller that behaves so\<close>

type_synonym demo_plic_state = "uart_obs \<times> u32 list \<times> u32 list"

definition demo_plic :: "demo_plic_state machine" where
  "demo_plic = \<lparr>m_read8 = (\<lambda>a (ob, p). case demo_uart_read a ob of (v, ob') \<Rightarrow> (v, ob', p)),
     m_write8 = (\<lambda>a v (ob, p). (demo_uart_write a v ob, p)),
     m_read32 = (\<lambda>_ (ob, irqs, acked). (case irqs of [] \<Rightarrow> (0, ob, [], acked) | x # xs \<Rightarrow> (x, ob, xs, acked))),
     m_write32 = (\<lambda>_ v (ob, irqs, acked). (ob, irqs, acked @ [v])),
     m_time = (\<lambda>d. (0, d)), m_ecall = (\<lambda>_ _ _ _ _ d. (\<lparr>sr_error = 0, sr_value = 0\<rparr>, d))\<rparr>"

lemma demo_plic_read: "uart_read demo_plic u off d = (v, d') \<longleftrightarrow>
    uart_read demo_uart u off (fst d) = (v, fst d') \<and> snd d' = snd d"
  by (cases d; cases d') (auto simp: uart_read_def demo_plic_def demo_uart_def split: prod.splits)

lemma demo_plic_write: "uart_write demo_plic u off b d = (uart_write demo_uart u off b (fst d), snd d)"
  by (cases d) (simp add: uart_write_def demo_plic_def demo_uart_def)

lemma demo_plic_uart: "ns16550 demo_plic (us_uart uart_statics_new) fst"
  using demo_uart_ok
  unfolding ns16550_def lsr_law_def rbr_law_def thr_law_def config_law_def demo_plic_read demo_plic_write fst_conv
  by blast

lemma demo_plic_law: "plic_law demo_plic 0 u fst (\<lambda>d. fst (snd d)) (\<lambda>d. snd (snd d))"
  unfolding plic_law_def demo_plic_read
  by (auto simp: demo_plic_def Let_def split: list.splits prod.splits)


end
