(* ===== verification/Spin.thy ===== *)
theory Spin
  imports Machine
begin

text \<open>
  The interrupt-safe spin lock, \<^verbatim>\<open>kernel/src/sync/spin.rs\<close>, and the \<^verbatim>\<open>Once\<close> cell of
  \<^verbatim>\<open>kernel/src/sync/mod.rs\<close>. The operations that one hart performs are functions; the
  interleaving of several harts, each at its own point of \<^verbatim>\<open>lock\<close>, \<^verbatim>\<open>try_lock\<close> or the guard's
  \<^verbatim>\<open>drop\<close>, is a step relation on the shared flag and the harts' registers. Elsewhere in the
  development a critical section is one atomic definition; this theory is the reason it may be.
\<close>

section \<open>Operations\<close>

record 'a spin_lock =
  sl_locked :: bool
  sl_data :: 'a

definition spin_new :: "'a \<Rightarrow> 'a spin_lock" where
  "spin_new data = \<lparr>sl_locked = False, sl_data = data\<rparr>"

definition into_inner :: "'a spin_lock \<Rightarrow> 'a" where
  "into_inner l = sl_data l"

text \<open>The first lines of \<^verbatim>\<open>lock\<close> and \<^verbatim>\<open>try_lock\<close>: remember the interrupt state and mask.\<close>

definition spin_mask :: "hart_csr \<Rightarrow> bool \<times> hart_csr" where
  "spin_mask c = (let restore_intr = intr_enabled c in (restore_intr, if restore_intr then intr_disable c else c))"

text \<open>\<^verbatim>\<open>compare_exchange(false, true)\<close>.\<close>

definition spin_cas :: "'a spin_lock \<Rightarrow> bool \<times> 'a spin_lock" where
  "spin_cas l = (if sl_locked l then (False, l) else (True, l\<lparr>sl_locked := True\<rparr>))"

definition spin_restore :: "bool \<Rightarrow> hart_csr \<Rightarrow> hart_csr" where
  "spin_restore restore_intr c = (if restore_intr then intr_enable c else c)"

text \<open>The guard is its \<^verbatim>\<open>restore_intr\<close> field.\<close>

definition spin_try_lock :: "'a spin_lock \<Rightarrow> hart_csr \<Rightarrow> bool option \<times> 'a spin_lock \<times> hart_csr" where
  "spin_try_lock l c =
     (case spin_mask c of (restore_intr, c1) \<Rightarrow>
        case spin_cas l of (ok, l1) \<Rightarrow>
          if ok then (Some restore_intr, l1, c1) else (None, l1, spin_restore restore_intr c1))"

definition is_locked :: "'a spin_lock \<Rightarrow> bool" where
  "is_locked l = sl_locked l"

definition force_unlock :: "'a spin_lock \<Rightarrow> 'a spin_lock" where
  "force_unlock l = l\<lparr>sl_locked := False\<rparr>"

definition guard_drop :: "bool \<Rightarrow> 'a spin_lock \<Rightarrow> hart_csr \<Rightarrow> 'a spin_lock \<times> hart_csr" where
  "guard_drop restore_intr l c = (l\<lparr>sl_locked := False\<rparr>, spin_restore restore_intr c)"

section \<open>Interleaved harts\<close>

text \<open>
  Where a hart is: outside; masked and about to try the exchange of \<^verbatim>\<open>lock\<close>; in the inner
  loop that waits for the flag; masked and about to try the exchange of \<^verbatim>\<open>try_lock\<close>; inside the
  critical section; between the two lines of \<^verbatim>\<open>drop\<close>. The flag is the value of \<^verbatim>\<open>restore_intr\<close>.
\<close>

datatype spin_pc = Outside | Trying bool | Waiting bool | TryOnce bool | Holding bool | Releasing bool

record 'a spin_sys =
  ss_lock :: "'a spin_lock"
  ss_pc :: "nat \<Rightarrow> spin_pc"
  ss_csr :: "nat \<Rightarrow> hart_csr"

definition at_pc :: "nat \<Rightarrow> spin_pc \<Rightarrow> 'a spin_sys \<Rightarrow> 'a spin_sys" where
  "at_pc h pc s = s\<lparr>ss_pc := (ss_pc s)(h := pc)\<rparr>"

inductive spin_step :: "'a spin_sys \<Rightarrow> 'a spin_sys \<Rightarrow> bool" where
  lock_enter: "ss_pc s h = Outside \<Longrightarrow> spin_mask (ss_csr s h) = (r, c) \<Longrightarrow>
    spin_step s (at_pc h (Trying r) (s\<lparr>ss_csr := (ss_csr s)(h := c)\<rparr>))"
| lock_won: "ss_pc s h = Trying r \<Longrightarrow> spin_cas (ss_lock s) = (True, l) \<Longrightarrow>
    spin_step s (at_pc h (Holding r) (s\<lparr>ss_lock := l\<rparr>))"
| lock_failed: "ss_pc s h = Trying r \<Longrightarrow> spin_step s (at_pc h (Waiting r) s)"
| lock_seen_free: "ss_pc s h = Waiting r \<Longrightarrow> \<not> sl_locked (ss_lock s) \<Longrightarrow> spin_step s (at_pc h (Trying r) s)"
| try_enter: "ss_pc s h = Outside \<Longrightarrow> spin_mask (ss_csr s h) = (r, c) \<Longrightarrow>
    spin_step s (at_pc h (TryOnce r) (s\<lparr>ss_csr := (ss_csr s)(h := c)\<rparr>))"
| try_won: "ss_pc s h = TryOnce r \<Longrightarrow> spin_cas (ss_lock s) = (True, l) \<Longrightarrow>
    spin_step s (at_pc h (Holding r) (s\<lparr>ss_lock := l\<rparr>))"
| try_lost: "ss_pc s h = TryOnce r \<Longrightarrow> spin_cas (ss_lock s) = (False, l) \<Longrightarrow>
    spin_step s (at_pc h Outside (s\<lparr>ss_lock := l, ss_csr := (ss_csr s)(h := spin_restore r (ss_csr s h))\<rparr>))"
| work: "ss_pc s h = Holding r \<Longrightarrow>
    spin_step s (s\<lparr>ss_lock := (ss_lock s)\<lparr>sl_data := v\<rparr>\<rparr>)"
| release: "ss_pc s h = Holding r \<Longrightarrow>
    spin_step s (at_pc h (Releasing r) (s\<lparr>ss_lock := (ss_lock s)\<lparr>sl_locked := False\<rparr>\<rparr>))"
| restore: "ss_pc s h = Releasing r \<Longrightarrow>
    spin_step s (at_pc h Outside (s\<lparr>ss_csr := (ss_csr s)(h := spin_restore r (ss_csr s h))\<rparr>))"

text \<open>The lock is fresh and nobody uses it; interrupts are in the state \<open>on h\<close> on each hart.\<close>

definition spin_start :: "(nat \<Rightarrow> bool) \<Rightarrow> 'a spin_sys \<Rightarrow> bool" where
  "spin_start on s \<longleftrightarrow> \<not> sl_locked (ss_lock s) \<and> (\<forall>h. ss_pc s h = Outside \<and> intr_enabled (ss_csr s h) = on h)"

definition holds :: "nat \<Rightarrow> 'a spin_sys \<Rightarrow> bool" where
  "holds h s \<longleftrightarrow> (\<exists>r. ss_pc s h = Holding r)"

fun pc_ok :: "spin_pc \<Rightarrow> bool \<Rightarrow> bool \<Rightarrow> bool" where
  "pc_ok Outside on en \<longleftrightarrow> en = on"
| "pc_ok (Trying r) on en \<longleftrightarrow> \<not> en \<and> r = on"
| "pc_ok (Waiting r) on en \<longleftrightarrow> \<not> en \<and> r = on"
| "pc_ok (TryOnce r) on en \<longleftrightarrow> \<not> en \<and> r = on"
| "pc_ok (Holding r) on en \<longleftrightarrow> \<not> en \<and> r = on"
| "pc_ok (Releasing r) on en \<longleftrightarrow> \<not> en \<and> r = on"

definition spin_inv :: "(nat \<Rightarrow> bool) \<Rightarrow> 'a spin_sys \<Rightarrow> bool" where
  "spin_inv on s \<longleftrightarrow>
     (\<forall>h. pc_ok (ss_pc s h) (on h) (intr_enabled (ss_csr s h)))
   \<and> (\<forall>h h'. holds h s \<and> holds h' s \<longrightarrow> h = h')
   \<and> (sl_locked (ss_lock s) \<longleftrightarrow> (\<exists>h. holds h s))"

lemma spin_mask_restore: "spin_mask c = (r, c') \<Longrightarrow> r = intr_enabled c \<and> \<not> intr_enabled c'"
  "\<not> intr_enabled c \<Longrightarrow> intr_enabled (spin_restore r c) = r"
  by (auto simp: spin_mask_def spin_restore_def Let_def)

abbreviation holding :: "spin_pc \<Rightarrow> bool" where "holding pc \<equiv> \<exists>r. pc = Holding r"

text \<open>One hart moves, changing its registers and perhaps the lock.\<close>

lemma spin_inv_move:
  assumes inv: "spin_inv on s" and pc: "pc_ok pc (on h) (intr_enabled c)"
    and locked: "sl_locked l \<longleftrightarrow> holding pc \<or> (\<exists>h'. h' \<noteq> h \<and> holds h' s)"
    and alone: "\<And>h'. holding pc \<Longrightarrow> h' \<noteq> h \<Longrightarrow> \<not> holds h' s"
  shows "spin_inv on (at_pc h pc (s\<lparr>ss_lock := l, ss_csr := (ss_csr s)(h := c)\<rparr>))" (is "spin_inv on ?s")
proof -
  have h: "holds x ?s \<longleftrightarrow> (if x = h then holding pc else holds x s)" for x
    by (auto simp: holds_def at_pc_def)
  have a: "pc_ok (ss_pc ?s x) (on x) (intr_enabled (ss_csr ?s x))" for x
    using inv pc by (auto simp: spin_inv_def at_pc_def)
  have b: "x = y" if "holds x ?s" "holds y ?s" for x y
    using that inv alone unfolding h spin_inv_def by (metis (no_types, lifting))
  have c: "sl_locked (ss_lock ?s) \<longleftrightarrow> (\<exists>x. holds x ?s)"
    unfolding h using locked by (auto simp: at_pc_def)
  show ?thesis unfolding spin_inv_def using a b c by blast
qed

lemma spin_invD:
  assumes "spin_inv on s"
  shows "pc_ok (ss_pc s h) (on h) (intr_enabled (ss_csr s h))" "holds h s \<Longrightarrow> h' \<noteq> h \<Longrightarrow> \<not> holds h' s"
    "sl_locked (ss_lock s) \<longleftrightarrow> (\<exists>h. holds h s)"
  using assms unfolding spin_inv_def by blast+

text \<open>A hart that does not hold the lock moves to another such place.\<close>

lemma spin_inv_outside:
  assumes inv: "spin_inv on s" and "pc_ok pc (on h) (intr_enabled c)" "\<not> holds h s" "\<not> holding pc"
  shows "spin_inv on (at_pc h pc (s\<lparr>ss_csr := (ss_csr s)(h := c)\<rparr>))"
proof -
  have "sl_locked (ss_lock s) \<longleftrightarrow> holding pc \<or> (\<exists>h'. h' \<noteq> h \<and> holds h' s)"
    using spin_invD(3) [OF inv] assms(3,4) by metis
  from spin_inv_move [OF inv assms(2) this] assms(4) show ?thesis by simp
qed

lemma spin_inv_won:
  assumes inv: "spin_inv on s" and cas: "spin_cas (ss_lock s) = (True, l)" and "pc_ok (Holding r) (on h) (intr_enabled (ss_csr s h))"
  shows "spin_inv on (at_pc h (Holding r) (s\<lparr>ss_lock := l\<rparr>))"
proof -
  have "\<not> holds x s" for x using spin_invD(3) [OF inv] cas by (auto simp: spin_cas_def split: if_splits)
  then show ?thesis
    using spin_inv_move [OF inv, of "Holding r" h "ss_csr s h" l] assms(3) cas by (auto simp: spin_cas_def split: if_splits)
qed

lemma spin_step_inv:
  assumes "spin_step s s'" "spin_inv on s"
  shows "spin_inv on s'"
  using assms
proof (induction rule: spin_step.induct)
  case (lock_enter s h r c)
  then show ?case
    using spin_inv_outside [OF lock_enter(3), of "Trying r" h c] spin_mask_restore(1) [OF lock_enter(2)] spin_invD(1) [OF lock_enter(3), of h]
    by (simp add: holds_def)
next
  case (lock_won s h r l)
  then show ?case using spin_inv_won [OF lock_won(3,2)] spin_invD(1) [OF lock_won(3), of h] by simp
next
  case (lock_failed s h r)
  then show ?case
    using spin_inv_outside [OF lock_failed(2), of "Waiting r" h "ss_csr s h"] spin_invD(1) [OF lock_failed(2), of h]
    by (simp add: holds_def)
next
  case (lock_seen_free s h r)
  then show ?case
    using spin_inv_outside [OF lock_seen_free(3), of "Trying r" h "ss_csr s h"] spin_invD(1) [OF lock_seen_free(3), of h]
    by (simp add: holds_def)
next
  case (try_enter s h r c)
  then show ?case
    using spin_inv_outside [OF try_enter(3), of "TryOnce r" h c] spin_mask_restore(1) [OF try_enter(2)] spin_invD(1) [OF try_enter(3), of h]
    by (simp add: holds_def)
next
  case (try_won s h r l)
  then show ?case using spin_inv_won [OF try_won(3,2)] spin_invD(1) [OF try_won(3), of h] by simp
next
  case (try_lost s h r l)
  then have "l = ss_lock s" by (simp add: spin_cas_def split: if_splits)
  then show ?case
    using spin_inv_outside [OF try_lost(3), of Outside h "spin_restore r (ss_csr s h)"] try_lost(1)
      spin_invD(1) [OF try_lost(3), of h] spin_mask_restore(2) [of "ss_csr s h" r] by (simp add: holds_def)
next
  case (work s h r v)
  then show ?case by (simp add: spin_inv_def holds_def)
next
  case (release s h r)
  have "holds h s" using release(1) by (simp add: holds_def)
  then have "\<not> (\<exists>h'. h' \<noteq> h \<and> holds h' s)" using spin_invD(2) [OF release(2)] by blast
  then show ?case
    using spin_inv_move [OF release(2), of "Releasing r" h "ss_csr s h" "(ss_lock s)\<lparr>sl_locked := False\<rparr>"] release(1)
      spin_invD(1) [OF release(2), of h] by simp
next
  case (restore s h r)
  then show ?case
    using spin_inv_outside [OF restore(2), of Outside h "spin_restore r (ss_csr s h)"]
      spin_invD(1) [OF restore(2), of h] spin_mask_restore(2) [of "ss_csr s h" r] by (simp add: holds_def)
qed

text \<open>C19: However the harts interleave, at most one is inside the critical section, the
  flag is set exactly while one is, that hart has its interrupts masked, and a hart that is
  outside has its interrupts as they were before it first used the lock.\<close>

theorem spin_exclusive:
  assumes start: "spin_start on s" and run: "spin_step\<^sup>*\<^sup>* s s'"
  shows "(\<forall>h h'. holds h s' \<and> holds h' s' \<longrightarrow> h = h') \<and> (sl_locked (ss_lock s') \<longleftrightarrow> (\<exists>h. holds h s'))
    \<and> (\<forall>h. holds h s' \<longrightarrow> \<not> intr_enabled (ss_csr s' h))
    \<and> (\<forall>h. ss_pc s' h = Outside \<longrightarrow> intr_enabled (ss_csr s' h) = on h)"
proof -
  have "spin_inv on s" using start by (auto simp: spin_start_def spin_inv_def holds_def)
  with run have inv: "spin_inv on s'"
    by (induction rule: rtranclp_induct) (auto intro: spin_step_inv)
  have "\<not> intr_enabled (ss_csr s' h)" if "holds h s'" for h
    using spin_invD(1) [OF inv, of h] that by (auto simp: holds_def)
  moreover have "intr_enabled (ss_csr s' h) = on h" if "ss_pc s' h = Outside" for h
    using spin_invD(1) [OF inv, of h] that by simp
  ultimately show ?thesis using inv unfolding spin_inv_def by blast
qed

definition demo_spin :: "nat spin_sys" where
  "demo_spin = \<lparr>ss_lock = spin_new 5, ss_pc = (\<lambda>_. Outside),
     ss_csr = (\<lambda>_. \<lparr>csr_sstatus = SSTATUS_SIE, csr_sie = 0, csr_sip = 0, csr_stvec = 0, csr_scause = 0, csr_stval = 0\<rparr>)\<rparr>"

definition demo_spin_held :: "nat spin_sys" where
  "demo_spin_held = demo_spin\<lparr>ss_lock := (spin_new 5)\<lparr>sl_locked := True\<rparr>, ss_pc := (\<lambda>_. Outside)(1 := Holding True),
     ss_csr := (ss_csr demo_spin)(1 := intr_disable (ss_csr demo_spin 1))\<rparr>"

lemma demo_spin_run: "spin_step\<^sup>*\<^sup>* demo_spin demo_spin_held"
proof -
  have on: "intr_enabled (ss_csr demo_spin 1)" by (simp add: demo_spin_def intr_enabled_def)
  let ?s = "at_pc 1 (Trying True) (demo_spin\<lparr>ss_csr := (ss_csr demo_spin)(1 := intr_disable (ss_csr demo_spin 1))\<rparr>)"
  have out: "ss_pc demo_spin 1 = Outside" by (simp add: demo_spin_def)
  have 1: "spin_step demo_spin ?s"
    by (rule lock_enter [OF out]) (use on in \<open>simp add: spin_mask_def Let_def\<close>)
  have "spin_step ?s (at_pc 1 (Holding True) (?s\<lparr>ss_lock := (ss_lock demo_spin)\<lparr>sl_locked := True\<rparr>\<rparr>))"
    by (rule lock_won) (simp_all add: at_pc_def spin_cas_def demo_spin_def spin_new_def)
  also have "at_pc 1 (Holding True) (?s\<lparr>ss_lock := (ss_lock demo_spin)\<lparr>sl_locked := True\<rparr>\<rparr>) = demo_spin_held"
    by (simp add: demo_spin_held_def demo_spin_def at_pc_def)
  finally have 2: "spin_step ?s demo_spin_held" .
  show ?thesis using rtranclp.rtrancl_into_rtrancl [OF r_into_rtranclp [of spin_step, OF 1] 2] .
qed

theorem spin_exclusive_witness:
  "holds 1 demo_spin_held \<and> sl_locked (ss_lock demo_spin_held) \<and> \<not> intr_enabled (ss_csr demo_spin_held 1)
     \<and> intr_enabled (ss_csr demo_spin_held 0)"
proof -
  have start: "spin_start (\<lambda>_. True) demo_spin"
    by (simp add: spin_start_def demo_spin_def spin_new_def intr_enabled_def)
  have h: "holds 1 demo_spin_held" "ss_pc demo_spin_held 0 = Outside"
    by (auto simp: demo_spin_held_def holds_def)
  show ?thesis
    using h spin_exclusive [OF start demo_spin_run] by blast
qed

section \<open>One hart alone\<close>

text \<open>A successful \<^verbatim>\<open>try_lock\<close> followed by the guard's drop leaves the lock free and the
  interrupt state as it was, and so does a failed one.\<close>

lemma try_lock_drop:
  assumes "spin_try_lock l c = (Some g, l1, c1)"
  shows "\<not> sl_locked l \<and> sl_locked l1 \<and> \<not> intr_enabled c1"
    "guard_drop g l1 c1 = (l, c2) \<Longrightarrow> intr_enabled c2 = intr_enabled c"
  using assms spin_mask_restore(1) [of c g c1] spin_mask_restore(2) [of c1 g]
  by (auto simp: spin_try_lock_def spin_cas_def guard_drop_def split: prod.splits if_splits)

lemma try_lock_fails:
  assumes "spin_try_lock l c = (None, l1, c1)"
  shows "sl_locked l" "l1 = l" "intr_enabled c1 = intr_enabled c"
  using assms spin_mask_restore(1) [of c] spin_mask_restore(2)
  by (auto simp: spin_try_lock_def spin_cas_def split: prod.splits if_splits)

section \<open>Cells initialised once\<close>

text \<open>The slot is the data under the lock; \<open>None\<close> of the outer option is the failed assertion.\<close>

definition once_new :: "'a option spin_lock" where
  "once_new = spin_new None"

definition once_init :: "'a \<Rightarrow> 'a option spin_lock \<Rightarrow> 'a option spin_lock option" where
  "once_init v c = (case sl_data c of None \<Rightarrow> Some (c\<lparr>sl_data := Some v\<rparr>) | Some _ \<Rightarrow> None)"

definition once_is_initialized :: "'a option spin_lock \<Rightarrow> bool" where
  "once_is_initialized c \<longleftrightarrow> sl_data c \<noteq> None"

definition once_get :: "'a option spin_lock \<Rightarrow> 'a option" where
  "once_get c = sl_data c"

lemma once_init_get:
  "once_init v once_new = Some c \<Longrightarrow> once_get c = Some v \<and> once_init w c = None"
  "once_get once_new = None"
  by (auto simp: once_init_def once_new_def once_get_def spin_new_def)

end
