(* ===== verification/Space_Frames.thy ===== *)
theory Space_Frames
  imports Address_Space
begin

text \<open>
  Which frames the operations of a page table touch. The tables that translate the user
  half are reached through the first 256 entries of the root; mapping and unmapping user
  pages writes only to them and to frames of the allocator, so spaces that share the
  kernel's tables do not disturb each other.
\<close>

section \<open>The tables of the user half\<close>

definition low_tables :: "phys_mem \<Rightarrow> phys_page_num \<Rightarrow> phys_page_num set" where
  "low_tables m r = {t. \<exists>p. is_path p \<and> (p \<noteq> [] \<longrightarrow> hd p < 256) \<and> tbl m r p = Some t}"

definition path_tables :: "phys_mem \<Rightarrow> phys_page_num \<Rightarrow> usize list \<Rightarrow> phys_page_num set" where
  "path_tables m r idxs = {t. \<exists>k\<le>2. tbl m r (take k idxs) = Some t}"

lemma low_tables_tables: "low_tables m r \<subseteq> tables m r"
  by (auto simp: low_tables_def tables_def)

lemma low_tables_frame: "same_frames (tables m r) m m' \<Longrightarrow> low_tables m' r = low_tables m r"
  using tbl_frame [of m r m'] unfolding low_tables_def by auto

lemma path_low:
  assumes "length idxs = 3" "set idxs \<subseteq> {..<512}" "hd idxs < 256"
  shows "path_tables m r idxs \<subseteq> low_tables m r"
proof
  fix t assume "t \<in> path_tables m r idxs"
  then obtain k where k: "k \<le> 2" "tbl m r (take k idxs) = Some t" by (auto simp: path_tables_def)
  moreover have "take k idxs \<noteq> [] \<Longrightarrow> hd (take k idxs) < 256" using assms(3) by (cases idxs; cases k) auto
  ultimately show "t \<in> low_tables m r"
    using take_path [OF assms(1,2) k(1)] unfolding low_tables_def by blast
qed

lemma hd_indices: "v < 2 ^ 26 \<Longrightarrow> hd (vpn_indices v) < 256"
proof -
  assume v: "v < 2 ^ 26"
  have "hd (vpn_indices v) = v div 2 ^ 18 mod 512"
    using indices_facts(1,3) [of v] by (cases "vpn_indices v") auto
  moreover have "v div 2 ^ 18 < 256" using v by (simp add: div_less_iff_less_mult)
  ultimately show ?thesis by simp
qed

section \<open>Walks\<close>

definition keeps_tables :: "phys_page_num \<Rightarrow> mm_state \<Rightarrow> mm_state \<Rightarrow> bool" where
  "keeps_tables r s s' \<longleftrightarrow> (\<forall>p t. is_path p \<longrightarrow> tbl (ram s) r p = Some t \<longrightarrow> tbl (ram s') r p = Some t)"

lemma keeps_tables_trans: "keeps_tables r s s1 \<Longrightarrow> keeps_tables r s1 s2 \<Longrightarrow> keeps_tables r s s2"
  by (simp add: keeps_tables_def)

lemma walk_step_frame:
  assumes inv: "buddy_inv s" and al: "frame_alloc s = (Some f, s1)" and c: "c < 512"
    and s2: "s2 = write_pte (table_at t c) e s1"
  shows "same_frames (- (allocator_frames s \<union> {t})) (ram s) (ram s2)"
proof -
  have "same_frames (- allocator_frames s) (ram s) (ram s1)"
    using buddy.alloc_some [OF inv frame_alloc_some(2) [OF al]] by blast
  then show ?thesis using c unfolding s2 write_pte_slot by (auto simp: same_frames_def)
qed

lemma walk_low:
  assumes "pt_ok K pt s" "length idxs = 3" "set idxs \<subseteq> {..<512}" "hd idxs < 256" "level \<le> 2"
    and "tbl (ram s) (pt_root pt) (take level idxs) = Some t" "no_super (ram s) (pt_root pt)"
    and "walk_create_loop level (drop level idxs) 2 t (pt_frames pt) s = Some (slot, fs', s')"
  shows "same_frames (- (allocator_frames s \<union> path_tables (ram s) (pt_root pt) idxs)) (ram s) (ram s')
    \<and> keeps_tables (pt_root pt) s s'"
  using assms
proof (induction "2 - level" arbitrary: level t pt s)
  case 0
  then have "level = 2" by simp
  moreover have "drop 2 idxs = idxs ! 2 # drop (Suc 2) idxs" using 0 by (intro Cons_nth_drop_Suc [symmetric]) simp
  ultimately show ?case using 0 by (simp add: keeps_tables_def)
next
  case (Suc n)
  let ?r = "pt_root pt" and ?c = "idxs ! level"
  have lt: "level < 2" "n = 2 - Suc level" using Suc.hyps(2) by simp_all
  have dr: "drop level idxs = ?c # drop (Suc level) idxs" using lt Suc.prems(2) by (simp add: Cons_nth_drop_Suc)
  have tk: "take (Suc level) idxs = take level idxs @ [?c]"
    using lt Suc.prems(2) by (simp add: take_Suc_conv_app_nth)
  have c: "?c < 512" using subsetD [OF Suc.prems(3) nth_mem [of level idxs]] lt Suc.prems(2) by simp
  have len: "length (take level idxs) \<le> 1" "set (take level idxs) \<subseteq> {..<512}"
    using lt Suc.prems(3) set_take_subset [of level idxs] by auto
  have path: "is_path (take (Suc level) idxs)" using take_path [OF Suc.prems(2,3)] lt by simp
  have "hd (take (Suc level) idxs) < 256" using Suc.prems(4) by (cases idxs) auto
  then have nl: "\<not> pte_is_leaf (ram s (t * 512 + ?c))"
    using no_superD [OF Suc.prems(7) _ _ Suc.prems(6)] path unfolding tk by blast
  have tin: "t \<in> path_tables (ram s) ?r idxs" using Suc.prems(6) lt by (auto simp: path_tables_def intro: exI [of _ level])
  show ?case
  proof (cases "pte_is_valid (ram s (t * 512 + ?c))")
    case True
    then have "tbl (ram s) ?r (take (Suc level) idxs) = Some (pte_ppn (ram s (t * 512 + ?c)))"
      using nl Suc.prems(6) by (simp add: tk tbl_snoc next_table_def Let_def)
    from Suc.hyps(1) [OF lt(2) Suc.prems(1-4) _ this Suc.prems(7)] show ?thesis
      using Suc.prems(8) lt True by (simp add: dr read_pte_slot)
  next
    case False
    show ?thesis
    proof (cases "frame_alloc s")
      case (Pair r0 s1)
      show ?thesis
      proof (cases r0)
        case None
        then have "s1 = s" using buddy.alloc_none [OF pt_okD(1) [OF Suc.prems(1)]] frame_alloc_none Pair by blast
        then show ?thesis using Suc.prems(8) lt False Pair None by (simp add: dr read_pte_slot keeps_tables_def)
      next
        case (Some f)
        define s2 where "s2 = write_pte (table_at t ?c) (pte_new (fr_ppn f) FL_VALID) s1"
        let ?pt2 = "pt\<lparr>pt_frames := pt_frames pt @ [f]\<rparr>"
        note st = walk_step [OF Suc.prems(1,6) len c False Pair [unfolded Some] s2_def]
        note fr = walk_step_frame [OF pt_okD(1) [OF Suc.prems(1)] Pair [unfolded Some] c s2_def]
        have al: "allocator_frames s2 \<subseteq> allocator_frames s" using st(6) by (auto simp: pt_grows_def)
        have t2: "tbl (ram s2) ?r (take (Suc level) idxs) = Some (fr_ppn f)" using st(2) [OF path] tk by simp
        have "walk_create_loop (Suc level) (drop (Suc level) idxs) 2 (fr_ppn f) (pt_frames ?pt2) s2 = Some (slot, fs', s')"
          using Suc.prems(8) lt False Pair Some st(7) by (simp add: dr read_pte_slot s2_def [symmetric])
        with Suc.hyps(1) [OF lt(2) st(1) Suc.prems(2-4), of "fr_ppn f"] t2 st(8) [OF Suc.prems(7)] lt
        have ih: "same_frames (- (allocator_frames s2 \<union> path_tables (ram s2) ?r idxs)) (ram s2) (ram s')" "keeps_tables ?r s2 s'"
          by simp_all
        have "path_tables (ram s2) ?r idxs \<subseteq> insert (fr_ppn f) (path_tables (ram s) ?r idxs)"
          using st(2) take_path [OF Suc.prems(2,3)] by (auto simp: path_tables_def split: if_splits)
        moreover have "fr_ppn f \<in> allocator_frames s" using st(10) free_allocator by blast
        ultimately have sub: "allocator_frames s2 \<union> path_tables (ram s2) ?r idxs \<subseteq> allocator_frames s \<union> path_tables (ram s) ?r idxs"
          using al by blast
        have "same_frames (- (allocator_frames s \<union> path_tables (ram s) ?r idxs)) (ram s) (ram s2)"
          by (rule same_frames_mono [OF fr]) (use tin in blast)
        moreover have "same_frames (- (allocator_frames s \<union> path_tables (ram s) ?r idxs)) (ram s2) (ram s')"
          by (rule same_frames_mono [OF ih(1)]) (use sub in blast)
        ultimately have "same_frames (- (allocator_frames s \<union> path_tables (ram s) ?r idxs)) (ram s) (ram s')"
          by (rule same_frames_trans)
        moreover have "keeps_tables ?r s s2"
          using st(2) Suc.prems(6) False by (auto simp: keeps_tables_def tbl_snoc next_table_def Let_def split: if_splits)
        ultimately show ?thesis using keeps_tables_trans ih(2) by blast
      qed
    qed
  qed
qed

section \<open>Mapping and unmapping\<close>

lemma leaf_store_frame:
  assumes "tbl m r [v div 2 ^ 18 mod 512, v div 512 mod 512] = Some t" "v < 2 ^ 26"
  shows "t \<in> low_tables m r" "same_frames (- low_tables m r) m (m(t * 512 + v mod 512 := e))"
proof -
  have "hd [v div 2 ^ 18 mod 512, v div 512 mod 512] < 256"
    using hd_indices [OF assms(2)] indices_facts(1,3) [of v] by (cases "vpn_indices v") auto
  then show low: "t \<in> low_tables m r"
    using assms(1) unfolding low_tables_def by (intro CollectI exI [of _ "[v div 2 ^ 18 mod 512, v div 512 mod 512]"]) simp
  then show "same_frames (- low_tables m r) m (m(t * 512 + v mod 512 := e))" by (auto simp: same_frames_def)
qed

lemma leaf_store_keeps:
  assumes "tree (ram s) r" "tbl (ram s) r [v div 2 ^ 18 mod 512, v div 512 mod 512] = Some t"
  shows "keeps_tables r s (write_pte (table_at t (v mod 512)) e s)"
proof -
  have lt: "v div 2 ^ 18 mod 512 < 512" "v div 512 mod 512 < 512" "v mod 512 < 512" by simp_all
  show ?thesis using tbl_leaf_store [OF assms lt] by (simp add: keeps_tables_def write_pte_slot)
qed

text \<open>A table that stays reachable stays where it was, so new user tables are new frames.\<close>

lemma low_tables_grow:
  assumes keep: "keeps_tables r s s'" and tree: "tree (ram s') r"
    and tab: "tables (ram s') r \<subseteq> tables (ram s) r \<union> F"
  shows "low_tables (ram s') r \<subseteq> low_tables (ram s) r \<union> F"
proof
  fix t assume "t \<in> low_tables (ram s') r"
  then obtain p where p: "is_path p" "p \<noteq> [] \<longrightarrow> hd p < 256" "tbl (ram s') r p = Some t" by (auto simp: low_tables_def)
  show "t \<in> low_tables (ram s) r \<union> F"
  proof (cases "t \<in> F")
    case False
    then have "t \<in> tables (ram s) r" using tab tablesI [OF p(1,3)] by blast
    then obtain q where q: "is_path q" "tbl (ram s) r q = Some t" by (auto simp: tables_def)
    then have "p = q" using treeD [OF tree p(1) q(1) p(3)] keep by (auto simp: keeps_tables_def)
    then show ?thesis using p q by (auto simp: low_tables_def)
  qed simp
qed

lemma pt_map_low:
  assumes ok: "pt_ok K pt s" and ns: "no_super (ram s) (pt_root pt)" and v: "v < 2 ^ 26"
    and map: "pt_map v ppn flags pt s = Some (res, pt', s')"
  shows "same_frames (- (allocator_frames s \<union> low_tables (ram s) (pt_root pt))) (ram s) (ram s')"
    "low_tables (ram s') (pt_root pt) \<subseteq> low_tables (ram s) (pt_root pt) \<union> free_ppns s"
proof -
  let ?r = "pt_root pt" and ?L = "low_tables (ram s) (pt_root pt)"
  note ix = indices_facts(1,2) [of v]
  have nl: "no_leaf (ram s) ?r (vpn_indices v) 2" by (rule no_super_no_leaf [OF ns v])
  have r0: "tbl (ram s) ?r (take 0 (vpn_indices v)) = Some ?r" by simp
  obtain slot fs' s1 where w: "walk_create_loop 0 (vpn_indices v) 2 ?r (pt_frames pt) s = Some (slot, fs', s1)"
    and wr: "walk_result K pt s (vpn_indices v) 2 0 slot fs' s1"
    using walk_create_loop_correct [OF ok ix le_refl _ r0 nl] by auto
  have two: "level_page_size 2 = Some 4096" by (simp add: level_page_size_def checked_sub_def)
  have low: "same_frames (- (allocator_frames s \<union> path_tables (ram s) ?r (vpn_indices v))) (ram s) (ram s1)" "keeps_tables ?r s s1"
    using walk_low [OF ok ix hd_indices [OF v] _ r0 ns] w by simp_all
  have ok1: "pt_ok K (pt\<lparr>pt_frames := fs'\<rparr>) s1" "pt_grows ?r s s1" using wr by (simp_all add: walk_result_def)
  have tree1: "tree (ram s1) ?r" using pt_okD(3) [OF ok1(1)] by simp
  have f1: "same_frames (- (allocator_frames s \<union> ?L)) (ram s) (ram s1)"
    by (rule same_frames_mono [OF low(1)]) (use path_low [OF ix hd_indices [OF v]] in blast)
  have l1: "low_tables (ram s1) ?r \<subseteq> ?L \<union> free_ppns s"
    using low_tables_grow [OF low(2) tree1] ok1(2) by (simp add: pt_grows_def)
  show "same_frames (- (allocator_frames s \<union> ?L)) (ram s) (ram s')" "low_tables (ram s') ?r \<subseteq> ?L \<union> free_ppns s"
  proof (atomize (full), cases "s' = s1")
    case False
    then obtain a where a: "slot = Some a" "s' = write_pte a (leaf_pte ppn flags) s1"
      using map w by (auto simp: pt_map_def pt_map_at_level_def two walk_create_to_def leaf_pte_def split: option.splits if_splits)
    then obtain u where u: "tbl (ram s1) ?r [v div 2 ^ 18 mod 512, v div 512 mod 512] = Some u" "a = table_at u (v mod 512)"
      using wr by (auto simp: walk_result_def indices_facts)
    have ram': "ram s' = (ram s1)(u * 512 + v mod 512 := leaf_pte ppn flags)" using a u by (simp add: write_pte_slot)
    have "u \<in> allocator_frames s \<union> ?L" using leaf_store_frame(1) [OF u(1) v] l1 free_allocator by blast
    then have "same_frames (- (allocator_frames s \<union> ?L)) (ram s1) (ram s')" by (auto simp: ram' same_frames_def)
    then have "same_frames (- (allocator_frames s \<union> ?L)) (ram s) (ram s')" by (rule same_frames_trans [OF f1])
    moreover have "tbl (ram s') ?r p = tbl (ram s1) ?r p" if "is_path p" for p
      unfolding ram' using tbl_leaf_store [OF tree1 u(1) _ _ _ that] by simp
    then have "low_tables (ram s') ?r = low_tables (ram s1) ?r" by (auto simp: low_tables_def)
    ultimately show "same_frames (- (allocator_frames s \<union> ?L)) (ram s) (ram s') \<and> low_tables (ram s') ?r \<subseteq> ?L \<union> free_ppns s"
      using l1 by simp
  qed (use f1 l1 in simp)
qed

end
