(* ===== verification/Space_Inv.thy ===== *)
theory Space_Inv
  imports Space_Frames
begin

text \<open>
  The invariant of an address space and what its operations keep of it. A space owns the
  frames of its tables and of its pages; \<open>K\<close> are the tables of the kernel half, which all
  spaces share and no operation on a space writes. \<open>space_frames\<close> says that the ownership
  is sound, \<open>space_maps\<close> that the user half translates exactly the pages. An operation
  has a footprint: outside the frames it owns and those of the allocator, memory is unchanged.
\<close>

section \<open>Ownership\<close>

type_synonym page = "virt_page_num \<times> frame \<times> pte_flags"

abbreviation page_ppn :: "page \<Rightarrow> phys_page_num" where
  "page_ppn x \<equiv> fr_ppn (fst (snd x))"

abbreviation table_frames :: "page_table \<Rightarrow> phys_page_num set" where
  "table_frames pt \<equiv> fr_ppn ` set (pt_frames pt)"

abbreviation tables_grow :: "page_table \<Rightarrow> page_table \<Rightarrow> mm_state \<Rightarrow> bool" where
  "tables_grow pt pt' s \<equiv> table_frames pt \<subseteq> table_frames pt' \<and> table_frames pt' \<subseteq> table_frames pt \<union> free_ppns s"

definition owned :: "page_table \<Rightarrow> page list \<Rightarrow> phys_page_num set" where
  "owned pt pages = fr_ppn ` set (pt_frames pt) \<union> page_ppn ` set pages"

definition space_frames :: "phys_page_num set \<Rightarrow> page_table \<Rightarrow> page list \<Rightarrow> mm_state \<Rightarrow> bool" where
  "space_frames K pt pages s \<longleftrightarrow> pt_ok K pt s \<and> no_super (ram s) (pt_root pt) \<and>
     K \<inter> (allocator_frames s \<union> owned pt pages) = {} \<and>
     low_tables (ram s) (pt_root pt) \<subseteq> fr_ppn ` set (pt_frames pt) \<and>
     distinct (map fr_ppn (pt_frames pt) @ map page_ppn pages) \<and> distinct (map fst pages) \<and>
     (\<forall>x\<in>set pages. fst x < 2 ^ 26 \<and> fr_order (fst (snd x)) = 0 \<and> page_ppn x \<in> managed s - free_ppns s)"

definition space_maps :: "page_table \<Rightarrow> page list \<Rightarrow> mm_state \<Rightarrow> bool" where
  "space_maps pt pages s \<longleftrightarrow>
     (\<forall>v<2 ^ 26. \<forall>e. pt_translate pt v s = Some e \<longleftrightarrow> (\<exists>f p. (v, f, p) \<in> set pages \<and> e = leaf_pte (fr_ppn f) p))"

definition footprint :: "phys_page_num set \<Rightarrow> mm_state \<Rightarrow> mm_state \<Rightarrow> bool" where
  "footprint W s s' \<longleftrightarrow> buddy_inv s' \<and> managed s' = managed s \<and>
     allocator_frames s' \<subseteq> allocator_frames s \<union> W \<and>
     same_frames (- (allocator_frames s \<union> W)) (ram s) (ram s')"

lemma space_framesD:
  assumes "space_frames K pt pages s"
  shows "pt_ok K pt s" "no_super (ram s) (pt_root pt)" "K \<inter> allocator_frames s = {}" "K \<inter> owned pt pages = {}"
    "low_tables (ram s) (pt_root pt) \<subseteq> fr_ppn ` set (pt_frames pt)" "distinct (map fr_ppn (pt_frames pt) @ map page_ppn pages)"
    "distinct (map fst pages)" "\<And>x. x \<in> set pages \<Longrightarrow> fst x < 2 ^ 26" "\<And>x. x \<in> set pages \<Longrightarrow> fr_order (fst (snd x)) = 0"
    "\<And>x. x \<in> set pages \<Longrightarrow> page_ppn x \<in> managed s - free_ppns s"
  using assms unfolding space_frames_def by blast+

lemma allocator_managed: "buddy_inv s \<Longrightarrow> x \<in> managed s \<Longrightarrow> x \<in> allocator_frames s \<longleftrightarrow> x \<in> free_ppns s"
  using buddy.own_pool [of s] by blast

lemma owned_in_use:
  assumes "space_frames K pt pages s"
  shows "owned pt pages \<subseteq> managed s - free_ppns s" "owned pt pages \<inter> allocator_frames s = {}"
proof -
  note d = space_framesD [OF assms]
  show "owned pt pages \<subseteq> managed s - free_ppns s"
    using pt_okD(9) [OF d(1)] d(10) by (auto simp: owned_def)
  then show "owned pt pages \<inter> allocator_frames s = {}"
    using allocator_managed [OF pt_okD(1) [OF d(1)]] by blast
qed

lemma tables_owned:
  assumes "space_frames K pt pages s"
  shows "tables (ram s) (pt_root pt) \<subseteq> fr_ppn ` set (pt_frames pt) \<union> K"
    "tables (ram s) (pt_root pt) \<inter> page_ppn ` set pages = {}"
proof -
  note d = space_framesD [OF assms]
  show "tables (ram s) (pt_root pt) \<subseteq> fr_ppn ` set (pt_frames pt) \<union> K" by (rule pt_okD(5) [OF d(1)])
  then show "tables (ram s) (pt_root pt) \<inter> page_ppn ` set pages = {}"
    using d(4,6) by (force simp: owned_def)
qed

section \<open>Footprints\<close>

lemma footprint_refl [simp]: "buddy_inv s \<Longrightarrow> footprint W s s"
  by (simp add: footprint_def)

lemma footprint_trans:
  assumes "footprint W s s1" "footprint W1 s1 s2" "W1 \<subseteq> W \<union> allocator_frames s"
  shows "footprint W s s2"
proof -
  have "same_frames (- (allocator_frames s \<union> W)) (ram s1) (ram s2)"
    using assms unfolding footprint_def by (elim conjE) (erule same_frames_mono, blast)
  then show ?thesis using assms same_frames_trans unfolding footprint_def by blast
qed

lemma footprint_mono: "footprint W s s' \<Longrightarrow> W \<subseteq> W' \<Longrightarrow> footprint W' s s'"
  unfolding footprint_def by (elim conjE, intro conjI) (blast intro: same_frames_mono)+

text \<open>An operation elsewhere leaves a space as it was.\<close>

lemma space_foreign:
  assumes sf: "space_frames K pt pages s" and fp: "footprint W s s'" and W: "W \<inter> (owned pt pages \<union> K) = {}"
  shows "space_frames K pt pages s'" "pt_translate pt v s' = pt_translate pt v s"
    "same_frames (owned pt pages \<union> K) (ram s) (ram s')"
proof -
  note d = space_framesD [OF sf] and u = owned_in_use [OF sf] and f = fp [unfolded footprint_def]
  let ?r = "pt_root pt"
  have away: "(owned pt pages \<union> K) \<inter> (allocator_frames s \<union> W) = {}" using u(2) d(3) W by blast
  then show same: "same_frames (owned pt pages \<union> K) (ram s) (ram s')"
    using f by (elim conjE) (erule same_frames_mono, blast)
  have tsub: "tables (ram s) ?r \<subseteq> owned pt pages \<union> K" using tables_owned(1) [OF sf] by (auto simp: owned_def)
  have ts: "same_frames (tables (ram s) ?r) (ram s) (ram s')" by (rule same_frames_mono [OF same tsub])
  note tab = tables_frame [OF ts] tree_frame [OF ts] lookup_frame [OF ts] no_super_frame [OF ts] low_tables_frame [OF ts]
  show "pt_translate pt v s' = pt_translate pt v s" by (simp add: pt_translate_lookup tab(3))
  have al: "(owned pt pages \<union> K) \<inter> allocator_frames s' = {}" using away f by blast
  have use: "owned pt pages \<subseteq> managed s' - free_ppns s'" using u(1) al f free_allocator [of s'] by blast
  have "tables (ram s) ?r \<inter> allocator_frames s' = {}" using tsub al by blast
  then have "pt_ok K pt s'"
    using d(1) tab(1,2) f use unfolding pt_ok_def owned_def by auto
  then show "space_frames K pt pages s'"
    using sf tab(4,5) al use f unfolding space_frames_def owned_def by auto
qed

lemma space_maps_same:
  "space_maps pt pages s \<Longrightarrow> (\<And>v. pt_translate pt v s' = pt_translate pt v s) \<Longrightarrow> space_maps pt pages s'"
  by (simp add: space_maps_def)

text \<open>Writing to the pages of a space changes neither its tables nor the allocator.\<close>

lemma page_store:
  assumes sf: "space_frames K pt pages s" and m: "same_frames (- page_ppn ` set pages) (ram s) m"
  shows "space_frames K pt pages (set_ram m s)" "pt_translate pt v (set_ram m s) = pt_translate pt v s"
    "footprint (page_ppn ` set pages) s (set_ram m s)" "free_ppns (set_ram m s) = free_ppns s"
proof -
  note d = space_framesD [OF sf] and u = owned_in_use [OF sf]
  let ?r = "pt_root pt" and ?s = "set_ram m s"
  have "same_frames (allocator_frames s) (ram s) m"
    by (rule same_frames_mono [OF m]) (use u(2) in \<open>auto simp: owned_def\<close>)
  note st = buddy.store [OF pt_okD(1) [OF d(1)] this]
  then show "free_ppns ?s = free_ppns s" by blast
  have ts: "same_frames (tables (ram s) ?r) (ram s) m"
    by (rule same_frames_mono [OF m]) (use tables_owned(2) [OF sf] in blast)
  have ram: "ram ?s = m" using st by blast
  note tab = tables_frame [OF ts] tree_frame [OF ts] lookup_frame [OF ts] no_super_frame [OF ts] low_tables_frame [OF ts]
  show "pt_translate pt v ?s = pt_translate pt v s" by (simp add: pt_translate_lookup ram tab(3))
  have "pt_ok K pt ?s" using d(1) st tab(1,2) unfolding pt_ok_def ram by auto
  then show "space_frames K pt pages ?s"
    using sf st tab(4,5) unfolding space_frames_def ram by auto
  have "same_frames (- (allocator_frames s \<union> page_ppn ` set pages)) (ram s) m"
    by (rule same_frames_mono [OF m]) auto
  then show "footprint (page_ppn ` set pages) s ?s" using st ram by (simp add: footprint_def)
qed

section \<open>Mapping one page\<close>

abbreviation map_outcome :: "virt_page_num \<Rightarrow> phys_page_num \<Rightarrow> pte_flags \<Rightarrow> page_table \<Rightarrow> mm_state
    \<Rightarrow> map_error + unit \<Rightarrow> page_table \<Rightarrow> mm_state \<Rightarrow> bool" where
  "map_outcome v ppn flags pt s res pt' s' \<equiv>
     res = Inr () \<and> pt_translate pt v s = None \<and> (\<forall>v'<2 ^ 27. pt_translate pt' v' s' =
           (if v' = v then Some (leaf_pte ppn flags) else pt_translate pt v' s))
     \<or> res = Inl AlreadyMapped \<and> pt_translate pt v s \<noteq> None \<and> (\<forall>v'. pt_translate pt' v' s' = pt_translate pt v' s)
     \<or> res = Inl MapOutOfMemory \<and> card (free_ppns s) < 2 \<and> (\<forall>v'. pt_translate pt' v' s' = pt_translate pt v' s)"

lemma pt_map_space:
  assumes sf: "space_frames K pt pages s" and v: "v < 2 ^ 26"
  obtains res pt' s' where "pt_map v ppn flags pt s = Some (res, pt', s')" "space_frames K pt' pages s'"
    "footprint (table_frames pt) s s'" "allocator_frames s' \<subseteq> allocator_frames s" "pt_root pt' = pt_root pt"
    "free_ppns s' \<union> owned pt' pages = free_ppns s \<union> owned pt pages" "tables_grow pt pt' s"
    "map_outcome v ppn flags pt s res pt' s'"
proof -
  let ?r = "pt_root pt"
  note d = space_framesD [OF sf] and u = owned_in_use [OF sf]
  have v27: "v < 2 ^ 27" using v by simp
  obtain res pt' s' where m: "pt_map v ppn flags pt s = Some (res, pt', s')" "pt_root pt' = ?r"
    "pt_ok K pt' s'" "pt_grows ?r s s'" "no_super (ram s') ?r"
    "\<exists>ns. pt_frames pt' = pt_frames pt @ ns \<and> fr_ppn ` set ns \<subseteq> free_ppns s"
    and res: "map_outcome v ppn flags pt s res pt' s'"
    by (rule pt_map_cases [where ppn = ppn and flags = flags, OF d(1) v27 no_super_no_leaf [OF d(2) v]]) (use d(2) in blast)
  obtain ns where ns: "pt_frames pt' = pt_frames pt @ ns" "fr_ppn ` set ns \<subseteq> free_ppns s" using m(6) by blast
  note low = pt_map_low [OF d(1,2) v m(1)] and ok' = pt_okD [OF m(3)]
  have g: "managed s' = managed s" "free_ppns s' \<subseteq> free_ppns s" "tables (ram s') ?r \<subseteq> tables (ram s) ?r \<union> free_ppns s"
    "allocator_frames s' = allocator_frames s - (tables (ram s') ?r - tables (ram s) ?r)"
    using m(4) by (auto simp: pt_grows_def)
  have own': "owned pt' pages = owned pt pages \<union> fr_ppn ` set ns" using ns(1) by (auto simp: owned_def)
  have fp: "footprint (table_frames pt) s s'"
    unfolding footprint_def using ok'(1) g(1,4) same_frames_mono [OF low(1), of "- (allocator_frames s \<union> table_frames pt)"] d(5) by blast
  have new: "fr_ppn ` set ns \<inter> free_ppns s' = {}" using ok'(9) ns(1) by auto
  have keep: "x \<in> free_ppns s'" if x: "x \<in> free_ppns s" "x \<notin> fr_ppn ` set ns" for x
  proof (rule ccontr)
    assume "x \<notin> free_ppns s'"
    moreover have "x \<in> managed s" "x \<in> allocator_frames s"
      using x(1) buddy.free_pool [OF pt_okD(1) [OF d(1)]] free_allocator by blast+
    ultimately have "x \<in> tables (ram s') ?r" using g(1,4) allocator_managed [OF ok'(1)] by blast
    then have "x \<in> fr_ppn ` set (pt_frames pt) \<union> K" using ok'(5) m(2) ns(1) x(2) by auto
    then show False using u(1) d(3) \<open>x \<in> allocator_frames s\<close> x(1) by (auto simp: owned_def)
  qed
  then have free: "free_ppns s' \<union> owned pt' pages = free_ppns s \<union> owned pt pages" using g(2) ns(2) own' by blast
  have "low_tables (ram s') ?r \<subseteq> fr_ppn ` set (pt_frames pt')"
  proof
    fix x assume x: "x \<in> low_tables (ram s') ?r"
    then consider "x \<in> low_tables (ram s) ?r" | "x \<in> free_ppns s" using low(2) by blast
    then show "x \<in> fr_ppn ` set (pt_frames pt')"
    proof cases
      case 1
      then show ?thesis using d(5) ns(1) by auto
    next
      case 2
      then have "x \<notin> K" using d(3) free_allocator by blast
      then show ?thesis using subsetD [OF low_tables_tables x] ok'(5) m(2) by auto
    qed
  qed
  moreover have "K \<inter> (allocator_frames s' \<union> owned pt' pages) = {}"
    using d(3,4) g(4) own' ns(2) free_allocator by blast
  moreover have "distinct (map fr_ppn (pt_frames pt') @ map page_ppn pages)"
  proof -
    have "fr_ppn ` set ns \<inter> page_ppn ` set pages = {}" using ns(2) u(1) unfolding owned_def by blast
    then show ?thesis using d(6) ok'(7) ns(1) unfolding distinct_append set_map by auto
  qed
  ultimately have "space_frames K pt' pages s'"
    unfolding space_frames_def using m(2,3,5) d(2,7,8,9,10) g(1,2) by auto
  then show thesis using that [OF m(1) _ fp _ m(2) free _ res] g(4) ns by auto
qed

definition space_core :: "phys_page_num set \<Rightarrow> page_table \<Rightarrow> page list \<Rightarrow> mm_state \<Rightarrow> bool" where
  "space_core K pt pages s \<longleftrightarrow> space_frames K pt pages s \<and> space_maps pt pages s"

lemma frame_alloc_facts:
  assumes "buddy_inv s" "frame_alloc s = (Some f, s1)"
  shows "fr_order f = 0" "footprint {} s s1" "fr_ppn f \<in> free_ppns s" "free_ppns s1 = free_ppns s - {fr_ppn f}"
    "fr_ppn f \<in> managed s1" "fr_ppn f \<notin> allocator_frames s1" "\<And>d. dw_frame d = fr_ppn f \<Longrightarrow> ram s1 d = 0"
  using buddy.alloc_some [OF assms(1) frame_alloc_some(2) [OF assms(2)]] frame_alloc_some(1) [OF assms(2)]
    buddy.free_pool [OF assms(1)] by (auto simp: footprint_def)

lemma frame_drop_facts:
  assumes "buddy_inv s" "fr_order f = 0" "fr_ppn f \<in> managed s - free_ppns s"
  obtains s' where "frame_drop f s = Some s'" "footprint {fr_ppn f} s s'" "free_ppns s' = insert (fr_ppn f) (free_ppns s)"
    "allocator_frames s' = insert (fr_ppn f) (allocator_frames s)"
  using free_frames_single [OF assms(1,3)] assms(2) that by (auto simp: frame_drop_def footprint_def)

lemma space_maps_iff:
  "space_maps pt pages s \<Longrightarrow> v < 2 ^ 26 \<Longrightarrow> pt_translate pt v s = None \<longleftrightarrow> v \<notin> fst ` set pages"
  unfolding space_maps_def by (cases "pt_translate pt v s") force+

lemma space_frames_snoc:
  assumes sf: "space_frames K pt pages s" and v: "v < 2 ^ 26" "v \<notin> fst ` set pages"
    and f: "fr_order f = 0" "fr_ppn f \<in> managed s" "fr_ppn f \<notin> allocator_frames s" "fr_ppn f \<notin> owned pt pages" "fr_ppn f \<notin> K"
  shows "space_frames K pt (pages @ [(v, f, p)]) s"
proof -
  note d = space_framesD [OF sf]
  have "distinct (map fr_ppn (pt_frames pt) @ map page_ppn (pages @ [(v, f, p)]))"
    using d(6) f(4) by (auto simp: owned_def)
  moreover have "K \<inter> (allocator_frames s \<union> owned pt (pages @ [(v, f, p)])) = {}"
    using d(3,4) f(5) by (auto simp: owned_def)
  moreover have "fr_ppn f \<notin> free_ppns s" using f(3) free_allocator by blast
  ultimately show ?thesis
    using d v f(1,2) unfolding space_frames_def by auto
qed

lemma core_page:
  assumes core: "space_core K pt pages s" and v: "v < 2 ^ 26" and al: "frame_alloc s = (Some f, s1)"
  obtains (mapped) pt' s2 where "pt_map v (fr_ppn f) perm pt s1 = Some (Inr (), pt', s2)"
      "space_core K pt' (pages @ [(v, f, perm)]) s2" "footprint (table_frames pt) s s2"
      "free_ppns s2 \<union> owned pt' (pages @ [(v, f, perm)]) = free_ppns s \<union> owned pt pages"
      "v \<notin> fst ` set pages" "pt_root pt' = pt_root pt" "tables_grow pt pt' s" "free_ppns s2 \<subseteq> free_ppns s" "\<And>d. dw_frame d = fr_ppn f \<Longrightarrow> ram s2 d = 0"
  | (failed) err pt' s2 s3 where "pt_map v (fr_ppn f) perm pt s1 = Some (Inl err, pt', s2)" "frame_drop f s2 = Some s3"
      "space_core K pt' pages s3" "footprint (table_frames pt) s s3" "free_ppns s3 \<union> owned pt' pages = free_ppns s \<union> owned pt pages"
      "pt_root pt' = pt_root pt" "free_ppns s3 \<subseteq> free_ppns s" "tables_grow pt pt' s" "err = AlreadyMapped \<and> v \<in> fst ` set pages \<or> err = MapOutOfMemory \<and> card (free_ppns s) < 3"
proof -
  have sf: "space_frames K pt pages s" and maps: "space_maps pt pages s" using core by (simp_all add: space_core_def)
  note d = space_framesD [OF sf] and u = owned_in_use [OF sf]
  have inv: "buddy_inv s" by (rule pt_okD(1) [OF d(1)])
  note fa = frame_alloc_facts [OF inv al]
  have fA: "fr_ppn f \<in> allocator_frames s" using fa(3) free_allocator by blast
  have fo: "fr_ppn f \<notin> owned pt pages" "fr_ppn f \<notin> K" using u(2) d(3) fA by blast+
  note s1 = space_foreign [OF sf fa(2)] and tr1 = space_foreign(2) [OF sf fa(2)]
  have sf1: "space_frames K pt pages s1" using s1(1) by simp
  obtain res pt' s2 where m: "pt_map v (fr_ppn f) perm pt s1 = Some (res, pt', s2)" "space_frames K pt' pages s2"
    "footprint (table_frames pt) s1 s2" "allocator_frames s2 \<subseteq> allocator_frames s1" "pt_root pt' = pt_root pt"
    "free_ppns s2 \<union> owned pt' pages = free_ppns s1 \<union> owned pt pages" "tables_grow pt pt' s1" and out: "map_outcome v (fr_ppn f) perm pt s1 res pt' s2"
    by (rule pt_map_space [OF sf1 v])
  have fp: "footprint (table_frames pt) s s2"
    by (rule footprint_trans [OF footprint_mono [OF fa(2)] m(3)]) auto
  have inv2: "buddy_inv s2" "managed s2 = managed s1" using m(3) by (simp_all add: footprint_def)
  have f2: "fr_ppn f \<in> managed s2" "fr_ppn f \<notin> allocator_frames s2" "fr_ppn f \<notin> free_ppns s2"
    using fa(5,6) inv2(2) m(4) free_allocator by blast+
  have fless: "free_ppns s2 \<subseteq> free_ppns s1"
    using m(4) inv2 buddy.own_pool [OF inv2(1)] buddy.own_pool [of s1] fa(2) unfolding footprint_def by blast
  have fo': "fr_ppn f \<notin> owned pt' pages" using m(6) fo(1) fa(4) by blast
  have tr: "pt_translate pt v' s1 = pt_translate pt v' s" for v' using tr1 by simp
  show thesis
  proof (cases res)
    case (Inr x)
    have none: "pt_translate pt v s = None"
      and new: "\<And>v'. v' < 2 ^ 27 \<Longrightarrow> pt_translate pt' v' s2 = (if v' = v then Some (leaf_pte (fr_ppn f) perm) else pt_translate pt v' s)"
      using out Inr by (auto simp: tr)
    have fresh: "v \<notin> fst ` set pages" using none space_maps_iff [OF maps v] by blast
    have notin: "(v, f', p) \<notin> set pages" for f' p using fresh by (metis fst_conv imageI)
    have "pt_translate pt' v' s2 = Some e \<longleftrightarrow> (\<exists>f' p. (v', f', p) \<in> set (pages @ [(v, f, perm)]) \<and> e = leaf_pte (fr_ppn f') p)"
      if v': "v' < 2 ^ 26" for v' e
    proof (cases "v' = v")
      case True
      then show ?thesis using new [of v] v notin by auto
    next
      case False
      then show ?thesis using new [of v'] v' maps by (simp add: space_maps_def)
    qed
    then have "space_maps pt' (pages @ [(v, f, perm)]) s2" unfolding space_maps_def by blast
    then have "space_core K pt' (pages @ [(v, f, perm)]) s2"
      using space_frames_snoc [OF m(2) v fresh fa(1) f2(1,2) fo' fo(2)] by (simp add: space_core_def)
    moreover have "free_ppns s2 \<union> owned pt' (pages @ [(v, f, perm)]) = free_ppns s \<union> owned pt pages"
      using m(6) fa(3,4) by (auto simp: owned_def)
    moreover have "ram s2 e = 0" if "dw_frame e = fr_ppn f" for e
      using m(3) fa(6,7) fo(1) that by (auto simp: footprint_def same_frames_def owned_def)
    moreover have "tables_grow pt pt' s" using m(7) fa(4) by blast
    moreover have "free_ppns s2 \<subseteq> free_ppns s" using fless unfolding fa(4) by blast
    ultimately show thesis using mapped m(1,5) Inr fp fresh by simp
  next
    case (Inl err)
    have same: "pt_translate pt' v' s2 = pt_translate pt v' s" for v' using out Inl by (auto simp: tr)
    have fu: "fr_ppn f \<in> managed s2 - free_ppns s2" using f2 by blast
    obtain s3 where s3: "frame_drop f s2 = Some s3" "footprint {fr_ppn f} s2 s3" "free_ppns s3 = insert (fr_ppn f) (free_ppns s2)"
      by (rule frame_drop_facts [OF inv2(1) fa(1) fu])
    have W: "{fr_ppn f} \<inter> (owned pt' pages \<union> K) = {}" using fo' fo(2) by blast
    note fr = space_foreign [OF m(2) s3(2) W]
    have "space_core K pt' pages s3"
      using fr(1) maps fr(2) same unfolding space_core_def space_maps_def by simp
    moreover have "footprint (table_frames pt) s s3" by (rule footprint_trans [OF fp s3(2)]) (use fA in blast)
    moreover have "free_ppns s3 \<union> owned pt' pages = insert (fr_ppn f) (free_ppns s1 \<union> owned pt pages)" using m(6) s3(3) by simp
    then have "free_ppns s3 \<union> owned pt' pages = free_ppns s \<union> owned pt pages" using fa(3,4) by auto
    moreover have "free_ppns s3 \<subseteq> free_ppns s" using s3(3) fa(3) fless unfolding fa(4) by auto
    moreover have "tables_grow pt pt' s" using m(7) fa(4) by blast
    moreover have "card (free_ppns s) < 3" if "card (free_ppns s1) < 2"
      using that fa(3,4) by (cases "finite (free_ppns s)") (simp_all add: card_Diff_singleton)
    then have "err = AlreadyMapped \<and> v \<in> fst ` set pages \<or> err = MapOutOfMemory \<and> card (free_ppns s) < 3"
      using out Inl space_maps_iff [OF maps v] by (auto simp: tr)
    ultimately show thesis using failed m(1,5) s3(1) Inl by simp
  qed
qed

end
