(* ===== verification/Space_Ops.thy ===== *)
theory Space_Ops
  imports Space_Inv
begin

unbundle bit_operations_syntax

text \<open>
  The operations on address spaces keep the invariant: pushing a region, dropping a space
  and sharing the kernel half. Each conserves frames: what a space gains the allocator
  loses, and dropping a space gives everything back.
\<close>

section \<open>Framed regions\<close>

definition region_pages :: "region \<Rightarrow> page list" where
  "region_pages r = map (\<lambda>(v, f). (v, f, r_perm r)) (r_frames r)"

definition pages_of :: "region list \<Rightarrow> page list" where
  "pages_of rs = concat (map region_pages rs)"

text \<open>A region of user pages, each backed by a frame.\<close>

definition region_ok :: "region \<Rightarrow> bool" where
  "region_ok r \<longleftrightarrow> r_backing r = Framed \<and> r_start r mod PAGE_SIZE = 0 \<and> r_end r mod PAGE_SIZE = 0 \<and>
     r_start r \<le> r_end r \<and> r_end r \<le> USER_MAX_ADDR \<and> r_perm r AND NOT FLAG_MASK = 0 \<and> map fst (r_frames r) = [va_vpn (r_start r)..<va_vpn (r_end r)]"

definition space_ok :: "phys_page_num set \<Rightarrow> address_space \<Rightarrow> mm_state \<Rightarrow> bool" where
  "space_ok K sp s \<longleftrightarrow> space_core K (as_table sp) (pages_of (as_regions sp)) s \<and> (\<forall>r\<in>set (as_regions sp). region_ok r)"

definition space_owned :: "address_space \<Rightarrow> phys_page_num set" where
  "space_owned sp = owned (as_table sp) (pages_of (as_regions sp))"

lemma pages_of_snoc [simp]: "pages_of (rs @ [r]) = pages_of rs @ region_pages r"
  by (simp add: pages_of_def)

lemma pages_of_Cons [simp]: "pages_of (r # rs) = region_pages r @ pages_of rs" "pages_of [] = []"
  by (simp_all add: pages_of_def)

lemma region_pages_fst [simp]: "map fst (region_pages r) = map fst (r_frames r)"
  "fst ` set (region_pages r) = fst ` set (r_frames r)"
  by (force simp: region_pages_def comp_def case_prod_beta)+

lemma region_pages_frames [simp]:
  "region_pages (r\<lparr>r_frames := fs @ [(v, f)]\<rparr>) = region_pages (r\<lparr>r_frames := fs\<rparr>) @ [(v, f, r_perm r)]"
  "r_frames r = [] \<Longrightarrow> region_pages r = []"
  by (simp_all add: region_pages_def)

lemma btree_insert_snoc:
  "(\<And>x. x \<in> set fs \<Longrightarrow> fst x < k) \<Longrightarrow> btree_insert k f fs = (None, fs @ [(k, f)])"
proof (induction fs)
  case (Cons x fs)
  then show ?case by (cases x) force
qed simp

lemma va_vpn_bound: "a \<le> USER_MAX_ADDR \<Longrightarrow> a mod PAGE_SIZE = 0 \<Longrightarrow> va_vpn a \<le> 2 ^ 26"
  using div_le_mono [of a 274877906944 4096] by (simp add: va_vpn_def drop_bit_eq_div)

lemma space_core_inv: "space_core K pt pages s \<Longrightarrow> buddy_inv s"
  unfolding space_core_def using pt_okD(1) [OF space_framesD(1)] by blast

lemma finite_free: "buddy_inv s \<Longrightarrow> finite (free_ppns s)"
  using finite_subset [OF buddy.free_pool] by (simp add: managed_def)

section \<open>The mapping loop\<close>

text \<open>What a run of the loop leaves: the region with more frames, the same space otherwise.\<close>

definition loop_result :: "phys_page_num set \<Rightarrow> page list \<Rightarrow> virt_page_num \<Rightarrow> virt_page_num \<Rightarrow> region \<Rightarrow> page_table \<Rightarrow> mm_state
    \<Rightarrow> map_error + unit \<Rightarrow> region \<Rightarrow> page_table \<Rightarrow> mm_state \<Rightarrow> bool" where
  "loop_result K pages vpn e r pt s res r' pt' s' \<longleftrightarrow>
     (\<exists>fs. r' = r\<lparr>r_frames := r_frames r @ fs\<rparr> \<and> (res = Inr () \<longrightarrow> map fst fs = [vpn..<e])
        \<and> map fst fs = [vpn..<vpn + length fs] \<and> (res = Inl AlreadyMapped \<longrightarrow> vpn + length fs \<in> fst ` set pages)
        \<and> (\<forall>x\<in>set fs. \<forall>d. dw_frame d = fr_ppn (snd x) \<longrightarrow> ram s' d = 0))
   \<and> space_core K pt' (pages @ region_pages r') s' \<and> pt_root pt' = pt_root pt
   \<and> footprint (table_frames pt) s s' \<and> tables_grow pt pt' s
   \<and> free_ppns s' \<union> owned pt' (pages @ region_pages r') = free_ppns s \<union> owned pt (pages @ region_pages r)
   \<and> (res = Inr () \<or> res = Inl AlreadyMapped \<and> (\<exists>v\<in>{vpn..<e}. v \<in> fst ` set pages)
      \<or> res = Inl MapOutOfMemory \<and> card (free_ppns s') < 3)"

lemma loop_result_refl:
  assumes "space_core K pt (pages @ region_pages r) s"
    "res = Inr () \<and> e \<le> vpn \<or> res = Inl MapOutOfMemory \<and> card (free_ppns s) < 3"
  shows "loop_result K pages vpn e r pt s res r pt s"
  unfolding loop_result_def using assms space_core_inv [OF assms(1)] by (intro conjI exI [of _ "[]"]) auto

text \<open>Mapping more pages leaves those mapped before zero.\<close>

lemma zero_kept:
  assumes fp: "footprint (table_frames pt) s s'" and sf: "space_frames K pt pages s" and x: "x \<in> set pages"
    and z: "\<And>d. dw_frame d = page_ppn x \<Longrightarrow> ram s d = 0" and d: "dw_frame d = page_ppn x"
  shows "ram s' d = 0"
proof -
  have "page_ppn x \<notin> table_frames pt" using space_framesD(6) [OF sf] x by auto
  moreover have "page_ppn x \<in> owned pt pages" using x by (auto simp: owned_def)
  then have "page_ppn x \<notin> allocator_frames s" using owned_in_use(2) [OF sf] by blast
  ultimately show ?thesis using fp z d by (auto simp: footprint_def same_frames_def)
qed

lemma subset_left: "A \<subseteq> F \<union> T \<union> P \<Longrightarrow> A \<inter> P = {} \<Longrightarrow> A \<inter> T' = {} \<Longrightarrow> T \<subseteq> T' \<Longrightarrow> A \<subseteq> F"
  by blast

lemma subsets_grow: "A \<subseteq> B \<and> B \<subseteq> A \<union> F \<Longrightarrow> B \<subseteq> C \<and> C \<subseteq> B \<union> G \<Longrightarrow> G \<subseteq> F \<Longrightarrow> A \<subseteq> C \<and> C \<subseteq> A \<union> F"
  by blast

lemma loop_result_step:
  assumes core: "space_core K pt1 (pages @ region_pages (r\<lparr>r_frames := r_frames r @ [(vpn, f)]\<rparr>)) s1"
    and fp: "footprint (table_frames pt) s s1" and root: "pt_root pt1 = pt_root pt"
    and free: "free_ppns s1 \<union> owned pt1 (pages @ region_pages (r\<lparr>r_frames := r_frames r @ [(vpn, f)]\<rparr>))
      = free_ppns s \<union> owned pt (pages @ region_pages r)"
    and sub: "tables_grow pt pt1 s" "free_ppns s1 \<subseteq> free_ppns s"
    and z: "\<And>d. dw_frame d = fr_ppn f \<Longrightarrow> ram s1 d = 0"
    and rest: "loop_result K pages (vpn + 1) e (r\<lparr>r_frames := r_frames r @ [(vpn, f)]\<rparr>) pt1 s1 res r' pt' s'"
    and lt: "vpn < e"
  shows "loop_result K pages vpn e r pt s res r' pt' s'"
proof -
  let ?r = "r\<lparr>r_frames := r_frames r @ [(vpn, f)]\<rparr>"
  obtain fs where fs: "r' = ?r\<lparr>r_frames := r_frames ?r @ fs\<rparr>" "res = Inr () \<longrightarrow> map fst fs = [vpn + 1..<e]"
    "map fst fs = [vpn + 1..<vpn + 1 + length fs]" "res = Inl AlreadyMapped \<longrightarrow> vpn + 1 + length fs \<in> fst ` set pages"
    "\<forall>x\<in>set fs. \<forall>d. dw_frame d = fr_ppn (snd x) \<longrightarrow> ram s' d = 0"
    using rest unfolding loop_result_def by blast
  have fp1: "footprint (table_frames pt1) s1 s'" using rest unfolding loop_result_def by blast
  have sf1: "space_frames K pt1 (pages @ region_pages ?r) s1" using core by (simp add: space_core_def)
  have "ram s' d = 0" if "dw_frame d = fr_ppn f" for d
    using zero_kept [OF fp1 sf1, of "(vpn, f, r_perm r)"] z that by simp
  then have "\<exists>fs. r' = r\<lparr>r_frames := r_frames r @ fs\<rparr> \<and> (res = Inr () \<longrightarrow> map fst fs = [vpn..<e])
      \<and> map fst fs = [vpn..<vpn + length fs] \<and> (res = Inl AlreadyMapped \<longrightarrow> vpn + length fs \<in> fst ` set pages)
      \<and> (\<forall>x\<in>set fs. \<forall>d. dw_frame d = fr_ppn (snd x) \<longrightarrow> ram s' d = 0)"
    using fs lt by (intro exI [of _ "(vpn, f) # fs"]) (auto simp: upt_conv_Cons simp del: upt_Suc)
  moreover have "footprint (table_frames pt) s s'"
    by (rule footprint_trans [OF fp fp1]) (use sub(1) free_allocator [of s] in blast)
  moreover have "tables_grow pt1 pt' s1" using rest unfolding loop_result_def by simp
  then have "tables_grow pt pt' s" by (rule subsets_grow [OF sub(1) _ sub(2)])
  moreover have "(\<exists>v\<in>{vpn + 1..<e}. v \<in> fst ` set pages) \<longrightarrow> (\<exists>v\<in>{vpn..<e}. v \<in> fst ` set pages)" by force
  ultimately show ?thesis using rest free root unfolding loop_result_def by auto
qed

lemma map_into_loop_ok:
  assumes "r_backing r = Framed" "space_core K pt (pages @ region_pages r) s" "e \<le> 2 ^ 26"
    and "\<And>x. x \<in> set (r_frames r) \<Longrightarrow> fst x < vpn"
  shows "\<exists>res r' pt' s'. map_into_loop vpn e r pt s = Some (res, r', pt', s') \<and> loop_result K pages vpn e r pt s res r' pt' s'"
  using assms
proof (induction "e - vpn" arbitrary: vpn r pt s)
  case 0
  then have "map_into_loop vpn e r pt s = Some (Inr (), r, pt, s)" by (subst map_into_loop.simps) simp
  then show ?case using loop_result_refl [OF 0(3), of "Inr ()" e vpn] 0(1) by auto
next
  case (Suc n)
  have lt: "vpn < e" and v: "vpn < 2 ^ 26" using Suc.hyps(2) Suc.prems(3) by simp_all
  show ?case
  proof (cases "frame_alloc s")
    case (Pair r0 s1)
    show ?thesis
    proof (cases r0)
      case None
      then have "s1 = s" "free_ppns s = {}"
        using buddy.alloc_none [OF space_core_inv [OF Suc.prems(2)]] frame_alloc_none Pair by blast+
      then show ?thesis using loop_result_refl [OF Suc.prems(2), of "Inl MapOutOfMemory" e vpn] lt Pair None Suc.prems(1)
        by (subst map_into_loop.simps) simp
    next
      case (Some f)
      show ?thesis
      proof (rule core_page [OF Suc.prems(2) v Pair [unfolded Some], of "r_perm r"], goal_cases)
        case (1 pt' s2)
        let ?r = "r\<lparr>r_frames := r_frames r @ [(vpn, f)]\<rparr>"
        have pg: "pages @ region_pages ?r = (pages @ region_pages r) @ [(vpn, f, r_perm r)]" by simp
        have core2: "space_core K pt' (pages @ region_pages ?r) s2" using 1(2) unfolding pg .
        have "x \<in> set (r_frames ?r) \<Longrightarrow> fst x < vpn + 1" for x using Suc.prems(4) [of x] by auto
        moreover have "n = e - (vpn + 1)" "r_backing ?r = Framed" using Suc.hyps(2) Suc.prems(1) by simp_all
        ultimately obtain res r' pt'' s' where rest: "map_into_loop (vpn + 1) e ?r pt' s2 = Some (res, r', pt'', s')"
          "loop_result K pages (vpn + 1) e ?r pt' s2 res r' pt'' s'"
          using Suc.hyps(1) [of "vpn + 1" ?r pt' s2] Suc.prems(3) core2 by blast
        have "map_into_loop vpn e r pt s = Some (res, r', pt'', s')"
          using lt Suc.prems(1) Pair Some 1(1) rest(1) btree_insert_snoc [OF Suc.prems(4)]
          by (subst map_into_loop.simps) (simp add: opt_frame_drop_def)
        then show ?case
          using loop_result_step [OF core2 1(3,6) _ 1(7,8,9) rest(2) lt] 1(4) unfolding pg by blast
      next
        case (2 err pt' s2 s3)
        have "map_into_loop vpn e r pt s = Some (Inl err, r, pt', s3)"
          using lt Suc.prems(1) Pair Some 2(1,2) by (subst map_into_loop.simps) simp
        moreover have "vpn \<notin> fst ` set (r_frames r)" using Suc.prems(4) by force
        then have here: "vpn \<in> fst ` set (pages @ region_pages r) \<Longrightarrow> vpn \<in> fst ` set pages"
          by (simp add: image_Un)
        then have mapped: "vpn \<in> fst ` set (pages @ region_pages r) \<Longrightarrow> \<exists>v\<in>{vpn..<e}. v \<in> fst ` set pages"
          using lt by (intro bexI [of _ vpn]) simp_all
        have "card (free_ppns s3) \<le> card (free_ppns s)"
          by (rule card_mono [OF finite_free [OF space_core_inv [OF Suc.prems(2)]] 2(7)])
        then have "err = AlreadyMapped \<and> (\<exists>v\<in>{vpn..<e}. v \<in> fst ` set pages) \<or> err = MapOutOfMemory \<and> card (free_ppns s3) < 3"
          using 2(9) mapped by (elim disjE conjE) simp_all
        then have "loop_result K pages vpn e r pt s (Inl err) r pt' s3"
          unfolding loop_result_def using 2 here by (intro conjI exI [of _ "[]"]) auto
        ultimately show ?case by blast
      qed
    qed
  qed
qed

section \<open>Pushing a region\<close>

lemma region_new_ok:
  assumes "start \<le> end" "end \<le> USER_MAX_ADDR"
  obtains r where "region_new start end Framed perm = Some r" "r_backing r = Framed" "r_perm r = perm" "r_frames r = []"
    "r_start r = start - start mod PAGE_SIZE" "r_start r mod PAGE_SIZE = 0" "r_end r mod PAGE_SIZE = 0" "end \<le> r_end r"
    "r_end r < end + PAGE_SIZE" "r_end r \<le> USER_MAX_ADDR" "r_start r \<le> r_end r"
proof -
  let ?e = "next_multiple_of end 4096"
  have up: "align_up end = Some ?e" using assms by (simp add: align_up_eq)
  have e: "end \<le> ?e" "?e < end + 4096" "?e mod 4096 = 0"
    using next_multiple_of_props [of 4096 "end"] by (simp_all add: dvd_eq_mod_eq_0)
  have "?e \<le> 67108864 * 4096"
  proof -
    have "end div 4096 * 4096 < 67108864 * 4096" if "end mod 4096 \<noteq> 0"
    proof -
      have "end \<noteq> 67108864 * 4096" using that by auto
      then have "end div 4096 < 67108864" using assms(2) by (simp add: div_less_iff_less_mult)
      then show ?thesis by simp
    qed
    then have "end div 4096 * 4096 + 4096 \<le> 67108864 * 4096" if "end mod 4096 \<noteq> 0" using that by fastforce
    moreover have "?e = end div 4096 * 4096 + 4096" if nz: "end mod 4096 \<noteq> 0"
    proof -
      have "?e = end + (4096 - end mod 4096)" using nz unfolding next_multiple_of_def by (simp only: if_False)
      moreover have "end mod 4096 < 4096" by simp
      ultimately show ?thesis using div_mult_mod_eq [of "end" 4096] by linarith
    qed
    ultimately show ?thesis using assms(2) by (cases "end mod 4096 = 0") (simp_all add: next_multiple_of_def)
  qed
  then show thesis
    using that up e assms by (simp add: region_new_def align_down_eq)
qed

lemma region_map_into_ok:
  assumes core: "space_core K pt pages s" and r: "r_backing r = Framed" "r_frames r = []" "r_start r mod PAGE_SIZE = 0"
    "r_end r mod PAGE_SIZE = 0" "r_end r \<le> USER_MAX_ADDR" "r_perm r AND NOT FLAG_MASK = 0" "r_start r \<le> r_end r"
  obtains res r' pt' s' where "region_map_into r pt s = Some (res, r', pt', s')"
    "loop_result K pages (va_vpn (r_start r)) (va_vpn (r_end r)) r pt s res r' pt' s'"
    "res = Inr () \<longrightarrow> region_ok r'"
proof -
  have "space_core K pt (pages @ region_pages r) s" using core r(2) by simp
  from map_into_loop_ok [OF r(1) this va_vpn_bound [OF r(5,4)], of "va_vpn (r_start r)"] r(2)
  obtain res r' pt' s' where m: "region_map_into r pt s = Some (res, r', pt', s')"
    "loop_result K pages (va_vpn (r_start r)) (va_vpn (r_end r)) r pt s res r' pt' s'"
    by (auto simp: region_map_into_def)
  then have "region_ok r'" if "res = Inr ()"
    using that r unfolding loop_result_def region_ok_def by auto
  then show thesis using that m by blast
qed

text \<open>Releasing frames that a table no longer or still maps.\<close>

lemma frames_drop_ok:
  assumes "buddy_inv s" "\<And>f. f \<in> set fs \<Longrightarrow> fr_order f = 0" "distinct (map fr_ppn fs)" "fr_ppn ` set fs \<subseteq> managed s - free_ppns s"
  obtains s' where "frames_drop fs s = Some s'" "footprint (fr_ppn ` set fs) s s'" "free_ppns s' = free_ppns s \<union> fr_ppn ` set fs"
  using buddy.release_all_some [of s "map fr_ppn fs"] assms frames_drop_release [of fs s] that
  by (auto simp: footprint_def)

lemma region_drop_ok:
  assumes sf: "space_frames K pt (pages @ region_pages r) s"
  obtains s' where "region_drop r s = Some s'" "space_frames K pt pages s'" "\<forall>v. pt_translate pt v s' = pt_translate pt v s"
    "footprint (page_ppn ` set (region_pages r)) s s'" "free_ppns s' = free_ppns s \<union> page_ppn ` set (region_pages r)"
proof -
  note d = space_framesD [OF sf]
  have set: "fr_ppn ` set (map snd (r_frames r)) = page_ppn ` set (region_pages r)"
    "map page_ppn (region_pages r) = map fr_ppn (map snd (r_frames r))"
    by (force simp: region_pages_def)+
  have ord: "fr_order f = 0" if "f \<in> set (map snd (r_frames r))" for f
    using d(9) that by (fastforce simp: region_pages_def)
  have dist: "distinct (map fr_ppn (map snd (r_frames r)))" using d(6) unfolding set(2) [symmetric] by simp
  have use: "fr_ppn ` set (map snd (r_frames r)) \<subseteq> managed s - free_ppns s" unfolding set(1) using d(10) by auto
  obtain s' where s': "frames_drop (map snd (r_frames r)) s = Some s'" "footprint (page_ppn ` set (region_pages r)) s s'"
    "free_ppns s' = free_ppns s \<union> page_ppn ` set (region_pages r)"
    by (rule frames_drop_ok [OF pt_okD(1) [OF d(1)] ord dist use]) (simp_all only: set(1))
  have sf0: "space_frames K pt pages s" using sf unfolding space_frames_def by (auto simp: owned_def)
  have W: "page_ppn ` set (region_pages r) \<inter> (owned pt pages \<union> K) = {}"
    using d(4,6) by (auto simp: owned_def)
  show thesis
    using that [OF _ space_foreign(1) [OF sf0 s'(2) W] _ s'(2,3)] s'(1) space_foreign(2) [OF sf0 s'(2) W]
    by (simp add: region_drop_def)
qed

lemma space_push_ok:
  assumes ok: "space_ok K sp s" and r: "r_backing r = Framed" "r_frames r = []" "r_start r mod PAGE_SIZE = 0"
    "r_end r mod PAGE_SIZE = 0" "r_end r \<le> USER_MAX_ADDR" "r_perm r AND NOT FLAG_MASK = 0" "r_start r \<le> r_end r"
  obtains (pushed) r' pt' s' where "space_push r sp s = Some (Inr (), sp\<lparr>as_table := pt', as_regions := as_regions sp @ [r']\<rparr>, s')"
      "region_map_into r (as_table sp) s = Some (Inr (), r', pt', s')" "region_ok r'"
      "loop_result K (pages_of (as_regions sp)) (va_vpn (r_start r)) (va_vpn (r_end r)) r (as_table sp) s (Inr ()) r' pt' s'"
      "space_ok K (sp\<lparr>as_table := pt', as_regions := as_regions sp @ [r']\<rparr>) s'"
  | (failed) err r' pt' s1 s' where "space_push r sp s = Some (Inl err, sp\<lparr>as_table := pt'\<rparr>, s')"
      "region_map_into r (as_table sp) s = Some (Inl err, r', pt', s1)" "region_drop r' s1 = Some s'"
      "loop_result K (pages_of (as_regions sp)) (va_vpn (r_start r)) (va_vpn (r_end r)) r (as_table sp) s (Inl err) r' pt' s1"
      "space_frames K pt' (pages_of (as_regions sp)) s'" "\<forall>v. pt_translate pt' v s' = pt_translate pt' v s1"
      "footprint (table_frames (as_table sp)) s s'" "free_ppns s' = free_ppns s1 \<union> page_ppn ` set (region_pages r')"
      "free_ppns s' \<union> owned pt' (pages_of (as_regions sp)) = free_ppns s \<union> space_owned sp"
proof -
  let ?P = "pages_of (as_regions sp)"
  have core: "space_core K (as_table sp) ?P s" using ok by (simp add: space_ok_def)
  obtain res r' pt' s1 where m: "region_map_into r (as_table sp) s = Some (res, r', pt', s1)"
    "loop_result K ?P (va_vpn (r_start r)) (va_vpn (r_end r)) r (as_table sp) s res r' pt' s1" "res = Inr () \<longrightarrow> region_ok r'"
    by (rule region_map_into_ok [OF core r])
  have core1: "space_core K pt' (?P @ region_pages r') s1" and fp1: "footprint (table_frames (as_table sp)) s s1"
    and free1: "free_ppns s1 \<union> owned pt' (?P @ region_pages r') = free_ppns s \<union> space_owned sp"
    using m(2) r(2) unfolding loop_result_def by (simp_all add: space_owned_def)
  show thesis
  proof (cases res)
    case (Inr u)
    then have "space_ok K (sp\<lparr>as_table := pt', as_regions := as_regions sp @ [r']\<rparr>) s1"
      using ok core1 m(3) by (simp add: space_ok_def)
    then show thesis using pushed m Inr by (simp add: space_push_def)
  next
    case (Inl err)
    have sf1: "space_frames K pt' (?P @ region_pages r') s1" using core1 by (simp add: space_core_def)
    obtain s' where s': "region_drop r' s1 = Some s'" "space_frames K pt' ?P s'" "\<forall>v. pt_translate pt' v s' = pt_translate pt' v s1"
      "footprint (page_ppn ` set (region_pages r')) s1 s'" "free_ppns s' = free_ppns s1 \<union> page_ppn ` set (region_pages r')"
      by (rule region_drop_ok [OF sf1])
    have "page_ppn ` set (region_pages r') \<subseteq> free_ppns s"
    proof -
      have "page_ppn ` set (region_pages r') \<subseteq> free_ppns s \<union> table_frames (as_table sp) \<union> page_ppn ` set ?P"
        using free1 by (auto simp: owned_def space_owned_def)
      moreover have "page_ppn ` set (region_pages r') \<inter> page_ppn ` set ?P = {}" using space_framesD(6) [OF sf1] by auto
      moreover have "page_ppn ` set (region_pages r') \<inter> table_frames pt' = {}" using space_framesD(6) [OF sf1] by auto
      moreover have "table_frames (as_table sp) \<subseteq> table_frames pt'" using m(2) unfolding loop_result_def by blast
      ultimately show ?thesis by (rule subset_left)
    qed
    then have "footprint (table_frames (as_table sp)) s s'"
      using footprint_trans [OF fp1 s'(4)] free_allocator by blast
    moreover have "free_ppns s' \<union> owned pt' ?P = free_ppns s \<union> space_owned sp" using free1 s'(5) by (auto simp: owned_def)
    ultimately show thesis using failed m(1,2) s' Inl by (simp add: space_push_def)
  qed
qed

end
