(* ===== verification/Space_Life.thy ===== *)
theory Space_Life
  imports Space_Ops
begin

text \<open>
  The life of an address space: creating it with the kernel's half shared, and dropping it,
  which returns every frame it owned.
\<close>

section \<open>Unmapping\<close>

lemma pt_unmap_space:
  assumes sf: "space_frames K pt pages s" and v: "v < 2 ^ 26"
  shows "space_frames K pt pages (snd (pt_unmap v pt s))" "footprint (table_frames pt) s (snd (pt_unmap v pt s))"
    "free_ppns (snd (pt_unmap v pt s)) = free_ppns s"
proof -
  note d = space_framesD [OF sf]
  let ?s = "snd (pt_unmap v pt s)" and ?r = "pt_root pt"
  have inv: "buddy_inv s" by (rule pt_okD(1) [OF d(1)])
  have "space_frames K pt pages ?s \<and> footprint (table_frames pt) s ?s \<and> free_ppns ?s = free_ppns s"
  proof (cases "?s = s")
    case True
    then show ?thesis using sf inv by simp
  next
    case False
    then obtain t where t: "tbl (ram s) ?r [v div 2 ^ 18 mod 512, v div 512 mod 512] = Some t"
      and s': "?s = write_pte (table_at t (v mod 512)) 0 s"
      by (auto simp: pt_unmap_def walk_ptr_tbl split: option.splits if_splits)
    have v27: "v < 2 ^ 27" using v by simp
    note st = leaf_store [OF d(1) v27 t s']
    have ram': "ram ?s = (ram s)(t * 512 + v mod 512 := 0)" by (simp add: s' write_pte_slot)
    note lf = leaf_store_frame [OF t v]
    have tn: "t \<notin> allocator_frames s"
      using pt_okD(4) [OF d(1)] low_tables_tables [of "ram s" ?r] lf(1) by blast
    have st2: "managed ?s = managed s" "allocator_frames ?s = allocator_frames s" "buddy_inv ?s"
      using store_in_use [OF inv tn, of "v mod 512" 0] by (simp_all add: s' write_pte_slot)
    have "same_frames (- (allocator_frames s \<union> table_frames pt)) (ram s) (ram ?s)"
      unfolding ram' by (rule same_frames_mono [OF lf(2)]) (use d(5) in auto)
    then have fp: "footprint (table_frames pt) s ?s" using st2 by (simp add: footprint_def)
    have "tbl (ram ?s) ?r p = tbl (ram s) ?r p" if "is_path p" for p
      unfolding ram' using tbl_leaf_store [OF pt_okD(3) [OF d(1)] t _ _ _ that] by simp
    then have "low_tables (ram ?s) ?r = low_tables (ram s) ?r" by (auto simp: low_tables_def)
    then have "space_frames K pt pages ?s"
      using sf st(1) st(4) [OF d(2)] st(5) st2 unfolding space_frames_def by simp
    then show ?thesis using fp st(5) by simp
  qed
  then show "space_frames K pt pages ?s" "footprint (table_frames pt) s ?s" "free_ppns ?s = free_ppns s" by simp_all
qed

lemma unmap_loop_space:
  assumes "space_frames K pt pages s" "\<And>v. v \<in> set vs \<Longrightarrow> v < 2 ^ 26"
  shows "space_frames K pt pages (unmap_loop vs pt s) \<and> footprint (table_frames pt) s (unmap_loop vs pt s)
    \<and> free_ppns (unmap_loop vs pt s) = free_ppns s"
  using assms
proof (induction vs arbitrary: s)
  case Nil
  then show ?case using pt_okD(1) [OF space_framesD(1)] by simp
next
  case (Cons v vs)
  have v: "v < 2 ^ 26" using Cons.prems(2) by simp
  note one = pt_unmap_space [OF Cons.prems(1) v]
  have "space_frames K pt pages (unmap_loop vs pt (snd (pt_unmap v pt s)))
    \<and> footprint (table_frames pt) (snd (pt_unmap v pt s)) (unmap_loop vs pt (snd (pt_unmap v pt s)))
    \<and> free_ppns (unmap_loop vs pt (snd (pt_unmap v pt s))) = free_ppns (snd (pt_unmap v pt s))"
    by (rule Cons.IH [OF one(1)]) (use Cons.prems(2) in simp)
  then show ?case using footprint_trans [OF one(2) _ Un_upper1] one(3) by simp
qed

section \<open>Dropping a space\<close>

text \<open>Only the bounds of the regions matter, not what is mapped: a space whose last push
  failed can be dropped as well.\<close>

lemma space_frames_perm:
  "space_frames K pt (as @ bs) s \<Longrightarrow> space_frames K pt (bs @ as) s"
  unfolding space_frames_def owned_def by auto

lemma region_unmap_from_ok:
  assumes sf: "space_frames K pt (pages @ region_pages r) s" and r: "r_end r \<le> USER_MAX_ADDR" "r_end r mod PAGE_SIZE = 0"
  obtains s' where "region_unmap_from r pt s = Some (r\<lparr>r_frames := []\<rparr>, s')" "space_frames K pt pages s'"
    "footprint (owned pt (region_pages r)) s s'" "free_ppns s' = free_ppns s \<union> page_ppn ` set (region_pages r)"
proof -
  let ?s = "unmap_loop [va_vpn (r_start r)..<va_vpn (r_end r)] pt s"
  have "v < 2 ^ 26" if "v \<in> set [va_vpn (r_start r)..<va_vpn (r_end r)]" for v
    using that va_vpn_bound [OF r] by simp
  then have u: "space_frames K pt (pages @ region_pages r) ?s" "footprint (table_frames pt) s ?s" "free_ppns ?s = free_ppns s"
    using unmap_loop_space [OF sf] by blast+
  obtain s' where s': "region_drop r ?s = Some s'" "space_frames K pt pages s'"
    "\<forall>v. pt_translate pt v s' = pt_translate pt v ?s"
    "footprint (page_ppn ` set (region_pages r)) ?s s'" "free_ppns s' = free_ppns ?s \<union> page_ppn ` set (region_pages r)"
    by (rule region_drop_ok [OF u(1)])
  have "footprint (owned pt (region_pages r)) s s'"
    by (rule footprint_trans [OF footprint_mono [OF u(2)] s'(4)]) (auto simp: owned_def)
  then show thesis using that [of s'] s' u(3) by (simp add: region_unmap_from_def region_drop_def)
qed

lemma regions_unmap_ok:
  assumes "space_frames K pt (pages_of rs) s" "\<And>r. r \<in> set rs \<Longrightarrow> r_end r \<le> USER_MAX_ADDR \<and> r_end r mod PAGE_SIZE = 0"
  shows "\<exists>s'. regions_unmap rs pt s = Some s' \<and> space_frames K pt [] s' \<and> footprint (owned pt (pages_of rs)) s s'
    \<and> free_ppns s' = free_ppns s \<union> page_ppn ` set (pages_of rs)"
  using assms
proof (induction rs arbitrary: s)
  case Nil
  then show ?case using pt_okD(1) [OF space_framesD(1)] by simp
next
  case (Cons r rs)
  have "space_frames K pt (pages_of rs @ region_pages r) s"
    using space_frames_perm [of K pt "region_pages r" "pages_of rs"] Cons.prems(1) by simp
  moreover have "r_end r \<le> USER_MAX_ADDR" "r_end r mod PAGE_SIZE = 0" using Cons.prems(2) by simp_all
  ultimately obtain s1 where s1: "region_unmap_from r pt s = Some (r\<lparr>r_frames := []\<rparr>, s1)" "space_frames K pt (pages_of rs) s1"
    "footprint (owned pt (region_pages r)) s s1" "free_ppns s1 = free_ppns s \<union> page_ppn ` set (region_pages r)"
    by (rule region_unmap_from_ok)
  obtain s' where s': "regions_unmap rs pt s1 = Some s'" "space_frames K pt [] s'" "footprint (owned pt (pages_of rs)) s1 s'"
    "free_ppns s' = free_ppns s1 \<union> page_ppn ` set (pages_of rs)"
    using Cons.IH [OF s1(2)] Cons.prems(2) by auto
  have "footprint (owned pt (pages_of (r # rs))) s s'"
    by (rule footprint_trans [OF footprint_mono [OF s1(3)] s'(3)]) (auto simp: owned_def)
  then show ?case using s1(1,4) s' by (auto simp: Un_assoc image_Un)
qed

lemma space_drop_frames:
  assumes sf: "space_frames K (as_table sp) (pages_of (as_regions sp)) s"
    and rs: "\<And>r. r \<in> set (as_regions sp) \<Longrightarrow> r_end r \<le> USER_MAX_ADDR \<and> r_end r mod PAGE_SIZE = 0"
  obtains s' where "space_drop sp s = Some s'" "footprint (space_owned sp) s s'" "free_ppns s' = free_ppns s \<union> space_owned sp"
proof -
  let ?pt = "as_table sp" and ?P = "pages_of (as_regions sp)"
  obtain s1 where s1: "regions_unmap (as_regions sp) ?pt s = Some s1" "space_frames K ?pt [] s1" "footprint (owned ?pt ?P) s s1"
    "free_ppns s1 = free_ppns s \<union> page_ppn ` set ?P"
    using regions_unmap_ok [OF sf rs] by blast
  note d = pt_okD [OF space_framesD(1) [OF s1(2)]]
  have use: "table_frames ?pt \<subseteq> managed s1 - free_ppns s1" using d(9) by auto
  obtain s' where s': "frames_drop (pt_frames ?pt) s1 = Some s'" "footprint (table_frames ?pt) s1 s'"
    "free_ppns s' = free_ppns s1 \<union> table_frames ?pt"
    using frames_drop_ok [OF d(1) _ d(7) use] d(8) by blast
  have "footprint (space_owned sp) s s'"
    unfolding space_owned_def by (rule footprint_trans [OF s1(3) s'(2)]) (auto simp: owned_def)
  then show thesis
    using that [of s'] s1 s' by (auto simp: space_drop_def pt_drop_def space_owned_def owned_def)
qed

section \<open>Creating a space\<close>

text \<open>\<open>kern\<close> is the kernel's space: its tables are those every space shares.\<close>

definition kernel_ok :: "phys_page_num set \<Rightarrow> address_space \<Rightarrow> mm_state \<Rightarrow> bool" where
  "kernel_ok K kern s \<longleftrightarrow> pt_ok {} (as_table kern) s \<and> tables (ram s) (pt_root (as_table kern)) = K"

lemma away: "T \<subseteq> F \<Longrightarrow> F \<inter> A = {} \<Longrightarrow> W \<inter> F = {} \<Longrightarrow> T \<subseteq> - (A \<union> W)"
  by blast

lemma kernel_foreign:
  assumes k: "kernel_ok K kern s" and fp: "footprint W s s'" and W: "W \<inter> table_frames (as_table kern) = {}"
  shows "kernel_ok K kern s'" "pt_translate (as_table kern) v s' = pt_translate (as_table kern) v s"
proof -
  let ?pt = "as_table kern"
  note d = pt_okD [OF k [unfolded kernel_ok_def, THEN conjunct1]] and f = fp [unfolded footprint_def]
  have own: "table_frames ?pt \<inter> allocator_frames s = {}"
    using d(9) allocator_managed [OF d(1)] by blast
  have tsub: "tables (ram s) (pt_root ?pt) \<subseteq> table_frames ?pt" using d(5) by blast
  have ts: "same_frames (tables (ram s) (pt_root ?pt)) (ram s) (ram s')"
    using f away [OF tsub own W] same_frames_mono by blast
  note tab = tables_frame [OF ts] tree_frame [OF ts] lookup_frame [OF ts]
  show "pt_translate ?pt v s' = pt_translate ?pt v s" by (simp add: pt_translate_lookup tab(3))
  have al: "table_frames ?pt \<inter> allocator_frames s' = {}" using own W f by (elim conjE) auto
  have ta: "tables (ram s) (pt_root ?pt) \<inter> allocator_frames s' = {}" using tsub al by blast
  have use: "fr_ppn f \<in> managed s' - free_ppns s'" if "f \<in> set (pt_frames ?pt)" for f
    using d(9) [OF that] that al f free_allocator [of s'] by blast
  show "kernel_ok K kern s'"
    using k tab ta f use unfolding kernel_ok_def pt_ok_def by auto
qed

lemma low_tables_share:
  assumes "tree (ram s) (pt_root pt)" "tables (ram s) (pt_root kern) \<inter> tables (ram s) (pt_root pt) = {}"
  shows "low_tables (ram (pt_share_upper_half kern pt s)) (pt_root pt) = low_tables (ram s) (pt_root pt)"
  using share_tbl [OF assms] unfolding low_tables_def by (auto; metis not_le)

lemma no_super_share:
  assumes "tree (ram s) (pt_root pt)" "tables (ram s) (pt_root kern) \<inter> tables (ram s) (pt_root pt) = {}"
    and ns: "no_super (ram s) (pt_root pt)"
  shows "no_super (ram (pt_share_upper_half kern pt s)) (pt_root pt)"
  unfolding no_super_def
proof (intro allI impI, elim conjE)
  fix p i t
  assume p: "is_path (p @ [i])" "hd (p @ [i]) < 256" "tbl (ram (pt_share_upper_half kern pt s)) (pt_root pt) p = Some t"
  have pp: "is_path p" "i < 512" using is_path_prefix [OF p(1)] by simp_all
  have "p \<noteq> [] \<longrightarrow> hd p < 256" using p(2) by (cases p) auto
  then have t: "tbl (ram s) (pt_root pt) p = Some t" using share_tbl [OF assms(1,2) pp(1)] p(3) by (auto split: if_splits)
  have "i < 256" if "t = pt_root pt"
  proof -
    have "p = []" using treeD [OF assms(1) pp(1) _ t, of "[]"] that by simp
    then show ?thesis using p(2) by simp
  qed
  then have "ram (pt_share_upper_half kern pt s) (t * 512 + i) = ram s (t * 512 + i)"
    using share_slot [OF pp(2), of kern pt s t] by auto
  then show "\<not> pte_is_leaf (ram (pt_share_upper_half kern pt s) (t * 512 + i))"
    using no_superD [OF ns p(1,2) t] by simp
qed

lemma space_new_facts:
  assumes inv: "buddy_inv s" "managed s \<subseteq> {..<2 ^ 44}" and new: "space_new s = (Some sp, s1)"
  shows "pt_ok {} (as_table sp) s1" "pt_translate (as_table sp) v s1 = None" "no_super (ram s1) (pt_root (as_table sp))"
    "as_regions sp = []" "space_owned sp = {pt_root (as_table sp)}" "pt_root (as_table sp) \<in> free_ppns s"
    "free_ppns s1 = free_ppns s - {pt_root (as_table sp)}" "footprint {} s s1" "table_frames (as_table sp) = {pt_root (as_table sp)}"
    "tables (ram s1) (pt_root (as_table sp)) = {pt_root (as_table sp)}"
proof -
  obtain pt where pt: "pt_new s = (Some pt, s1)" "sp = \<lparr>as_table = pt, as_regions = []\<rparr>"
    using new by (auto simp: space_new_def split: prod.splits option.splits)
  note n = pt_new_some [OF inv pt(1)]
  have fr: "table_frames pt = {pt_root pt}" using pt(1) by (auto simp: pt_new_def split: prod.splits option.splits)
  show "pt_ok {} (as_table sp) s1" "pt_translate (as_table sp) v s1 = None" "no_super (ram s1) (pt_root (as_table sp))"
    "as_regions sp = []" "space_owned sp = {pt_root (as_table sp)}" "pt_root (as_table sp) \<in> free_ppns s"
    "free_ppns s1 = free_ppns s - {pt_root (as_table sp)}" "table_frames (as_table sp) = {pt_root (as_table sp)}"
    "tables (ram s1) (pt_root (as_table sp)) = {pt_root (as_table sp)}"
    using n fr pt(2) by (simp_all add: space_owned_def owned_def)
  show "footprint {} s s1" using n(6-8) pt_okD(1) [OF n(1)] by (auto simp: footprint_def)
qed

lemma share_footprint:
  assumes "pt_ok J (as_table kern) s1" "pt_ok {} pt s1" "tables (ram s1) (pt_root (as_table kern)) \<inter> tables (ram s1) (pt_root pt) = {}"
  shows "footprint {pt_root pt} s1 (pt_share_upper_half (as_table kern) pt s1)"
    "allocator_frames (pt_share_upper_half (as_table kern) pt s1) = allocator_frames s1"
proof -
  let ?s = "pt_share_upper_half (as_table kern) pt s1"
  note sh = share_ok [OF assms]
  show al: "allocator_frames ?s = allocator_frames s1" using sh(5) by (simp add: allocator_frames_def share_ram(2))
  have "same_frames (- (allocator_frames s1 \<union> {pt_root pt})) (ram s1) (ram ?s)" by (rule same_frames_mono [OF sh(4)]) blast
  then show "footprint {pt_root pt} s1 ?s" using pt_okD(1) [OF sh(1)] al by (auto simp: footprint_def managed_def share_ram(2))
qed

lemma upper_half: "2 ^ 26 \<le> v \<Longrightarrow> v < 2 ^ 27 \<Longrightarrow> 256 \<le> v div 2 ^ 18 mod (512::nat)" "v < 2 ^ 26 \<Longrightarrow> \<not> 256 \<le> v div 2 ^ 18 mod (512::nat)"
proof -
  assume v: "2 ^ 26 \<le> v" "v < 2 ^ 27"
  have "256 \<le> v div 2 ^ 18" using div_le_mono [OF v(1), of "2 ^ 18"] by simp
  moreover have "v div 2 ^ 18 < 512" using v(2) by (simp add: div_less_iff_less_mult)
  ultimately show "256 \<le> v div 2 ^ 18 mod 512" by simp
next
  assume "v < 2 ^ 26"
  then have "v div 2 ^ 18 < 256" by (simp add: div_less_iff_less_mult)
  then show "\<not> 256 \<le> v div 2 ^ 18 mod 512" by simp
qed

lemma space_create_ok:
  assumes inv: "buddy_inv s" "managed s \<subseteq> {..<2 ^ 44}" and k: "kernel_ok K kern s" and new: "space_new s = (Some sp, s1)"
  defines "s2 \<equiv> pt_share_upper_half (as_table kern) (as_table sp) s1"
  shows "map_kernel_half (Some kern) sp s1 = Some s2" "space_ok K sp s2" "kernel_ok K kern s2" "footprint {} s s2"
    "free_ppns s2 = free_ppns s - space_owned sp" "space_owned sp \<subseteq> free_ppns s"
    "2 ^ 26 \<le> v \<Longrightarrow> v < 2 ^ 27 \<Longrightarrow> pt_translate (as_table sp) v s2 = pt_translate (as_table kern) v s"
proof -
  let ?pt = "as_table sp" and ?r = "pt_root (as_table sp)"
  note n = space_new_facts [OF inv new]
  note k1 = kernel_foreign [OF k n(8), simplified]
  have kok: "pt_ok {} (as_table kern) s1" and K: "tables (ram s1) (pt_root (as_table kern)) = K"
    using k1(1) by (simp_all add: kernel_ok_def)
  have Kal: "K \<inter> allocator_frames s = {}" using k pt_okD(4) by (auto simp: kernel_ok_def)
  have rK: "?r \<notin> K" using n(6) free_allocator Kal by blast
  then have disj: "tables (ram s1) (pt_root (as_table kern)) \<inter> tables (ram s1) ?r = {}" unfolding K n(10) by simp
  note sh = share_ok [OF kok n(1) disj, folded s2_def] and fp = share_footprint [OF kok n(1) disj, folded s2_def]
  have tree: "tree (ram s1) ?r" by (rule pt_okD(3) [OF n(1)])
  show "map_kernel_half (Some kern) sp s1 = Some s2" by (simp add: map_kernel_half_def s2_def)
  show "footprint {} s s2" by (rule footprint_trans [OF n(8) fp(1)]) (use n(6) free_allocator in auto)
  show "free_ppns s2 = free_ppns s - space_owned sp" "space_owned sp \<subseteq> free_ppns s" using sh(5) n(5,6,7) by auto
  have ts: "same_frames (tables (ram s1) (pt_root (as_table kern))) (ram s1) (ram s2)"
    by (rule same_frames_mono [OF sh(4)]) (use rK K in auto)
  show "kernel_ok K kern s2" using sh(2) tables_frame [OF ts] K by (simp add: kernel_ok_def)
  have look: "pt_translate ?pt v s2 = (if 256 \<le> v div 2 ^ 18 mod 512 then pt_translate (as_table kern) v s1 else pt_translate ?pt v s1)" for v
    unfolding s2_def pt_translate_lookup share_lookup [OF tree disj] by simp
  show "2 ^ 26 \<le> v \<Longrightarrow> v < 2 ^ 27 \<Longrightarrow> pt_translate ?pt v s2 = pt_translate (as_table kern) v s"
    using look [of v] upper_half(1) [of v] k1(2) [of v] by simp
  have "space_maps ?pt [] s2" using look upper_half(2) n(2) by (simp add: space_maps_def)
  moreover have "low_tables (ram s2) ?r \<subseteq> table_frames ?pt"
    unfolding s2_def low_tables_share [OF tree disj] using low_tables_tables [of "ram s1" ?r] n(9,10) by simp
  moreover have "K \<inter> allocator_frames s2 = {}" using fp(2) n(8) Kal by (auto simp: footprint_def)
  moreover have "distinct (map fr_ppn (pt_frames ?pt))" by (rule pt_okD(7) [OF n(1)])
  ultimately have "space_core K ?pt [] s2"
    using sh(1) no_super_share [OF tree disj n(3), folded s2_def] rK n(9) K
    by (auto simp: space_core_def space_frames_def owned_def)
  then show "space_ok K sp s2" using n(4) by (simp add: space_ok_def)
qed

end
