(* ===== verification/Space_User.thy ===== *)
theory Space_User
  imports Space_Life
begin

text \<open>
  User memory as the kernel's copies see it. \<open>umem\<close> is the abstract view of a space: at
  each user address the byte that is mapped there and the flags of its page. The copy
  loops, which go page by page through the direct map, are shown to read and write it.
\<close>

unbundle bit_operations_syntax

section \<open>The view of a space\<close>

definition umem :: "address_space \<Rightarrow> mm_state \<Rightarrow> virt_addr \<Rightarrow> (u8 \<times> pte_flags) option" where
  "umem sp s va =
     (if va < USER_MAX_ADDR
      then map_option (\<lambda>e. (read_u8 (ram s) (pte_ppn e * 4096 + va mod 4096), pte_flags e))
             (pt_translate (as_table sp) (va div 4096) s)
      else None)"

definition user_writable :: "address_space \<Rightarrow> mm_state \<Rightarrow> virt_addr \<Rightarrow> bool" where
  "user_writable sp s va \<longleftrightarrow> (case umem sp s va of None \<Rightarrow> False | Some (_, fl) \<Rightarrow> fl_contains fl (FL_WRITE OR FL_USER))"

abbreviation leaf_flags :: "pte_flags \<Rightarrow> pte_flags" where
  "leaf_flags p \<equiv> p OR FL_VALID OR FL_ACCESSED OR FL_DIRTY"

lemma leaf_pte_fields:
  assumes "ppn < 2 ^ 44" "p AND NOT FLAG_MASK = 0"
  shows "pte_ppn (leaf_pte ppn p) = ppn" "pte_flags (leaf_pte ppn p) = leaf_flags p"
proof -
  have "leaf_flags p AND NOT FLAG_MASK = 0" using assms(2) by (simp add: bit.conj_disj_distrib2)
  then show "pte_ppn (leaf_pte ppn p) = ppn" "pte_flags (leaf_pte ppn p) = leaf_flags p"
    unfolding leaf_pte_def using pte_ppn_new [OF assms(1)] pte_flags_new by blast+
qed

lemma pages_perm:
  assumes "space_ok K sp s" "(v, f, p) \<in> set (pages_of (as_regions sp))"
  shows "p AND NOT FLAG_MASK = 0"
  using assms by (auto simp: space_ok_def pages_of_def region_pages_def region_ok_def)

lemma page_of_translation:
  assumes ok: "space_ok K sp s" and v: "v < 2 ^ 26" and e: "pt_translate (as_table sp) v s = Some e"
  obtains f p where "(v, f, p) \<in> set (pages_of (as_regions sp))" "pte_ppn e = fr_ppn f" "pte_flags e = leaf_flags p"
    "fr_ppn f < 2 ^ 44"
proof -
  let ?P = "pages_of (as_regions sp)"
  have core: "space_frames K (as_table sp) ?P s" "space_maps (as_table sp) ?P s" using ok by (simp_all add: space_ok_def space_core_def)
  obtain f p where fp: "(v, f, p) \<in> set ?P" "e = leaf_pte (fr_ppn f) p" using core(2) v e unfolding space_maps_def by blast
  note d = space_framesD [OF core(1)]
  have "fr_ppn f < 2 ^ 44" using d(10) [OF fp(1)] pt_okD(2) [OF d(1)] by auto
  then show thesis using that [OF fp(1)] leaf_pte_fields [OF _ pages_perm [OF ok fp(1)]] fp(2) by simp
qed

lemma user_page: "va < USER_MAX_ADDR \<Longrightarrow> va div 4096 < 2 ^ 26"
  by (simp add: div_less_iff_less_mult)

text \<open>Two pages of a space never share a frame.\<close>

lemma pages_apart:
  assumes ok: "space_ok K sp s" and v: "v < 2 ^ 26" "v' < 2 ^ 26" and ne: "v \<noteq> v'"
    and e: "pt_translate (as_table sp) v s = Some e" "pt_translate (as_table sp) v' s = Some e'"
  shows "pte_ppn e \<noteq> pte_ppn e'"
proof -
  obtain f p where f: "(v, f, p) \<in> set (pages_of (as_regions sp))" "pte_ppn e = fr_ppn f"
    by (rule page_of_translation [OF ok v(1) e(1)])
  obtain f' p' where f': "(v', f', p') \<in> set (pages_of (as_regions sp))" "pte_ppn e' = fr_ppn f'"
    by (rule page_of_translation [OF ok v(2) e(2)])
  have "distinct (map page_ppn (pages_of (as_regions sp)))"
    using ok space_framesD(6) by (fastforce simp: space_ok_def space_core_def)
  then have inj: "inj_on page_ppn (set (pages_of (as_regions sp)))" by (simp add: distinct_map)
  have "fr_ppn f \<noteq> fr_ppn f'" using inj_onD [OF inj _ f(1) f'(1)] ne by auto
  then show ?thesis using f(2) f'(2) by simp
qed

lemma in_frame:
  assumes "p * 4096 + k \<le> a" "a < p * 4096 + k + n" "k + n \<le> (4096::nat)"
  shows "a div 4096 = p"
  using assms by (intro div_nat_eqI) simp_all

lemma same_page:
  fixes x va q b n k j :: nat
  assumes "x = q + k" "va = q + j"
  shows "(b + j \<le> b + k \<and> b + k < b + j + n) = (va \<le> x \<and> x < va + n) \<and> (va \<le> x \<and> x < va + n \<longrightarrow> b + k - (b + j) = x - va)"
  using assms by auto

section \<open>Writing within a page\<close>

lemma write_chunk:
  assumes ok: "space_ok K sp s" and va: "va < USER_MAX_ADDR" and e: "pt_translate (as_table sp) (va div 4096) s = Some e"
    and len: "va mod 4096 + length bs \<le> 4096"
  defines "s' \<equiv> set_ram (write_buf (pte_ppn e * 4096 + va mod 4096) bs (ram s)) s"
  shows "space_ok K sp s'" "footprint (page_ppn ` set (pages_of (as_regions sp))) s s'" "free_ppns s' = free_ppns s"
    "umem sp s' x = (if va \<le> x \<and> x < va + length bs then map_option (\<lambda>(_, fl). (bs ! (x - va), fl)) (umem sp s x) else umem sp s x)"
    "pt_translate (as_table sp) v s' = pt_translate (as_table sp) v s"
proof -
  let ?P = "pages_of (as_regions sp)" and ?pa = "pte_ppn e * 4096 + va mod 4096"
  obtain f p where f: "(va div 4096, f, p) \<in> set ?P" "pte_ppn e = fr_ppn f"
    by (rule page_of_translation [OF ok user_page [OF va] e])
  have core: "space_frames K (as_table sp) ?P s" "space_maps (as_table sp) ?P s" using ok by (simp_all add: space_ok_def space_core_def)
  have pa: "?pa mod 4096 = va mod 4096" "?pa div 4096 = fr_ppn f" using f(2) by simp_all
  have "fr_ppn f \<in> page_ppn ` set ?P" using f(1) by force
  then have "same_frames (- page_ppn ` set ?P) (ram s) (write_buf ?pa bs (ram s))"
    using write_buf_same_frames [of ?pa bs "- page_ppn ` set ?P" "ram s"] len unfolding pa by simp
  note st = page_store [OF core(1) this, folded s'_def]
  show "footprint (page_ppn ` set ?P) s s'" "free_ppns s' = free_ppns s" "pt_translate (as_table sp) v s' = pt_translate (as_table sp) v s"
    using st by simp_all
  show "space_ok K sp s'"
    using ok st(1) space_maps_same [OF core(2) st(2)] by (simp add: space_ok_def space_core_def)
  have ram: "ram s' = write_buf ?pa bs (ram s)" by (simp add: s'_def set_ram_def)
  show "umem sp s' x = (if va \<le> x \<and> x < va + length bs then map_option (\<lambda>(_, fl). (bs ! (x - va), fl)) (umem sp s x) else umem sp s x)"
  proof (cases "x < USER_MAX_ADDR \<and> pt_translate (as_table sp) (x div 4096) s \<noteq> None")
    case False
    then show ?thesis using st(2) by (auto simp: umem_def)
  next
    case True
    then obtain e' where e': "pt_translate (as_table sp) (x div 4096) s = Some e'" and x: "x < USER_MAX_ADDR" by auto
    let ?a = "pte_ppn e' * 4096 + x mod 4096"
    have "(?pa \<le> ?a \<and> ?a < ?pa + length bs) = (va \<le> x \<and> x < va + length bs)
      \<and> (va \<le> x \<and> x < va + length bs \<longrightarrow> ?a - ?pa = x - va)"
    proof (cases "x div 4096 = va div 4096")
      case True
      then have "e' = e" using e e' by simp
      moreover have "x = va div 4096 * 4096 + x mod 4096" "va = va div 4096 * 4096 + va mod 4096"
        using True div_mult_mod_eq [of x 4096] by simp_all
      ultimately show ?thesis using same_page [of x _ _ va _ "pte_ppn e * 4096" "length bs"] by blast
    next
      case False
      then have "pte_ppn e' \<noteq> pte_ppn e" using pages_apart [OF ok user_page [OF x] user_page [OF va] _ e' e] by simp
      moreover have "?a div 4096 = pte_ppn e'" by simp
      ultimately have "\<not> (?pa \<le> ?a \<and> ?a < ?pa + length bs)" using in_frame [OF _ _ len, of "pte_ppn e" ?a] by metis
      moreover have "\<not> (va \<le> x \<and> x < va + length bs)"
        using in_frame [OF _ _ len, of "va div 4096" x] False by (simp, blast)
      ultimately show ?thesis by blast
    qed
    then show ?thesis using x e' st(2) by (auto simp: umem_def ram read_write_buf)
  qed
qed

section \<open>The copy loops\<close>

text \<open>Every frame is below the end of the direct map, and none is the very last.\<close>

definition direct_mapped :: "mm_state \<Rightarrow> bool" where
  "direct_mapped s \<longleftrightarrow> (\<forall>p\<in>managed s. p + 1 < 2 ^ 26)"

lemma direct_map:
  assumes ok: "space_ok K sp s" and dm: "direct_mapped s" and va: "va < USER_MAX_ADDR"
    and e: "pt_translate (as_table sp) (va div 4096) s = Some e"
  shows "\<exists>v. to_virt (pte_ppn e * 4096 + va mod 4096) = Some v"
proof -
  obtain f p where f: "(va div 4096, f, p) \<in> set (pages_of (as_regions sp))" "pte_ppn e = fr_ppn f"
    by (rule page_of_translation [OF ok user_page [OF va] e])
  have "fr_ppn f \<in> managed s" using ok f(1) space_framesD(10) by (fastforce simp: space_ok_def space_core_def)
  then have "fr_ppn f < 2 ^ 26" using dm by (auto simp: direct_mapped_def)
  moreover have "va mod 4096 < 4096" by simp
  ultimately show ?thesis using f(2) by (simp add: to_virt_def checked_add_def)
qed

lemma user_translate_addr:
  assumes ok: "space_ok K sp s" and va: "va < USER_MAX_ADDR" and e: "pt_translate (as_table sp) (va div 4096) s = Some e"
  shows "pt_translate_addr (as_table sp) va s = Some (pte_ppn e * 4096 + va mod 4096)"
proof -
  obtain f :: frame where f: "pte_ppn e = fr_ppn f" "fr_ppn f < 2 ^ 44"
    by (rule page_of_translation [OF ok user_page [OF va] e]) blast
  then show ?thesis using e
    by (simp add: pt_translate_addr_def va_vpn_div page_offset_mod ppn_base_addr_def push_bit_eq_mult)
qed

text \<open>The part of a copy that lies on the page of \<open>va\<close>.\<close>

lemma chunk_view:
  assumes "va mod 4096 + i < 4096" "va < USER_MAX_ADDR"
  shows "umem sp s (va + i) = map_option (\<lambda>e. (read_u8 (ram s) (pte_ppn e * 4096 + va mod 4096 + i), pte_flags e))
     (pt_translate (as_table sp) (va div 4096) s)"
proof -
  have eq: "va + i = va div 4096 * 4096 + (va mod 4096 + i)" by simp
  have d: "(va + i) div 4096 = va div 4096"
    by (rule in_frame [of _ "va mod 4096" _ "4096 - va mod 4096"]) (use eq assms(1) in simp_all)
  then have m: "(va + i) mod 4096 = va mod 4096 + i" using eq div_mult_mod_eq [of "va + i" 4096] by linarith
  have "va + i < USER_MAX_ADDR" using d user_page [OF assms(2)] by (simp add: div_less_iff_less_mult [symmetric])
  then show ?thesis by (simp add: umem_def d m add.assoc)
qed

lemma in_chunk: "i < min (4096 - m) k \<Longrightarrow> m + i < 4096" for i m k :: nat
  by simp linarith

definition user_bytes :: "address_space \<Rightarrow> mm_state \<Rightarrow> virt_addr \<Rightarrow> usize \<Rightarrow> u8 list option" where
  "user_bytes sp s addr len =
     (if \<forall>i<len. umem sp s (addr + i) \<noteq> None then Some (map (\<lambda>i. fst (the (umem sp s (addr + i)))) [0..<len]) else None)"

lemma all_less_add: "(\<forall>i<n + k. P i) \<longleftrightarrow> (\<forall>i<n. P i) \<and> (\<forall>i<k. P (n + i))" for n k :: nat
proof safe
  fix i assume "\<forall>i<n. P i" "\<forall>i<k. P (n + i)" "i < n + k"
  then show "P i" by (cases "i < n") (auto dest!: spec [of _ "i - n"])
qed simp_all

lemma append_fun: "(@) (xs @ ys) = (\<lambda>zs. xs @ ys @ zs)"
  by (simp add: fun_eq_iff)

lemma user_bytes_add:
  assumes "\<And>i. i < n \<Longrightarrow> umem sp s (a + i) \<noteq> None"
  shows "user_bytes sp s a (n + k) = map_option ((@) (map (\<lambda>i. fst (the (umem sp s (a + i)))) [0..<n])) (user_bytes sp s (a + n) k)"
proof -
  have "(\<forall>i<n + k. umem sp s (a + i) \<noteq> None) \<longleftrightarrow> (\<forall>i<k. umem sp s (a + n + i) \<noteq> None)"
    using assms all_less_add [of n k "\<lambda>i. umem sp s (a + i) \<noteq> None"] by (simp add: add.assoc)
  moreover have "map f [0..<n + k] = map f [0..<n] @ map (\<lambda>i. f (n + i)) [0..<k]" for f :: "nat \<Rightarrow> u8"
    by (rule nth_equalityI) (auto simp: nth_append less_diff_conv2 add.commute)
  ultimately show ?thesis by (simp add: user_bytes_def add.assoc)
qed

lemma copy_from_loop_view:
  assumes ok: "space_ok K sp s" and dm: "direct_mapped s"
  shows "copied \<le> len \<Longrightarrow> copy_from_loop (as_table sp) addr len copied acc s =
     Some (map_option (\<lambda>bs. acc @ bs) (user_bytes sp s (addr + copied) (len - copied)))"
proof (induction "len - copied" arbitrary: copied acc rule: less_induct)
  case less
  let ?va = "addr + copied"
  consider (all) "copied = len" | (out) "copied < len" "umem sp s ?va = None" | (page) "copied < len" "umem sp s ?va \<noteq> None"
    using less.prems by fastforce
  then show ?case
  proof cases
    case all
    then show ?thesis by (simp add: copy_from_loop.simps user_bytes_def)
  next
    case out
    then have "user_bytes sp s ?va (len - copied) = None" by (auto simp: user_bytes_def intro: exI [of _ 0])
    then show ?thesis using out
      by (subst copy_from_loop.simps) (auto simp: checked_add_def umem_def pt_translate_addr_def va_vpn_div split: if_splits option.splits)
  next
    case page
    then obtain e where e: "pt_translate (as_table sp) (?va div 4096) s = Some e" and va: "?va < USER_MAX_ADDR"
      by (auto simp: umem_def split: if_splits)
    obtain v where v: "to_virt (pte_ppn e * 4096 + ?va mod 4096) = Some v" using direct_map [OF ok dm va e] by blast
    define n where "n = min (4096 - ?va mod 4096) (len - copied)"
    have n: "0 < n" "copied + n \<le> len" using page(1) by (simp_all add: n_def)
    have u: "umem sp s (?va + i) = Some (read_u8 (ram s) (pte_ppn e * 4096 + ?va mod 4096 + i), pte_flags e)" if "i < n" for i
      using chunk_view [of ?va i sp s] in_chunk [OF that [unfolded n_def]] va e by simp
    have step: "copy_from_loop (as_table sp) addr len copied acc s =
        copy_from_loop (as_table sp) addr len (copied + n) (acc @ read_buf (ram s) (pte_ppn e * 4096 + ?va mod 4096) n) s"
      using page(1) va v by (subst copy_from_loop.simps)
        (simp add: checked_add_def user_translate_addr [OF ok va e] page_offset_mod Let_def n_def)
    have bytes: "read_buf (ram s) (pte_ppn e * 4096 + ?va mod 4096) n = map (\<lambda>i. fst (the (umem sp s (?va + i)))) [0..<n]"
      unfolding read_buf_def using u by simp
    have "user_bytes sp s ?va (n + (len - (copied + n))) = map_option ((@) (map (\<lambda>i. fst (the (umem sp s (?va + i)))) [0..<n]))
        (user_bytes sp s (?va + n) (len - (copied + n)))"
      by (rule user_bytes_add) (use u in simp)
    moreover have "n + (len - (copied + n)) = len - copied" using n(2) by linarith
    moreover have "copy_from_loop (as_table sp) addr len (copied + n) (acc @ read_buf (ram s) (pte_ppn e * 4096 + ?va mod 4096) n) s =
       Some (map_option ((@) (acc @ read_buf (ram s) (pte_ppn e * 4096 + ?va mod 4096) n)) (user_bytes sp s (addr + (copied + n)) (len - (copied + n))))"
      by (rule less.hyps) (use n in linarith)+
    ultimately show ?thesis unfolding step bytes by (simp add: option.map_comp comp_def add.assoc append_fun)
  qed
qed

text \<open>What a write of \<open>bs\<close> at \<open>a\<close> makes of the view.\<close>

definition mem_write :: "virt_addr \<Rightarrow> u8 list \<Rightarrow> (virt_addr \<Rightarrow> (u8 \<times> pte_flags) option) \<Rightarrow> virt_addr \<Rightarrow> (u8 \<times> pte_flags) option" where
  "mem_write a bs m x = (if a \<le> x \<and> x < a + length bs then map_option (\<lambda>(_, fl). (bs ! (x - a), fl)) (m x) else m x)"

fun writable_prefix :: "(virt_addr \<Rightarrow> bool) \<Rightarrow> virt_addr \<Rightarrow> nat \<Rightarrow> nat" where
  "writable_prefix W a 0 = 0"
| "writable_prefix W a (Suc n) = (if W a then Suc (writable_prefix W (a + 1) n) else 0)"

lemma writable_prefix_le: "writable_prefix W a n \<le> n"
  by (induction n arbitrary: a) auto

lemma writable_prefix_add:
  "(\<And>i. i < n \<Longrightarrow> W (a + i)) \<Longrightarrow> writable_prefix W a (n + k) = n + writable_prefix W (a + n) k"
proof (induction n arbitrary: a)
  case (Suc n)
  have "W (a + 1 + i)" if "i < n" for i using Suc.prems [of "Suc i"] that by simp
  then show ?case using Suc.IH [of "a + 1"] Suc.prems [of 0] by simp
qed simp

lemma writable_prefix_all: "writable_prefix W a n = n \<longleftrightarrow> (\<forall>i<n. W (a + i))"
proof (induction n arbitrary: a)
  case (Suc n)
  then show ?case using writable_prefix_le [of W "a + 1" n] by (auto simp: less_Suc_eq_0_disj)
qed simp

lemma mem_write_append:
  "mem_write (a + length bs) cs (mem_write a bs m) = mem_write a (bs @ cs) m"
  by (rule ext) (auto simp: mem_write_def nth_append)

lemma mem_write_Nil [simp]: "mem_write a [] m = m"
  by (rule ext) (auto simp: mem_write_def)

lemma user_writable_write:
  assumes "umem sp s' = mem_write a bs (umem sp s)"
  shows "user_writable sp s' = user_writable sp s"
  unfolding user_writable_def assms mem_write_def by (rule ext) (auto split: option.split)

definition copied_to :: "phys_page_num set \<Rightarrow> address_space \<Rightarrow> virt_addr \<Rightarrow> u8 list \<Rightarrow> mm_state \<Rightarrow> unit option \<Rightarrow> mm_state \<Rightarrow> bool" where
  "copied_to K sp a bs s r s' \<longleftrightarrow>
     (let n = writable_prefix (user_writable sp s) a (length bs) in
      r = (if n = length bs then Some () else None) \<and> umem sp s' = mem_write a (take n bs) (umem sp s)) \<and>
     space_ok K sp s' \<and> footprint (page_ppn ` set (pages_of (as_regions sp))) s s' \<and> free_ppns s' = free_ppns s"

lemma copied_to_step:
  assumes ok: "space_ok K sp s" and s1: "umem sp s1 = mem_write a bs (umem sp s)" "footprint (page_ppn ` set (pages_of (as_regions sp))) s s1"
      "free_ppns s1 = free_ppns s"
    and w: "\<And>i. i < length bs \<Longrightarrow> user_writable sp s (a + i)"
    and c: "copied_to K sp (a + length bs) cs s1 r s'"
  shows "copied_to K sp a (bs @ cs) s r s'"
proof -
  have n: "writable_prefix (user_writable sp s) a (length bs + length cs) =
      length bs + writable_prefix (user_writable sp s) (a + length bs) (length cs)"
    by (rule writable_prefix_add) (rule w)
  then show ?thesis
    using c s1 footprint_trans [OF s1(2) _ Un_upper1] unfolding copied_to_def
    by (simp add: Let_def user_writable_write [OF s1(1)] mem_write_append)
qed

lemma copy_to_loop_view:
  assumes "space_ok K sp s" "direct_mapped s" "copied \<le> length src"
  shows "\<exists>r s'. copy_to_loop (as_table sp) addr src copied s = Some (r, s') \<and> copied_to K sp (addr + copied) (drop copied src) s r s'"
  using assms
proof (induction "length src - copied" arbitrary: copied s rule: less_induct)
  case less
  let ?va = "addr + copied"
  have inv: "buddy_inv s" using less.prems(1) space_core_inv by (auto simp: space_ok_def)
  consider (all) "copied = length src" | (out) "copied < length src" "\<not> user_writable sp s ?va"
    | (page) "copied < length src" "user_writable sp s ?va"
    using less.prems by fastforce
  then show ?case
  proof cases
    case all
    then show ?thesis using less.prems inv by (simp add: copy_to_loop.simps copied_to_def)
  next
    case out
    then have "writable_prefix (user_writable sp s) ?va (length src - copied) = 0" by (cases "length src - copied") auto
    moreover have "copy_to_loop (as_table sp) addr src copied s = Some (None, s)" using out
      by (subst copy_to_loop.simps)
        (auto simp: checked_add_def user_writable_def umem_def va_vpn_div split: if_splits option.splits)
    ultimately show ?thesis using out less.prems inv by (auto simp: copied_to_def)
  next
    case page
    then obtain e where e: "pt_translate (as_table sp) (?va div 4096) s = Some e" and va: "?va < USER_MAX_ADDR"
      and fl: "fl_contains (pte_flags e) (FL_WRITE OR FL_USER)"
      by (auto simp: umem_def user_writable_def split: if_splits option.splits)
    obtain v where v: "to_virt (pte_ppn e * 4096 + ?va mod 4096) = Some v" using direct_map [OF less.prems(1,2) va e] by blast
    define n where "n = min (4096 - ?va mod 4096) (length src - copied)"
    define bs where "bs = take n (drop copied src)"
    define s1 where "s1 = set_ram (write_buf (pte_ppn e * 4096 + ?va mod 4096) bs (ram s)) s"
    have n: "0 < n" "copied + n \<le> length src" "length bs = n" using page(1) by (simp_all add: n_def bs_def)
    have len: "?va mod 4096 + length bs \<le> 4096" unfolding n(3) n_def by simp
    note w = write_chunk [OF less.prems(1) va e len, folded s1_def]
    have step: "copy_to_loop (as_table sp) addr src copied s = copy_to_loop (as_table sp) addr src (copied + n) s1"
      using page(1) va v e fl by (subst copy_to_loop.simps)
        (simp add: checked_add_def user_translate_addr [OF less.prems(1) va e] page_offset_mod va_vpn_div Let_def n_def s1_def bs_def set_ram_def)
    have dm: "direct_mapped s1" using less.prems(2) w(2) by (simp add: direct_mapped_def footprint_def)
    have "length src - (copied + n) < length src - copied" using n by linarith
    then obtain r s' where s': "copy_to_loop (as_table sp) addr src (copied + n) s1 = Some (r, s')"
        "copied_to K sp (addr + (copied + n)) (drop (copied + n) src) s1 r s'"
      using less.hyps [OF _ w(1) dm n(2)] by blast
    have "user_writable sp s (?va + i)" if "i < length bs" for i
      using chunk_view [of ?va i sp s] in_chunk [OF that [unfolded n(3) n_def]] va e fl by (simp add: user_writable_def)
    then have "copied_to K sp ?va (bs @ drop (copied + n) src) s r s'"
      by (intro copied_to_step [OF less.prems(1) _ w(2,3)]) (use s'(2) n(3) w(4) in \<open>simp_all add: add.assoc mem_write_def fun_eq_iff\<close>)
    moreover have "bs @ drop (copied + n) src = drop copied src" 
      by (metis append_take_drop_id drop_drop add.commute bs_def)
    ultimately show ?thesis using step s'(1) by auto
  qed
qed

end
