(* ===== verification/Space_Push.thy ===== *)
theory Space_Push
  imports Space_User
begin

text \<open>
  What pushing a region does to the view of a space, and how much memory it needs.
\<close>

unbundle bit_operations_syntax

section \<open>Room\<close>

lemma walk_create_loop_room:
  "walk_create_loop level idxs stop ppn fs s = Some (slot, fs', s') \<Longrightarrow> level \<le> stop \<Longrightarrow>
   length fs' \<le> length fs + (stop - level)"
proof (induction level idxs stop ppn fs s arbitrary: slot fs' s' rule: walk_create_loop.induct)
  case (2 level index indices stop ppn fs s)
  show ?case
  proof (cases "level = stop")
    case True
    then show ?thesis using "2.prems" by simp
  next
    case False
    then have "Suc (stop - (level + 1)) = stop - level" "level + 1 \<le> stop" using "2.prems"(2) by simp_all
    then show ?thesis
      using "2.prems" False "2.IH" by (fastforce simp: Let_def split: if_splits prod.splits option.splits)
  qed
qed simp

lemma pt_map_room:
  "pt_map v ppn fl pt s = Some (res, pt', s') \<Longrightarrow> length (pt_frames pt') \<le> length (pt_frames pt) + 2"
  using walk_create_loop_room [of 0 "vpn_indices v" 2 "pt_root pt" "pt_frames pt" s]
  by (fastforce simp: pt_map_def pt_map_at_level_def walk_create_to_def split: bind_splits option.splits if_splits)

lemma btree_insert_room: "btree_insert k f fs = (old, fs') \<Longrightarrow> length fs' \<le> Suc (length fs)"
  by (induction k f fs arbitrary: old fs' rule: btree_insert.induct) (auto split: if_splits prod.splits)

lemma map_into_loop_room:
  "map_into_loop vpn e r pt s = Some (res, r', pt', s') \<Longrightarrow> r_backing r = Framed \<Longrightarrow>
   length (pt_frames pt') \<le> length (pt_frames pt) + 2 * (e - vpn) \<and>
   (res \<noteq> Inr () \<longrightarrow> length (r_frames r') < length (r_frames r) + (e - vpn))"
proof (induction "e - vpn" arbitrary: vpn r pt s rule: less_induct)
  case less
  show ?case
  proof (cases "vpn < e")
    case False
    then show ?thesis using less.prems by (subst (asm) map_into_loop.simps) auto
  next
    case True
    obtain f0 s1 where al: "frame_alloc s = (f0, s1)" by fastforce
    show ?thesis
    proof (cases f0)
      case None
      then show ?thesis using less.prems True al by (subst (asm) map_into_loop.simps) auto
    next
      case (Some f)
      obtain res1 pt1 s2 where m: "pt_map vpn (fr_ppn f) (r_perm r) pt s1 = Some (res1, pt1, s2)"
        using less.prems True al Some by (subst (asm) map_into_loop.simps) (auto split: bind_splits)
      note room = pt_map_room [OF m]
      show ?thesis
      proof (cases res1)
        case (Inl err)
        then show ?thesis using less.prems True al Some m room
          by (subst (asm) map_into_loop.simps) (auto split: bind_splits)
      next
        case (Inr u)
        obtain old fs where b: "btree_insert vpn f (r_frames r) = (old, fs)" by fastforce
        then obtain s3 where rest: "map_into_loop (vpn + 1) e (r\<lparr>r_frames := fs\<rparr>) pt1 s3 = Some (res, r', pt', s')"
          using less.prems True al Some m Inr by (subst (asm) map_into_loop.simps) (auto split: bind_splits)
        have "e - (vpn + 1) < e - vpn" "Suc (e - (vpn + 1)) = e - vpn" using True by simp_all
        then show ?thesis
          using less.hyps [OF _ rest] less.prems(2) room btree_insert_room [OF b] by auto
      qed
    qed
  qed
qed

section \<open>The view by pages\<close>

lemma umem_page:
  assumes ok: "space_ok K sp s" and x: "x < USER_MAX_ADDR" and p: "(x div 4096, f, p) \<in> set (pages_of (as_regions sp))"
  shows "umem sp s x = Some (read_u8 (ram s) (fr_ppn f * 4096 + x mod 4096), leaf_flags p)"
proof -
  let ?P = "pages_of (as_regions sp)"
  have core: "space_frames K (as_table sp) ?P s" "space_maps (as_table sp) ?P s" using ok by (simp_all add: space_ok_def space_core_def)
  have "pt_translate (as_table sp) (x div 4096) s = Some (leaf_pte (fr_ppn f) p)"
    using core(2) user_page [OF x] p unfolding space_maps_def by blast
  moreover have "fr_ppn f < 2 ^ 44" using space_framesD(10) [OF core(1) p] pt_okD(2) [OF space_framesD(1) [OF core(1)]] by auto
  ultimately show ?thesis using x leaf_pte_fields [OF _ pages_perm [OF ok p]] by (simp add: umem_def)
qed

lemma umem_high: "\<not> x < USER_MAX_ADDR \<Longrightarrow> umem sp s x = None"
  by (simp add: umem_def)

lemma umem_none:
  assumes ok: "space_ok K sp s" and p: "x div 4096 \<notin> fst ` set (pages_of (as_regions sp))"
  shows "umem sp s x = None"
proof (cases "x < USER_MAX_ADDR")
  case True
  then have "pt_translate (as_table sp) (x div 4096) s = None"
    using ok space_maps_iff [OF _ user_page [OF True]] p by (auto simp: space_ok_def space_core_def)
  then show ?thesis by (simp add: umem_def)
qed (simp add: umem_def)

lemma read_u8_frame:
  assumes "\<And>d. dw_frame d = p \<Longrightarrow> m' d = m d" "a div 4096 = p"
  shows "read_u8 m' a = read_u8 m a"
proof -
  have "dw_frame (a div 8) = p" using assms(2) by (simp add: dw_frame_def div_mult2_eq [symmetric])
  then show ?thesis using assms(1) by (simp add: read_u8_def)
qed

lemma space_owned_K: "space_ok K sp s \<Longrightarrow> space_owned sp \<inter> K = {}"
  using space_framesD(4) [of K "as_table sp" "pages_of (as_regions sp)" s] by (simp add: space_ok_def space_core_def space_owned_def Int_commute)

lemma umem_foreign:
  assumes ok: "space_ok K sp s" and fp: "footprint W s s'" and W: "W \<inter> (space_owned sp \<union> K) = {}"
  shows "space_ok K sp s'" "umem sp s' = umem sp s"
proof -
  let ?P = "pages_of (as_regions sp)"
  have core: "space_frames K (as_table sp) ?P s" "space_maps (as_table sp) ?P s" using ok by (simp_all add: space_ok_def space_core_def)
  note fr = space_foreign [OF core(1) fp W [unfolded space_owned_def]]
  show ok': "space_ok K sp s'" using ok fr(1) space_maps_same [OF core(2)] fr(2) by (simp add: space_ok_def space_core_def)
  show "umem sp s' = umem sp s"
  proof
    fix x
    show "umem sp s' x = umem sp s x"
    proof (cases "x < USER_MAX_ADDR \<and> x div 4096 \<in> fst ` set ?P")
      case False
      then show ?thesis using umem_none [OF ok, of x] umem_none [OF ok', of x] umem_high by auto
    next
      case True
      then obtain f p where p: "(x div 4096, f, p) \<in> set ?P" by force
      have "fr_ppn f \<in> space_owned sp" using p by (force simp: space_owned_def owned_def)
      then have "fr_ppn f \<notin> allocator_frames s \<union> W"
        using owned_in_use(2) [OF core(1)] W unfolding space_owned_def by blast
      then have "ram s' d = ram s d" if "dw_frame d = fr_ppn f" for d
        using fp that by (simp add: footprint_def same_frames_def)
      then show ?thesis using umem_page [OF ok _ p] umem_page [OF ok' _ p] True
          read_u8_frame [of "fr_ppn f" "ram s'" "ram s" "fr_ppn f * 4096 + x mod 4096"] by simp
    qed
  qed
qed

section \<open>Pushing\<close>

lemma card_owned:
  assumes "space_frames K pt pages s"
  shows "card (owned pt pages) = length (pt_frames pt) + length pages" "finite (owned pt pages)"
    "free_ppns s \<inter> owned pt pages = {}"
proof -
  have o: "owned pt pages = set (map fr_ppn (pt_frames pt) @ map page_ppn pages)" by (auto simp: owned_def)
  show "card (owned pt pages) = length (pt_frames pt) + length pages"
    unfolding o using distinct_card [OF space_framesD(6) [OF assms]] by simp
  show "finite (owned pt pages)" unfolding o by simp
  show "free_ppns s \<inter> owned pt pages = {}" using owned_in_use(1) [OF assms] by blast
qed

lemma conserved_card:
  assumes "finite A" "finite B" "finite C" "finite D" "A \<inter> B = {}" "C \<inter> D = {}" "A \<union> B = C \<union> D"
  shows "card A + card B = card C + card D"
  using card_Un_disjoint [OF assms(1,2,5)] card_Un_disjoint [OF assms(3,4,6)] assms(7) by simp

lemma loop_spent:
  assumes core: "space_core K pt pages s" and r: "r_backing r = Framed" "r_frames r = []"
    and m: "region_map_into r pt s = Some (res, r', pt', s')"
    and lr: "loop_result K pages (va_vpn (r_start r)) (va_vpn (r_end r)) r pt s res r' pt' s'"
  shows "card (free_ppns s) \<le> card (free_ppns s') + 2 * (va_vpn (r_end r) - va_vpn (r_start r)) + length (r_frames r')"
proof -
  have core': "space_core K pt' (pages @ region_pages r') s'"
    and free: "free_ppns s' \<union> owned pt' (pages @ region_pages r') = free_ppns s \<union> owned pt pages"
    using lr r(2) unfolding loop_result_def by simp_all
  have sf: "space_frames K pt pages s" and sf': "space_frames K pt' (pages @ region_pages r') s'"
    using core core' by (simp_all add: space_core_def)
  note c = card_owned [OF sf] and c' = card_owned [OF sf'] and fin = finite_free [OF space_core_inv]
  have "card (free_ppns s') + card (owned pt' (pages @ region_pages r')) = card (free_ppns s) + card (owned pt pages)"
    by (rule conserved_card [OF fin [OF core'] c'(2) fin [OF core] c(2) c'(3) c(3) free])
  moreover have "length (pt_frames pt') \<le> length (pt_frames pt) + 2 * (va_vpn (r_end r) - va_vpn (r_start r))"
    using map_into_loop_room [OF m [unfolded region_map_into_def] r(1)] by blast
  moreover have "length (region_pages r') = length (r_frames r')" by (simp add: region_pages_def)
  ultimately show ?thesis using c(1) c'(1) by simp
qed

lemma loop_room:
  assumes core: "space_core K pt pages s" and r: "r_backing r = Framed" "r_frames r = []"
    and m: "region_map_into r pt s = Some (Inl err, r', pt', s')"
    and lr: "loop_result K pages (va_vpn (r_start r)) (va_vpn (r_end r)) r pt s (Inl err) r' pt' s'"
  shows "err = AlreadyMapped \<and> (\<exists>v\<in>{va_vpn (r_start r)..<va_vpn (r_end r)}. v \<in> fst ` set pages)
    \<or> err = MapOutOfMemory \<and> card (free_ppns s) < 3 * (va_vpn (r_end r) - va_vpn (r_start r)) + 2"
proof -
  have "length (r_frames r') < va_vpn (r_end r) - va_vpn (r_start r)"
    using map_into_loop_room [OF m [unfolded region_map_into_def] r(1)] r(2) by simp
  then have "card (free_ppns s) < 3 * (va_vpn (r_end r) - va_vpn (r_start r)) + 2" if "card (free_ppns s') < 3"
    using that loop_spent [OF core r m lr] by simp
  then show ?thesis using lr unfolding loop_result_def by auto
qed

text \<open>The view after a region has been mapped: its pages read zero, the rest is as before.\<close>

lemma region_pages_vpns: "region_ok r \<Longrightarrow> fst ` set (region_pages r) = {va_vpn (r_start r)..<va_vpn (r_end r)}"
  by (metis region_ok_def region_pages_fst(2) set_map set_upt)

lemma region_vpn:
  "r_start r mod PAGE_SIZE = 0 \<Longrightarrow> r_end r mod PAGE_SIZE = 0 \<Longrightarrow>
   x div 4096 \<in> {va_vpn (r_start r)..<va_vpn (r_end r)} \<longleftrightarrow> r_start r \<le> x \<and> x < r_end r"
  by (auto simp: va_vpn_div div_le_mono less_mult_imp_div_less)

lemma pushed_view:
  assumes ok: "space_ok K sp s" and ok': "space_ok K sp' s'" and r': "region_ok r'"
    and rs: "as_regions sp' = as_regions sp @ [r']" and fp: "footprint (table_frames (as_table sp)) s s'"
    and z: "\<And>x d. x \<in> set (r_frames r') \<Longrightarrow> dw_frame d = fr_ppn (snd x) \<Longrightarrow> ram s' d = 0"
  shows "umem sp' s' x = (if r_start r' \<le> x \<and> x < r_end r' then Some (0, leaf_flags (r_perm r')) else umem sp s x)"
proof (cases "x < USER_MAX_ADDR")
  case False
  then show ?thesis using r' umem_high by (auto simp: region_ok_def)
next
  case True
  let ?P = "pages_of (as_regions sp)"
  have P': "pages_of (as_regions sp') = ?P @ region_pages r'" by (simp add: rs)
  have iff: "x div 4096 \<in> fst ` set (region_pages r') \<longleftrightarrow> r_start r' \<le> x \<and> x < r_end r'"
    using region_vpn [of r' x] r' unfolding region_pages_vpns [OF r'] by (simp add: region_ok_def)
  consider (new) "x div 4096 \<in> fst ` set (region_pages r')" | (old) "x div 4096 \<notin> fst ` set (region_pages r')" "x div 4096 \<in> fst ` set ?P"
    | (none) "x div 4096 \<notin> fst ` set (pages_of (as_regions sp'))" unfolding P' set_append image_Un by blast
  then show ?thesis
  proof cases
    case new
    then obtain f p where p: "(x div 4096, f, p) \<in> set (region_pages r')" by force
    then have f: "(x div 4096, f) \<in> set (r_frames r')" "p = r_perm r'" by (auto simp: region_pages_def)
    have "read_u8 (ram s') (fr_ppn f * 4096 + x mod 4096) = read_u8 (\<lambda>_. 0) (fr_ppn f * 4096 + x mod 4096)"
      by (rule read_u8_frame [of "fr_ppn f"]) (use z [OF f(1)] in simp_all)
    then show ?thesis using umem_page [OF ok' True, of f p] p f(2) new iff unfolding P' by (simp add: read_u8_def)
  next
    case old
    then obtain f p where p: "(x div 4096, f, p) \<in> set ?P" by force
    have sf: "space_frames K (as_table sp) ?P s" using ok by (simp add: space_ok_def space_core_def)
    have "fr_ppn f \<notin> table_frames (as_table sp)" using space_framesD(6) [OF sf] p by force
    moreover have "fr_ppn f \<in> owned (as_table sp) ?P" using p by (force simp: owned_def)
    then have "fr_ppn f \<notin> allocator_frames s" using owned_in_use(2) [OF sf] by blast
    ultimately have "ram s' d = ram s d" if "dw_frame d = fr_ppn f" for d
      using fp that by (simp add: footprint_def same_frames_def)
    then show ?thesis
      using umem_page [OF ok' True, of f p] umem_page [OF ok True p] p old(1) iff unfolding P'
      by (auto simp: read_u8_frame [of "fr_ppn f" "ram s'" "ram s" "fr_ppn f * 4096 + x mod 4096"])
  next
    case none
    then show ?thesis using umem_none [OF ok'] umem_none [OF ok, of x] iff unfolding P' set_append image_Un by auto
  qed
qed

lemma page_mapped:
  assumes ok: "space_ok K sp s" and v: "v \<in> fst ` set (pages_of (as_regions sp))"
  shows "v * 4096 < USER_MAX_ADDR" "umem sp s (v * 4096) \<noteq> None"
proof -
  obtain f p where p: "(v, f, p) \<in> set (pages_of (as_regions sp))" using v by force
  have "v < 2 ^ 26" using ok space_framesD(8) p by (fastforce simp: space_ok_def space_core_def)
  then show lt: "v * 4096 < USER_MAX_ADDR" by simp
  show "umem sp s (v * 4096) \<noteq> None" using umem_page [OF ok lt, of f p] p by simp
qed

lemma region_page_count:
  assumes "r_start r mod PAGE_SIZE = 0" "r_end r mod PAGE_SIZE = 0"
  shows "va_vpn (r_end r) - va_vpn (r_start r) = (r_end r - r_start r) div PAGE_SIZE"
proof -
  obtain a b where "r_start r = 4096 * a" "r_end r = 4096 * b" using assms by (auto simp: mod_eq_0_iff_dvd elim!: dvdE)
  then show ?thesis by (simp add: va_vpn_div diff_mult_distrib2 [symmetric])
qed

lemma push_facts:
  assumes ok: "space_ok K sp s" and r: "r_backing r = Framed" "r_frames r = []" "r_start r mod PAGE_SIZE = 0"
    "r_end r mod PAGE_SIZE = 0" "r_end r \<le> USER_MAX_ADDR" "r_perm r AND NOT FLAG_MASK = 0" "r_start r \<le> r_end r"
  obtains (pushed) r' sp' s' where "space_push r sp s = Some (Inr (), sp', s')" "space_ok K sp' s'"
      "as_regions sp' = as_regions sp @ [r']" "region_ok r'" "r_start r' = r_start r" "r_end r' = r_end r" "r_perm r' = r_perm r"
      "\<forall>x. umem sp' s' x = (if r_start r \<le> x \<and> x < r_end r then Some (0, leaf_flags (r_perm r)) else umem sp s x)"
      "footprint (table_frames (as_table sp)) s s'" "tables_grow (as_table sp) (as_table sp') s"
      "free_ppns s' \<union> space_owned sp' = free_ppns s \<union> space_owned sp"
      "card (free_ppns s) \<le> card (free_ppns s') + 3 * ((r_end r - r_start r) div PAGE_SIZE)"
      "region_map_into r (as_table sp) s = Some (Inr (), r', as_table sp', s')"
  | (failed) err r' pt' s1 s' where "space_push r sp s = Some (Inl err, sp\<lparr>as_table := pt'\<rparr>, s')"
      "footprint (table_frames (as_table sp)) s s'" "space_frames K pt' (pages_of (as_regions sp)) s'"
      "free_ppns s' \<union> owned pt' (pages_of (as_regions sp)) = free_ppns s \<union> space_owned sp"
      "err = AlreadyMapped \<and> (\<exists>x. r_start r \<le> x \<and> x < r_end r \<and> umem sp s x \<noteq> None)
       \<or> err = MapOutOfMemory \<and> card (free_ppns s) < 3 * ((r_end r - r_start r) div PAGE_SIZE) + 2"
      "region_map_into r (as_table sp) s = Some (Inl err, r', pt', s1)" "region_drop r' s1 = Some s'"
proof -
  show thesis
  proof (rule space_push_ok [OF ok r], goal_cases)
    case (1 r' pt' s')
    let ?sp = "sp\<lparr>as_table := pt', as_regions := as_regions sp @ [r']\<rparr>"
    obtain fs where fs: "r' = r\<lparr>r_frames := r_frames r @ fs\<rparr>" "\<forall>x\<in>set fs. \<forall>d. dw_frame d = fr_ppn (snd x) \<longrightarrow> ram s' d = 0"
      using 1(4) unfolding loop_result_def by blast
    have fp: "footprint (table_frames (as_table sp)) s s'" "tables_grow (as_table sp) pt' s"
      and free: "free_ppns s' \<union> space_owned ?sp = free_ppns s \<union> space_owned sp"
      using 1(4) r(2) unfolding loop_result_def space_owned_def by simp_all
    have "umem ?sp s' x = (if r_start r \<le> x \<and> x < r_end r then Some (0, leaf_flags (r_perm r)) else umem sp s x)" for x
      using pushed_view [OF ok 1(5,3) _ fp(1), of x] fs r(2) by simp
    moreover have "length (r_frames r') = va_vpn (r_end r) - va_vpn (r_start r)"
      using 1(3) fs(1) by (metis region_ok_def length_map length_upt region.select_convs(1,2) region.surjective region.update_convs(5))
    then have "card (free_ppns s) \<le> card (free_ppns s') + 3 * ((r_end r - r_start r) div PAGE_SIZE)"
      using loop_spent [OF ok [unfolded space_ok_def, THEN conjunct1] r(1,2) 1(2,4)] region_page_count [OF r(3,4)] by simp
    ultimately show thesis using pushed [OF 1(1,5) _ 1(3)] fp free fs(1) 1(2) by simp
  next
    case (2 err r' pt' s1 s')
    have core: "space_core K (as_table sp) (pages_of (as_regions sp)) s" using ok by (simp add: space_ok_def)
    have "\<exists>x. r_start r \<le> x \<and> x < r_end r \<and> umem sp s x \<noteq> None"
      if "v \<in> {va_vpn (r_start r)..<va_vpn (r_end r)}" "v \<in> fst ` set (pages_of (as_regions sp))" for v
      using region_vpn [OF r(3,4), of "v * 4096"] page_mapped [OF ok that(2)] that(1) by auto
    then have "err = AlreadyMapped \<and> (\<exists>x. r_start r \<le> x \<and> x < r_end r \<and> umem sp s x \<noteq> None)
         \<or> err = MapOutOfMemory \<and> card (free_ppns s) < 3 * ((r_end r - r_start r) div PAGE_SIZE) + 2"
      using loop_room [OF core r(1,2) 2(2,4)] unfolding region_page_count [OF r(3,4)] by blast
    then show thesis by (rule failed [OF 2(1,7,5,9) _ 2(2,3)])
  qed
qed

section \<open>A small machine with a user space\<close>

text \<open>128 frames, a kernel space and a user space that has one page at \<open>0x11000\<close>.\<close>

definition demo_mm :: mm_state where
  "demo_mm = the (buddy_init 0x3ff000 0x480000 \<lparr>fa = buddy_empty, ram = (\<lambda>_. 0)\<rparr>)"

lemma demo_mm_init: "buddy_init 0x3ff000 0x480000 \<lparr>fa = buddy_empty, ram = (\<lambda>_. 0)\<rparr> = Some demo_mm"
proof -
  have bits: "total_bits 129 = 266"
    unfolding total_bits_def sum_orders by (simp add: order_bits_def div_ceil_def)
  have "\<exists>s'. buddy_init 0x3ff000 0x480000 \<lparr>fa = buddy_empty, ram = (\<lambda>_. 0)\<rparr> = Some s'"
    by (rule buddy_init_succeeds [where first = 1023 and last = 1152 and bf = 1])
      (simp_all add: next_multiple_of_def div_ceil_def bits)
  then show ?thesis by (auto simp: demo_mm_def)
qed

lemma demo_mm_facts: "buddy_inv demo_mm" "managed demo_mm = {1024..<1152}" "free_ppns demo_mm = {1024..<1152}"
proof -
  note init = buddy_init_some [OF demo_mm_init, simplified]
  show "buddy_inv demo_mm" by (rule init(1))
  obtain q where q: "b_base (fa demo_mm) = 1024 * q" using init(6) by (auto simp: dvd_def)
  then have "q = 1" using init(4,5) by simp
  then have "b_base (fa demo_mm) = 1024" "b_frames (fa demo_mm) = 128" using q init(5) by simp_all
  then show "managed demo_mm = {1024..<1152}" "free_ppns demo_mm = {1024..<1152}"
    using init(2) by (simp_all add: managed_def free_ppns_def lessThan_atLeast0)
qed

lemma space_new_succeeds:
  assumes "buddy_inv s" "free_ppns s \<noteq> {}"
  obtains sp s1 where "space_new s = (Some sp, s1)"
proof (cases "frame_alloc s")
  case (Pair f s1)
  then have "f \<noteq> None" using buddy.alloc_none [OF assms(1) frame_alloc_none [of s s1]] assms(2) by auto
  then show thesis using that Pair by (auto simp: space_new_def pt_new_def)
qed

lemma demo_space:
  obtains K kern sp s where "kernel_ok K kern s" "space_ok K sp s" "direct_mapped s" "126 \<le> card (free_ppns s)" "as_regions sp = []"
    "space_owned sp \<inter> table_frames (as_table kern) = {}" "managed s = {1024..<1152}"
proof -
  have d: "managed demo_mm \<subseteq> {..<2 ^ 44}" using demo_mm_facts(2) by auto
  obtain kern s1 where k: "space_new demo_mm = (Some kern, s1)"
    using space_new_succeeds [OF demo_mm_facts(1)] demo_mm_facts(3) by auto
  note n = space_new_facts [OF demo_mm_facts(1) d k]
  have kok: "kernel_ok {pt_root (as_table kern)} kern s1" using n(1,10) by (simp add: kernel_ok_def)
  have inv1: "buddy_inv s1" "managed s1 = {1024..<1152}" using n(8) demo_mm_facts(2) by (simp_all add: footprint_def)
  have m1: "managed s1 \<subseteq> {..<2 ^ 44}" using inv1(2) by auto
  have c1: "card (free_ppns s1) = 127" using n(6,7) demo_mm_facts(3) by (simp add: card_Diff_singleton)
  then have "free_ppns s1 \<noteq> {}" by auto
  then obtain sp s2 where sp: "space_new s1 = (Some sp, s2)" using space_new_succeeds [OF inv1(1)] by auto
  note o = space_new_facts [OF inv1(1) m1 sp]
  let ?s = "pt_share_upper_half (as_table kern) (as_table sp) s2"
  note c = space_create_ok [OF inv1(1) m1 kok sp]
  have "direct_mapped ?s" using c(4) inv1(2) by (auto simp: direct_mapped_def footprint_def)
  moreover have "card (free_ppns ?s) = 126" using c(5) c1 o(5,6) by (simp add: card_Diff_singleton)
  moreover have "space_owned sp \<inter> table_frames (as_table kern) = {}" using o(5,6) n(7,9) by auto
  moreover have "managed ?s = {1024..<1152}" using c(4) inv1(2) by (simp add: footprint_def)
  ultimately show thesis using that [OF c(3,2)] o(4) by simp
qed

lemma demo_page:
  assumes "perm AND NOT FLAG_MASK = 0"
  obtains K kern sp s where "kernel_ok K kern s" "space_ok K sp s" "direct_mapped s" "120 \<le> card (free_ppns s)"
    "space_owned sp \<inter> table_frames (as_table kern) = {}" "managed s = {1024..<1152}"
    "umem sp s = (\<lambda>x. if 0x11000 \<le> x \<and> x < 0x12000 then Some (0, leaf_flags perm) else None)"    "length (pages_of (as_regions sp)) = 1"
proof -
  obtain K kern sp s where d: "kernel_ok K kern s" "space_ok K sp s" "direct_mapped s" "126 \<le> card (free_ppns s)" "as_regions sp = []"
    and dis: "space_owned sp \<inter> table_frames (as_table kern) = {}" "managed s = {1024..<1152}" by (rule demo_space)
  define r where "r = \<lparr>r_start = 0x11000, r_end = 0x12000, r_backing = Framed, r_perm = perm, r_frames = []\<rparr>"
  have none: "umem sp s x = None" for x using umem_none [OF d(2)] d(5) by simp
  have r: "r_backing r = Framed" "r_frames r = []" "r_start r mod PAGE_SIZE = 0" "r_end r mod PAGE_SIZE = 0" "r_end r \<le> USER_MAX_ADDR"
    "r_perm r AND NOT FLAG_MASK = 0" "r_start r \<le> r_end r" using assms by (simp_all add: r_def)
  show thesis
  proof (rule push_facts [OF d(2) r], goal_cases)
    case (1 r' sp' s')
    have kern: "table_frames (as_table kern) \<inter> free_ppns s = {}" using d(1) pt_okD(9) by (fastforce simp: kernel_ok_def)
    have sub: "table_frames (as_table sp) \<subseteq> space_owned sp" by (auto simp: space_owned_def owned_def)
    have "kernel_ok K kern s'" using kernel_foreign(1) [OF d(1) 1(9)] dis(1) sub by blast
    moreover have "space_owned sp' \<inter> table_frames (as_table kern) = {}" using 1(11) kern dis(1) by blast
    moreover have "umem sp' s' = (\<lambda>x. if 0x11000 \<le> x \<and> x < 0x12000 then Some (0, leaf_flags perm) else None)"
      using 1(8) none by (auto simp: r_def)
    moreover have "direct_mapped s'" "managed s' = {1024..<1152}" using d(3) 1(9) dis(2) by (simp_all add: direct_mapped_def footprint_def)
    moreover have "120 \<le> card (free_ppns s')" using 1(12) d(4) by (simp add: r_def)
    moreover have "length (pages_of (as_regions sp')) = 1"
      using 1(4-6) by (auto simp: d(5) 1(3) r_def region_pages_def region_ok_def va_vpn_div dest: arg_cong [where f = length])
    ultimately show thesis using that 1(2) by blast
  next
    case 2
    then show thesis using none d(4) by (auto simp: r_def)
  qed
qed

lemma writable_prefix_stops:
  "(\<forall>i<writable_prefix W a n. W (a + i)) \<and> (writable_prefix W a n < n \<longrightarrow> \<not> W (a + writable_prefix W a n))"
proof (induction n arbitrary: a)
  case (Suc n)
  then show ?case using Suc [of "a + 1"] by (auto simp: less_Suc_eq_0_disj)
qed simp

section \<open>Properties\<close>

text \<open>
  C22: pushing a framed region onto a sound space. On success the pages of the
  region read zero with its permissions and every other address is as before, the
  space is sound and has taken its frames from the allocator. It fails only when a
  page of the region is mapped already or the allocator has run out: a region of \<open>n\<close>
  pages needs at most \<open>3 n + 2\<close> frames.
\<close>

theorem space_push_correct:
  assumes ok: "space_ok K sp s" and r: "start \<le> end" "end \<le> USER_MAX_ADDR" "perm AND NOT FLAG_MASK = 0"
  shows "\<exists>r res sp' s'. region_new start end Framed perm = Some r \<and> space_push r sp s = Some (res, sp', s') \<and>
    buddy_inv s' \<and> free_ppns s' \<union> owned (as_table sp') (pages_of (as_regions sp')) = free_ppns s \<union> space_owned sp \<and>
    (case res of
       Inr _ \<Rightarrow> space_ok K sp' s' \<and> (\<forall>x. umem sp' s' x =
         (if r_start r \<le> x \<and> x < r_end r then Some (0, leaf_flags perm) else umem sp s x))
     | Inl AlreadyMapped \<Rightarrow> \<exists>x. r_start r \<le> x \<and> x < r_end r \<and> umem sp s x \<noteq> None
     | Inl MapOutOfMemory \<Rightarrow> card (free_ppns s) < 3 * ((r_end r - r_start r) div PAGE_SIZE) + 2
     | Inl NotMapped \<Rightarrow> False)"
proof -
  obtain r where n: "region_new start end Framed perm = Some r" and r: "r_backing r = Framed" "r_frames r = []" "r_start r mod PAGE_SIZE = 0"
    "r_end r mod PAGE_SIZE = 0" "r_end r \<le> USER_MAX_ADDR" "r_perm r AND NOT FLAG_MASK = 0" "r_start r \<le> r_end r" and p: "r_perm r = perm"
    by (rule region_new_ok [OF r(1,2), of perm]) (use assms(4) in simp)
  show ?thesis
  proof (rule push_facts [OF ok r], goal_cases)
    case (1 r' sp' s')
    then show ?thesis using n p space_core_inv by (auto simp: space_owned_def space_ok_def)
  next
    case (2 err r' pt' s1 s')
    have "buddy_inv s'" using 2(2) by (simp add: footprint_def)
    with 2(5) show ?thesis using n p 2(1,4) by (elim disjE conjE) simp_all
  qed
qed

theorem space_push_correct_witness:
  "\<exists>K sp s r res sp' s'. region_new 0x20000 0x22345 Framed (FL_RW OR FL_USER) = Some r \<and>
     space_push r sp s = Some (res, sp', s') \<and> res = Inr () \<and> space_ok K sp' s' \<and>
     umem sp' s' 0x22fff = Some (0, leaf_flags (FL_RW OR FL_USER)) \<and> umem sp' s' 0x11000 = Some (0, leaf_flags FL_READ)"
proof -
  obtain K kern sp s where d: "space_ok K sp s" "100 \<le> card (free_ppns s)"
    and u: "umem sp s = (\<lambda>x. if 0x11000 \<le> x \<and> x < 0x12000 then Some (0, leaf_flags FL_READ) else None)"
    by (rule demo_page [of FL_READ]) simp_all
  have new: "region_new 0x20000 0x22345 Framed (FL_RW OR FL_USER) =
      Some \<lparr>r_start = 0x20000, r_end = 0x23000, r_backing = Framed, r_perm = FL_RW OR FL_USER, r_frames = []\<rparr>"
    by (simp add: region_new_def align_up_eq align_down_eq next_multiple_of_def)
  obtain r res sp' s' where r: "region_new 0x20000 0x22345 Framed (FL_RW OR FL_USER) = Some r" "space_push r sp s = Some (res, sp', s')"
    and res: "case res of
       Inr _ \<Rightarrow> space_ok K sp' s' \<and> (\<forall>x. umem sp' s' x =
         (if r_start r \<le> x \<and> x < r_end r then Some (0, leaf_flags (FL_RW OR FL_USER)) else umem sp s x))
     | Inl AlreadyMapped \<Rightarrow> \<exists>x. r_start r \<le> x \<and> x < r_end r \<and> umem sp s x \<noteq> None
     | Inl MapOutOfMemory \<Rightarrow> card (free_ppns s) < 3 * ((r_end r - r_start r) div PAGE_SIZE) + 2
     | Inl NotMapped \<Rightarrow> False"
    using space_push_correct [OF d(1), of "0x20000" "0x22345" "FL_RW OR FL_USER"] by auto
  have se: "r_start r = 0x20000" "r_end r = 0x23000" using r(1) new by auto
  have "res = Inr ()" using res d(2) by (auto simp: se u split: sum.splits map_error.splits if_splits)
  then show ?thesis using r res unfolding se u by (intro exI [of _ K] exI [of _ sp] exI [of _ s] exI [of _ r]) simp
qed

text \<open>
  C24: a region whose page \<open>v0\<close> is mapped already, and whose earlier pages are
  not. With memory enough the push reports \<open>AlreadyMapped\<close> and does not keep the region,
  whose frames go back to the allocator; the entries of the pages before \<open>v0\<close> stay in the
  page table with the permissions of the region, and map free frames.
\<close>

theorem space_push_dangling:
  assumes ok: "space_ok K sp s" and r: "region_new start end Framed perm = Some r" "start \<le> end" "end \<le> USER_MAX_ADDR"
      "perm AND NOT FLAG_MASK = 0"
    and v0: "va_vpn (r_start r) \<le> v0" "v0 < va_vpn (r_end r)" "umem sp s (v0 * PAGE_SIZE) \<noteq> None"
    and before: "\<forall>v\<in>{va_vpn (r_start r)..<v0}. umem sp s (v * PAGE_SIZE) = None"
    and room: "3 * ((r_end r - r_start r) div PAGE_SIZE) + 2 \<le> card (free_ppns s)"
  shows "\<exists>sp' s'. space_push r sp s = Some (Inl AlreadyMapped, sp', s') \<and> as_regions sp' = as_regions sp \<and>
    (\<forall>v\<in>{va_vpn (r_start r)..<v0}. \<exists>e. pt_translate (as_table sp') v s' = Some e \<and>
       pte_flags e = leaf_flags perm \<and> pte_ppn e \<in> free_ppns s')"
proof -
  let ?P = "pages_of (as_regions sp)" and ?a = "va_vpn (r_start r)"
  have rr: "r_backing r = Framed" "r_frames r = []" "r_start r mod PAGE_SIZE = 0" "r_end r mod PAGE_SIZE = 0"
    "r_end r \<le> USER_MAX_ADDR" "r_perm r AND NOT FLAG_MASK = 0" "r_start r \<le> r_end r" "r_perm r = perm"
    by (rule region_new_ok [OF r(2,3), of perm], use r(1,4) in simp)+
  have mapped: "v0 \<in> fst ` set ?P" using umem_none [OF ok, of "v0 * 4096"] v0(3) by auto
  show ?thesis
  proof (rule space_push_ok [OF ok rr(1-7)], goal_cases)
    case (1 r' pt' s')
    have "r_start r' = r_start r" "r_end r' = r_end r" using 1(4) unfolding loop_result_def by auto
    then have "v0 \<in> fst ` set (region_pages r')" using region_pages_vpns [OF 1(3)] v0(1,2) by simp
    moreover have "space_frames K pt' (?P @ region_pages r') s'" using 1(4) unfolding loop_result_def space_core_def by simp
    from space_framesD(7) [OF this] have "fst ` set ?P \<inter> fst ` set (region_pages r') = {}"
      unfolding map_append distinct_append set_map by (elim conjE)
    ultimately show ?thesis using mapped by blast
  next
    case (2 err r' pt' s1 s')
    have "err = AlreadyMapped"
      using loop_room [OF ok [unfolded space_ok_def, THEN conjunct1] rr(1,2) 2(2,4)] room unfolding region_page_count [OF rr(3,4)] by auto
    moreover obtain fs where fs: "r' = r\<lparr>r_frames := fs\<rparr>" "map fst fs = [?a..<?a + length fs]" "?a + length fs \<in> fst ` set ?P"
      using 2(4) calculation rr(2) unfolding loop_result_def by auto
    have "v0 \<le> ?a + length fs"
    proof (rule ccontr)
      assume "\<not> ?thesis"
      then have "?a + length fs \<in> {?a..<v0}" by simp
      from bspec [OF before this] show False using page_mapped(2) [OF ok fs(3)] by (rule notE [rotated])
    qed
    moreover have "\<exists>e. pt_translate pt' v s' = Some e \<and> pte_flags e = leaf_flags perm \<and> pte_ppn e \<in> free_ppns s'"
      if v: "v \<in> {?a..<?a + length fs}" "v < v0" for v
    proof -
      obtain f where f: "(v, f) \<in> set fs" using v(1) fs(2) by (metis (no_types, lifting) imageE list.set_map prod.collapse set_upt)
      then have p: "(v, f, perm) \<in> set (region_pages r')" by (force simp: fs(1) region_pages_def rr(8))
      have core: "space_core K pt' (?P @ region_pages r') s1" using 2(4) unfolding loop_result_def by simp
      have sf: "space_frames K pt' (?P @ region_pages r') s1" and maps: "space_maps pt' (?P @ region_pages r') s1"
        using core by (simp_all add: space_core_def)
      have v26: "v < 2 ^ 26" "fr_ppn f < 2 ^ 44"
        using space_framesD(8,10) [OF sf, of "(v, f, perm)"] p pt_okD(2) [OF space_framesD(1) [OF sf]] by auto
      have "pt_translate pt' v s' = Some (leaf_pte (fr_ppn f) perm)"
        using maps v26(1) p 2(6) unfolding space_maps_def by auto
      moreover have "fr_ppn f \<in> free_ppns s'" using 2(8) p by force
      ultimately show ?thesis using leaf_pte_fields [OF v26(2) r(4)] by simp
    qed
    ultimately show ?thesis using 2(1) by auto
  qed
qed

theorem space_push_dangling_witness:
  "\<exists>K sp s r sp' s' e. space_ok K sp s \<and> region_new 0x10000 0x12000 Framed (FL_RW OR FL_USER) = Some r \<and>
     space_push r sp s = Some (Inl AlreadyMapped, sp', s') \<and>
     pt_translate (as_table sp') 0x10 s' = Some e \<and> pte_flags e = leaf_flags (FL_RW OR FL_USER) \<and> pte_ppn e \<in> free_ppns s'"
proof -
  obtain K sp s where d: "space_ok K sp s" "100 \<le> card (free_ppns s)"
    and u: "umem sp s = (\<lambda>x. if 0x11000 \<le> x \<and> x < 0x12000 then Some (0, leaf_flags FL_READ) else None)"
    by (rule demo_page [of FL_READ]) simp_all
  define r where "r = \<lparr>r_start = 0x10000, r_end = 0x12000, r_backing = Framed, r_perm = FL_RW OR FL_USER, r_frames = []\<rparr>"
  have new: "region_new 0x10000 0x12000 Framed (FL_RW OR FL_USER) = Some r"
    by (simp add: region_new_def align_up_eq align_down_eq next_multiple_of_def r_def)
  have v: "va_vpn (r_start r) = 0x10" "va_vpn (r_end r) = 0x12" by (simp_all add: r_def va_vpn_div)
  have "\<exists>sp' s'. space_push r sp s = Some (Inl AlreadyMapped, sp', s') \<and> as_regions sp' = as_regions sp \<and>
    (\<forall>v\<in>{va_vpn (r_start r)..<0x11}. \<exists>e. pt_translate (as_table sp') v s' = Some e \<and>
       pte_flags e = leaf_flags (FL_RW OR FL_USER) \<and> pte_ppn e \<in> free_ppns s')"
    by (rule space_push_dangling [OF d(1) new]) (use d(2) u in \<open>auto simp: v r_def va_vpn_div\<close>)
  then obtain sp' s' where p: "space_push r sp s = Some (Inl AlreadyMapped, sp', s')"
    "\<exists>e. pt_translate (as_table sp') 0x10 s' = Some e \<and> pte_flags e = leaf_flags (FL_RW OR FL_USER) \<and> pte_ppn e \<in> free_ppns s'"
    unfolding v by auto
  then show ?thesis using d(1) new by blast
qed

text \<open>
  C23: dropping a sound space releases exactly what it owns, its page tables and
  the frames of its regions, each once. No other space that shares no frame with it
  notices.
\<close>

theorem space_drop_correct:
  assumes "space_ok K sp s"
  shows "\<exists>s'. space_drop sp s = Some s' \<and> buddy_inv s' \<and> free_ppns s' = free_ppns s \<union> space_owned sp \<and>
    card (free_ppns s') = card (free_ppns s) + length (pt_frames (as_table sp)) + length (pages_of (as_regions sp)) \<and>
    (\<forall>sp2. space_ok K sp2 s \<and> space_owned sp2 \<inter> space_owned sp = {} \<longrightarrow> space_ok K sp2 s' \<and> umem sp2 s' = umem sp2 s)"
proof -
  have sf: "space_frames K (as_table sp) (pages_of (as_regions sp)) s" and inv: "buddy_inv s"
    using assms space_core_inv by (auto simp: space_ok_def space_core_def)
  obtain s' where s': "space_drop sp s = Some s'" "footprint (space_owned sp) s s'" "free_ppns s' = free_ppns s \<union> space_owned sp"
    by (rule space_drop_frames [OF sf]) (use assms in \<open>auto simp: space_ok_def region_ok_def\<close>)
  note c = card_owned [OF sf, folded space_owned_def]
  have "card (free_ppns s') = card (free_ppns s) + length (pt_frames (as_table sp)) + length (pages_of (as_regions sp))"
    unfolding s'(3) using card_Un_disjoint [OF finite_free [OF inv] c(2,3)] c(1) by simp
  moreover have "space_ok K sp2 s' \<and> umem sp2 s' = umem sp2 s"
    if "space_ok K sp2 s" "space_owned sp2 \<inter> space_owned sp = {}" for sp2
    using umem_foreign [OF that(1) s'(2)] that(2) space_owned_K [OF assms] by blast
  ultimately show ?thesis using s' by (auto simp: footprint_def)
qed

theorem space_drop_correct_witness:
  "\<exists>sp s s'. umem sp s 0x11000 \<noteq> None \<and> space_drop sp s = Some s' \<and> free_ppns s' = free_ppns s \<union> space_owned sp"
proof -
  obtain K sp s where d: "space_ok K sp s"
    and u: "umem sp s = (\<lambda>x. if 0x11000 \<le> x \<and> x < 0x12000 then Some (0, leaf_flags FL_READ) else None)"
    by (rule demo_page [of FL_READ]) simp_all
  have "umem sp s 0x11000 \<noteq> None" by (simp add: u)
  then show ?thesis using space_drop_correct [OF d] by blast
qed

text \<open>
  A copy from user memory never panics. It yields the bytes at the
  addresses when all of them are mapped user addresses, and fails otherwise.
\<close>

theorem copy_from_user_correct:
  assumes "space_ok K sp s" "direct_mapped s"
  shows "copy_from_user sp addr len s =
    Some (if \<forall>i<len. addr + i < USER_MAX_ADDR \<and> umem sp s (addr + i) \<noteq> None
          then Some (map (\<lambda>i. fst (the (umem sp s (addr + i)))) [0..<len]) else None)"
proof -
  have "(addr + i < USER_MAX_ADDR \<and> umem sp s (addr + i) \<noteq> None) = (umem sp s (addr + i) \<noteq> None)" for i
    by (cases "addr + i < USER_MAX_ADDR") (simp_all add: umem_high)
  then show ?thesis using copy_from_loop_view [OF assms, of 0 len addr "[]"]
    by (simp add: copy_from_user_def user_bytes_def option.map_ident)
qed

theorem copy_from_user_correct_witness:
  "\<exists>sp s. copy_from_user sp 0x11ffe 2 s = Some (Some [0, 0]) \<and> copy_from_user sp 0x11ffe 3 s = Some None"
proof -
  obtain K sp s where d: "space_ok K sp s" "direct_mapped s"
    and u: "umem sp s = (\<lambda>x. if 0x11000 \<le> x \<and> x < 0x12000 then Some (0, leaf_flags FL_READ) else None)"
    by (rule demo_page [of FL_READ]) simp_all
  have "copy_from_user sp 0x11ffe 2 s = Some (Some [0, 0])"
    unfolding copy_from_user_correct [OF d] by (simp add: u numeral_2_eq_2 less_Suc_eq)
  moreover have "copy_from_user sp 0x11ffe 3 s = Some None"
    unfolding copy_from_user_correct [OF d] by (auto simp: u intro!: exI [of _ 2])
  ultimately show ?thesis by blast
qed

text \<open>
  C21: a copy to user memory never panics. It writes the bytes up to the first
  address that is not a mapped, writable page of the user and reports whether that was all of
  them. Permissions and every other byte are as before, the space stays sound, no
  frame is allocated or released, and no space that shares no frame with it notices.
\<close>

theorem copy_to_user_correct:
  assumes ok: "space_ok K sp s" and dm: "direct_mapped s"
  shows "\<exists>r s' n. copy_to_user sp addr src s = Some (r, s') \<and> n \<le> length src \<and>
    (\<forall>i<n. user_writable sp s (addr + i)) \<and> (n < length src \<longrightarrow> \<not> user_writable sp s (addr + n)) \<and>
    r = (if n = length src then Some () else None) \<and>
    (\<forall>x. umem sp s' x = (if addr \<le> x \<and> x < addr + n then map_option (\<lambda>(_, fl). (src ! (x - addr), fl)) (umem sp s x) else umem sp s x)) \<and>
    space_ok K sp s' \<and> free_ppns s' = free_ppns s \<and>
    (\<forall>sp2. space_ok K sp2 s \<and> space_owned sp2 \<inter> space_owned sp = {} \<longrightarrow> space_ok K sp2 s' \<and> umem sp2 s' = umem sp2 s)"
proof -
  let ?n = "writable_prefix (user_writable sp s) addr (length src)"
  obtain r s' where c: "copy_to_user sp addr src s = Some (r, s')" "copied_to K sp addr src s r s'"
    using copy_to_loop_view [OF assms, of 0 src addr] by (auto simp: copy_to_user_def)
  have n: "?n \<le> length src" by (rule writable_prefix_le)
  have fp: "footprint (page_ppn ` set (pages_of (as_regions sp))) s s'" using c(2) by (simp add: copied_to_def)
  have own: "page_ppn ` set (pages_of (as_regions sp)) \<subseteq> space_owned sp" "space_owned sp \<inter> K = {}"
    using space_owned_K [OF ok] by (auto simp: space_owned_def owned_def)
  have "space_ok K sp2 s' \<and> umem sp2 s' = umem sp2 s" if "space_ok K sp2 s" "space_owned sp2 \<inter> space_owned sp = {}" for sp2
    using umem_foreign [OF that(1) fp] that(2) own by blast
  moreover have "umem sp s' = mem_write addr (take ?n src) (umem sp s)" using c(2) by (simp add: copied_to_def Let_def)
  ultimately show ?thesis
    using c n writable_prefix_stops [of "user_writable sp s" addr "length src"]
    by (intro exI [of _ r] exI [of _ s'] exI [of _ ?n]) (auto simp: copied_to_def Let_def mem_write_def)
qed

theorem copy_to_user_correct_witness:
  "\<exists>sp s s' s''. copy_to_user sp 0x11ffe [1, 2] s = Some (Some (), s') \<and> map (\<lambda>x. map_option fst (umem sp s' x)) [0x11ffd, 0x11ffe, 0x11fff, 0x12000] = [Some 0, Some 1, Some 2, None] \<and>
     copy_to_user sp 0x11fff [1, 2] s = Some (None, s'')"
proof -
  obtain K sp s where d: "space_ok K sp s" "direct_mapped s"
    and u: "umem sp s = (\<lambda>x. if 0x11000 \<le> x \<and> x < 0x12000 then Some (0, leaf_flags (FL_RW OR FL_USER)) else None)"
    by (rule demo_page [of "FL_RW OR FL_USER"]) simp_all
  have w: "user_writable sp s x \<longleftrightarrow> 0x11000 \<le> x \<and> x < 0x12000" for x by (simp add: user_writable_def u fl_contains_def)
  let ?bs = "[1, 2 :: u8]"
  obtain r s' n where c: "copy_to_user sp 0x11ffe ?bs s = Some (r, s')" "n \<le> length ?bs"
    "n < length ?bs \<longrightarrow> \<not> user_writable sp s (0x11ffe + n)" "r = (if n = length ?bs then Some () else None)"
    "\<forall>x. umem sp s' x = (if 0x11ffe \<le> x \<and> x < 0x11ffe + n then map_option (\<lambda>(_, fl). (?bs ! (x - 0x11ffe), fl)) (umem sp s x) else umem sp s x)"
    using copy_to_user_correct [OF d, of "0x11ffe" ?bs] by blast
  obtain r' s'' n' where c': "copy_to_user sp 0x11fff ?bs s = Some (r', s'')" "\<forall>i<n'. user_writable sp s (0x11fff + i)"
    "r' = (if n' = length ?bs then Some () else None)"
    using copy_to_user_correct [OF d, of "0x11fff" ?bs] by blast
  have "n = 2" using c(2,3) w by (auto simp: not_less)
  moreover have "n' \<noteq> 2" using c'(2) w by (auto dest: spec [of _ 1])
  ultimately have r: "r = Some ()" "r' = None" "n = 2" using c(4) c'(3) by simp_all
  have v: "map (\<lambda>x. map_option fst (umem sp s' x)) [0x11ffd, 0x11ffe, 0x11fff, 0x12000] = [Some 0, Some 1, Some 2, None]"
    by (simp add: c(5) u r(3))
  show ?thesis by (intro exI conjI) (rule c(1) [unfolded r], rule v, rule c'(1) [unfolded r])
qed

end
