(* ===== verification/Space_Dup.thy ===== *)
theory Space_Dup
  imports Space_Push
begin

text \<open>
  Writing into a freshly mapped region, as the loader does, and duplicating a space, as
  \<^verbatim>\<open>fork\<close> does: the child has the parent's memory in frames of its own.
\<close>

unbundle bit_operations_syntax

section \<open>Storing into one page\<close>

lemma page_store_view:
  assumes ok: "space_ok K sp s" and p: "(v, f, p) \<in> set (pages_of (as_regions sp))"
    and m: "same_frames (- {fr_ppn f}) (ram s) m"
  shows "space_ok K sp (set_ram m s)" "footprint {fr_ppn f} s (set_ram m s)" "free_ppns (set_ram m s) = free_ppns s"
    "umem sp (set_ram m s) x = (if x < USER_MAX_ADDR \<and> x div 4096 = v
       then Some (read_u8 m (fr_ppn f * 4096 + x mod 4096), leaf_flags p) else umem sp s x)"
proof -
  let ?P = "pages_of (as_regions sp)" and ?s = "set_ram m s"
  have core: "space_frames K (as_table sp) ?P s" "space_maps (as_table sp) ?P s" using ok by (simp_all add: space_ok_def space_core_def)
  have sub: "fr_ppn f \<in> page_ppn ` set ?P" using p by force
  have "same_frames (- page_ppn ` set ?P) (ram s) m" by (rule same_frames_mono [OF m]) (use sub in blast)
  note st = page_store [OF core(1) this]
  show free: "free_ppns ?s = free_ppns s" using st by simp
  show ok': "space_ok K sp ?s" using ok st(1) space_maps_same [OF core(2) st(2)] by (simp add: space_ok_def space_core_def)
  have ram: "ram ?s = m" by (simp add: set_ram_def)
  have "fr_ppn f \<in> owned (as_table sp) ?P" using p by (force simp: owned_def)
  then have fA: "fr_ppn f \<notin> allocator_frames s" using owned_in_use(2) [OF core(1)] by blast
  have "same_frames (allocator_frames s) (ram s) m" by (rule same_frames_mono [OF m]) (use fA in blast)
  note bs = buddy.store [OF pt_okD(1) [OF space_framesD(1) [OF core(1)]] this]
  have "same_frames (- (allocator_frames s \<union> {fr_ppn f})) (ram s) m" by (rule same_frames_mono [OF m]) blast
  then show "footprint {fr_ppn f} s ?s" using bs by (auto simp: footprint_def)
  show "umem sp ?s x = (if x < USER_MAX_ADDR \<and> x div 4096 = v
       then Some (read_u8 m (fr_ppn f * 4096 + x mod 4096), leaf_flags p) else umem sp s x)"
  proof (cases "x < USER_MAX_ADDR")
    case True
    consider (this) "x div 4096 = v" | (other) "x div 4096 \<noteq> v" "x div 4096 \<in> fst ` set ?P" | (none) "x div 4096 \<noteq> v" "x div 4096 \<notin> fst ` set ?P" by blast
    then show ?thesis
    proof cases
      case this
      then show ?thesis using umem_page [OF ok' True, of f p] p True ram by simp
    next
      case other
      then obtain g q where g: "(x div 4096, g, q) \<in> set ?P" by force
      have inj: "inj_on page_ppn (set ?P)" using space_framesD(6) [OF core(1)] by (simp add: distinct_map)
      have "fr_ppn g \<noteq> fr_ppn f" using inj_onD [OF inj _ g p] other(1) by auto
      then have "m d = ram s d" if "dw_frame d = fr_ppn g" for d using m that by (simp add: same_frames_def)
      then show ?thesis using umem_page [OF ok' True g] umem_page [OF ok True g] other(1) ram
          read_u8_frame [of "fr_ppn g" m "ram s" "fr_ppn g * 4096 + x mod 4096"] by simp
    next
      case none
      then show ?thesis using umem_none [OF ok', of x] umem_none [OF ok, of x] by simp
    qed
  qed (simp add: umem_high)
qed

lemma copy_page_facts:
  "same_frames (- {dst}) m (copy_page src dst m)"
  "k < 4096 \<Longrightarrow> read_u8 (copy_page src dst m) (dst * 4096 + k) = read_u8 m (src * 4096 + k)"
proof -
  show "same_frames (- {dst}) m (copy_page src dst m)" by (simp add: same_frames_def copy_page_def)
  assume k: "k < 4096"
  have d: "(x * 4096 + k) div 8 = x * 512 + k div 8" "(x * 4096 + k) mod 8 = k mod 8" for x
    using div_mult_self3 [of 8 k "x * 512"] mod_mult_self3 [of "x * 512" 8 k] by (simp_all add: mult.commute)
  have "k div 8 < 512" using k by (simp add: div_less_iff_less_mult)
  then show "read_u8 (copy_page src dst m) (dst * 4096 + k) = read_u8 m (src * 4096 + k)"
    by (simp add: read_u8_def d copy_page_def)
qed

section \<open>Writing into a region\<close>

lemma region_frame:
  assumes ok: "space_ok K sp s" and r: "r \<in> set (as_regions sp)" and va: "r_start r \<le> va" "va < r_end r"
  obtains f where "map_of (r_frames r) (va_vpn va) = Some f" "va < USER_MAX_ADDR" "fr_ppn f < 2 ^ 44"
    "pt_translate (as_table sp) (va div 4096) s = Some (leaf_pte (fr_ppn f) (r_perm r))" "pte_ppn (leaf_pte (fr_ppn f) (r_perm r)) = fr_ppn f"
proof -
  let ?P = "pages_of (as_regions sp)"
  have rok: "region_ok r" and core: "space_frames K (as_table sp) ?P s" "space_maps (as_table sp) ?P s"
    using ok r by (simp_all add: space_ok_def space_core_def)
  have lt: "va < USER_MAX_ADDR" using rok va(2) by (simp add: region_ok_def)
  have "va div 4096 \<in> fst ` set (r_frames r)"
    using region_pages_vpns [OF rok] region_vpn [of r va] va rok by (simp add: region_ok_def)
  then obtain f where f: "map_of (r_frames r) (va div 4096) = Some f"
    by (cases "map_of (r_frames r) (va div 4096)") (auto simp: map_of_eq_None_iff)
  then have p: "(va div 4096, f, r_perm r) \<in> set ?P" using map_of_SomeD [OF f] r by (force simp: pages_of_def region_pages_def)
  then have "pt_translate (as_table sp) (va div 4096) s = Some (leaf_pte (fr_ppn f) (r_perm r))"
    using core(2) user_page [OF lt] unfolding space_maps_def by blast
  moreover have "fr_ppn f < 2 ^ 44" using space_framesD(10) [OF core(1) p] pt_okD(2) [OF space_framesD(1) [OF core(1)]] by auto
  ultimately show thesis using that [of f] f lt leaf_pte_fields(1) [OF _ pages_perm [OF ok p]] by (simp add: va_vpn_div)
qed

lemma write_data_loop_view:
  assumes "space_ok K sp s" "r \<in> set (as_regions sp)" "r_start r + pos + (length data - written) \<le> r_end r" "written \<le> length data"
  shows "\<exists>s'. write_data_loop r data written pos s = Some s' \<and> space_ok K sp s' \<and>
    footprint (page_ppn ` set (pages_of (as_regions sp))) s s' \<and> free_ppns s' = free_ppns s \<and>
    umem sp s' = mem_write (r_start r + pos) (drop written data) (umem sp s)"
  using assms
proof (induction "length data - written" arbitrary: written pos s rule: less_induct)
  case less
  show ?case
  proof (cases "written < length data")
    case False
    then show ?thesis using less.prems space_core_inv by (auto simp: write_data_loop.simps space_ok_def)
  next
    case True
    let ?va = "r_start r + pos"
    have rok: "region_ok r" using less.prems by (simp add: space_ok_def)
    have va: "r_start r \<le> ?va" "?va < r_end r" using less.prems(3) True by linarith+
    obtain f where f: "map_of (r_frames r) (va_vpn ?va) = Some f" "?va < USER_MAX_ADDR" "fr_ppn f < 2 ^ 44"
      "pt_translate (as_table sp) (?va div 4096) s = Some (leaf_pte (fr_ppn f) (r_perm r))" "pte_ppn (leaf_pte (fr_ppn f) (r_perm r)) = fr_ppn f"
      by (rule region_frame [OF less.prems(1,2) va])
    have off: "?va mod 4096 = pos mod 4096" using rok by (auto simp: region_ok_def mod_eq_0_iff_dvd elim!: dvdE)
    define n where "n = min (4096 - pos mod 4096) (length data - written)"
    define bs where "bs = take n (drop written data)"
    define s1 where "s1 = set_ram (write_buf (fr_ppn f * 4096 + ?va mod 4096) bs (ram s)) s"
    have n: "0 < n" "written + n \<le> length data" "length bs = n" using True by (simp_all add: n_def bs_def)
    have len: "?va mod 4096 + length bs \<le> 4096" unfolding n(3) n_def off by simp
    note w = write_chunk [OF less.prems(1) f(2,4) len, unfolded f(5), folded s1_def]
    have step: "write_data_loop r data written pos s = write_data_loop r data (written + n) (pos + n) s1"
      using True f(1,2,3) by (subst write_data_loop.simps)
        (simp add: Let_def checked_add_def n_def s1_def bs_def off set_ram_def ppn_base_addr_def push_bit_eq_mult)
    have "length data - (written + n) < length data - written" using n by linarith
    moreover have "r_start r + (pos + n) + (length data - (written + n)) \<le> r_end r" using less.prems(3) n by linarith
    ultimately obtain s' where s': "write_data_loop r data (written + n) (pos + n) s1 = Some s'" "space_ok K sp s'"
      "footprint (page_ppn ` set (pages_of (as_regions sp))) s1 s'" "free_ppns s' = free_ppns s1"
      "umem sp s' = mem_write (r_start r + (pos + n)) (drop (written + n) data) (umem sp s1)"
      using less.hyps [OF _ w(1) less.prems(2) _ n(2)] by blast
    have "umem sp s1 = mem_write ?va bs (umem sp s)" using w(4) by (simp add: mem_write_def fun_eq_iff)
    then have "umem sp s' = mem_write ?va (bs @ drop (written + n) data) (umem sp s)"
      using s'(5) mem_write_append [of ?va bs] n(3) by (simp add: add.assoc)
    moreover have "bs @ drop (written + n) data = drop written data" by (metis append_take_drop_id drop_drop add.commute bs_def)
    ultimately show ?thesis using step s' w(3) footprint_trans [OF w(2) s'(3) Un_upper1] by simp
  qed
qed

lemma tables_of_space: "table_frames (as_table sp) \<subseteq> space_owned sp"
  by (auto simp: space_owned_def owned_def)

lemma push_data_facts:
  assumes ok: "space_ok K sp s" and r: "r_backing r = Framed" "r_frames r = []" "r_start r mod PAGE_SIZE = 0"
    "r_end r mod PAGE_SIZE = 0" "r_end r \<le> USER_MAX_ADDR" "r_perm r AND NOT FLAG_MASK = 0" "r_start r \<le> r_end r"
    and fit: "r_start r + offset + length data \<le> r_end r"
  obtains (pushed) r' sp' s' where "space_push_with_offset r offset data sp s = Some (Inr (), sp', s')" "space_ok K sp' s'"
      "as_regions sp' = as_regions sp @ [r']" "r_start r' = r_start r" "r_end r' = r_end r"
      "umem sp' s' = mem_write (r_start r + offset) data
         (\<lambda>x. if r_start r \<le> x \<and> x < r_end r then Some (0, leaf_flags (r_perm r)) else umem sp s x)"
      "footprint (space_owned sp) s s'" "free_ppns s' \<union> space_owned sp' = free_ppns s \<union> space_owned sp"
      "card (free_ppns s) \<le> card (free_ppns s') + 3 * ((r_end r - r_start r) div PAGE_SIZE)"
  | (failed) err pt' s' where "space_push_with_offset r offset data sp s = Some (Inl err, sp\<lparr>as_table := pt'\<rparr>, s')"
      "footprint (space_owned sp) s s'" "space_frames K pt' (pages_of (as_regions sp)) s'"
      "free_ppns s' \<union> owned pt' (pages_of (as_regions sp)) = free_ppns s \<union> space_owned sp"
      "err = AlreadyMapped \<and> (\<exists>x. r_start r \<le> x \<and> x < r_end r \<and> umem sp s x \<noteq> None)
       \<or> err = MapOutOfMemory \<and> card (free_ppns s) < 3 * ((r_end r - r_start r) div PAGE_SIZE) + 2"
proof -
  show thesis
  proof (rule push_facts [OF ok r], goal_cases)
    case (1 r' sp' s1)
    have r': "r' \<in> set (as_regions sp')" "r_start r' + offset + (length data - 0) \<le> r_end r'" using 1(3,5,6) fit by simp_all
    obtain s' where s': "write_data_loop r' data 0 offset s1 = Some s'" "space_ok K sp' s'"
      "footprint (page_ppn ` set (pages_of (as_regions sp'))) s1 s'" "free_ppns s' = free_ppns s1"
      "umem sp' s' = mem_write (r_start r' + offset) (drop 0 data) (umem sp' s1)"
      using write_data_loop_view [OF 1(2) r'] by blast
    have sp': "sp' = sp\<lparr>as_table := as_table sp', as_regions := as_regions sp @ [r']\<rparr>" using 1(3) by simp
    have "space_push_with_offset r offset data sp s = Some (Inr (), sp', s')"
      unfolding space_push_with_offset_def 1(13) using s'(1) sp' by (simp add: region_write_data_def)
    moreover have "umem sp' s1 = (\<lambda>x. if r_start r \<le> x \<and> x < r_end r then Some (0, leaf_flags (r_perm r)) else umem sp s x)"
      using 1(8) by (simp add: fun_eq_iff)
    moreover have "page_ppn ` set (pages_of (as_regions sp')) \<subseteq> space_owned sp'" by (auto simp: space_owned_def owned_def)
    then have "page_ppn ` set (pages_of (as_regions sp')) \<subseteq> space_owned sp \<union> allocator_frames s" using 1(11) free_allocator [of s] by blast
    then have "footprint (space_owned sp) s s'" by (rule footprint_trans [OF footprint_mono [OF 1(9) tables_of_space] s'(3)])
    ultimately show thesis using pushed [of sp' s' r'] s' 1(3,5,6,11,12) by simp
  next
    case (2 err r' pt' s1 s')
    have "space_push_with_offset r offset data sp s = Some (Inl err, sp\<lparr>as_table := pt'\<rparr>, s')"
      unfolding space_push_with_offset_def using 2(6,7) by simp
    then show thesis by (rule failed [OF _ footprint_mono [OF 2(2) tables_of_space] 2(3-5)])
  qed
qed

section \<open>Copying the frames of a region\<close>

lemma copy_frames_view:
  assumes "space_ok K sp s" "space_ok K ch s" "space_owned ch \<inter> space_owned sp = {}"
    and r: "r \<in> set (as_regions sp)" "r1 \<in> set (as_regions ch)" "r_perm r1 = r_perm r" "set fs \<subseteq> set (r_frames r)"
      "fst ` set fs \<subseteq> fst ` set (r_frames r1)"
  shows "\<exists>s'. copy_frames fs r1 s = (Some (), s') \<and> space_ok K sp s' \<and> space_ok K ch s' \<and> umem sp s' = umem sp s \<and>
    footprint (page_ppn ` set (region_pages r1)) s s' \<and> free_ppns s' = free_ppns s \<and>
    (\<forall>x. umem ch s' x = (if x < USER_MAX_ADDR \<and> x div 4096 \<in> fst ` set fs then umem sp s x else umem ch s x))"
  using assms
proof (induction fs arbitrary: s)
  case Nil
  then show ?case using space_core_inv by (auto simp: space_ok_def)
next
  case (Cons a fs)
  obtain v f where a: "a = (v, f)" by (cases a)
  have f: "(v, f, r_perm r) \<in> set (pages_of (as_regions sp))"
    using Cons.prems(4,7) by (force simp: a pages_of_def region_pages_def)
  have "v \<in> fst ` set (r_frames r1)" using Cons.prems(8) a by simp
  then obtain g where g: "map_of (r_frames r1) v = Some g" by (cases "map_of (r_frames r1) v") (auto simp: map_of_eq_None_iff)
  then have p: "(v, g, r_perm r) \<in> set (region_pages r1)" using map_of_SomeD [OF g] Cons.prems(6) by (force simp: region_pages_def)
  then have gp: "(v, g, r_perm r) \<in> set (pages_of (as_regions ch))" using Cons.prems(5) by (force simp: pages_of_def)
  let ?m = "copy_page (fr_ppn f) (fr_ppn g) (ram s)"
  note c = page_store_view [OF Cons.prems(2) gp copy_page_facts(1) [of "fr_ppn g" "ram s" "fr_ppn f"]]
  have "fr_ppn g \<in> space_owned ch" using gp by (force simp: space_owned_def owned_def)
  then have "{fr_ppn g} \<inter> (space_owned sp \<union> K) = {}" using Cons.prems(3) space_owned_K [OF Cons.prems(2)] by blast
  note par = umem_foreign [OF Cons.prems(1) c(2) this]
  have "set fs \<subseteq> set (r_frames r)" "fst ` set fs \<subseteq> fst ` set (r_frames r1)" using Cons.prems(7,8) by auto
  then obtain s' where s': "copy_frames fs r1 (set_ram ?m s) = (Some (), s')" "space_ok K sp s'" "space_ok K ch s'"
    "umem sp s' = umem sp (set_ram ?m s)" "footprint (page_ppn ` set (region_pages r1)) (set_ram ?m s) s'"
    "free_ppns s' = free_ppns (set_ram ?m s)"
    "\<forall>x. umem ch s' x = (if x < USER_MAX_ADDR \<and> x div 4096 \<in> fst ` set fs then umem sp (set_ram ?m s) x else umem ch (set_ram ?m s) x)"
    using Cons.IH [OF par(1) c(1) Cons.prems(3-6)] by blast
  have new: "umem ch (set_ram ?m s) x = (if x < USER_MAX_ADDR \<and> x div 4096 = v then umem sp s x else umem ch s x)" for x
    using c(4) [of x] umem_page [OF Cons.prems(1), of x f "r_perm r"] f copy_page_facts(2) [of "x mod 4096" "fr_ppn f" "fr_ppn g" "ram s"] by auto
  have fp: "footprint (page_ppn ` set (region_pages r1)) s s'"
    by (rule footprint_trans [OF footprint_mono [OF c(2)] s'(5)]) (use p in force)+
  have "copy_frames (a # fs) r1 s = (Some (), s')" using s'(1) g by (simp add: a set_ram_def)
  then show ?case using s' fp par(2) c(3) new by (auto simp: a)
qed

section \<open>Duplicating one region\<close>

lemma region_pages_count: "region_ok r \<Longrightarrow> length (r_frames r) = (r_end r - r_start r) div PAGE_SIZE"
  using region_page_count [of r] by (metis region_ok_def length_map length_upt)

lemma region_copy_new:
  assumes "region_ok r"
  shows "region_new (r_start r) (r_end r) Framed (r_perm r) = Some (r\<lparr>r_frames := []\<rparr>)"
  using assms by (simp add: region_new_def region_ok_def align_up_eq align_down_eq next_multiple_of_def)

lemma disjoint_grown: "C' \<subseteq> F \<union> C \<Longrightarrow> C \<inter> P = {} \<Longrightarrow> F \<inter> P = {} \<Longrightarrow> C' \<inter> P = {}"
  by blast

lemma space_owned_use:
  assumes "space_ok K sp s"
  shows "space_owned sp \<subseteq> managed s - free_ppns s" "space_owned sp \<inter> allocator_frames s = {}"
  using owned_in_use [of K "as_table sp" "pages_of (as_regions sp)" s] assms
  by (simp_all add: space_ok_def space_core_def space_owned_def)

lemma dup_region:
  assumes sp: "space_ok K sp s" and ch: "space_ok K ch s" and dis: "space_owned ch \<inter> space_owned sp = {}"
    and r: "r \<in> set (as_regions sp)" and fresh: "\<forall>x. r_start r \<le> x \<and> x < r_end r \<longrightarrow> umem ch s x = None"
  obtains (copied) copy1 pt1 s1 s2 ch1 where "region_map_into (r\<lparr>r_frames := []\<rparr>) (as_table ch) s = Some (Inr (), copy1, pt1, s1)"
      "copy_frames (r_frames r) copy1 s1 = (Some (), s2)" "ch1 = ch\<lparr>as_table := pt1, as_regions := as_regions ch @ [copy1]\<rparr>"
      "space_ok K sp s2" "space_ok K ch1 s2" "space_owned ch1 \<inter> space_owned sp = {}" "umem sp s2 = umem sp s"
      "free_ppns s2 \<union> space_owned ch1 = free_ppns s \<union> space_owned ch" "footprint (space_owned ch) s s2"
      "card (free_ppns s) \<le> card (free_ppns s2) + 3 * length (r_frames r)"
      "\<forall>x. umem ch1 s2 x = (if r_start r \<le> x \<and> x < r_end r then umem sp s x else umem ch s x)"
  | (failed) err copy1 pt1 s1 s2 s3 where "region_map_into (r\<lparr>r_frames := []\<rparr>) (as_table ch) s = Some (Inl err, copy1, pt1, s1)"
      "region_drop copy1 s1 = Some s2" "space_drop (ch\<lparr>as_table := pt1\<rparr>) s2 = Some s3" "free_ppns s3 = free_ppns s \<union> space_owned ch"
      "footprint (space_owned ch) s s3" "card (free_ppns s) < 3 * length (r_frames r) + 2"
proof -
  let ?c = "r\<lparr>r_frames := []\<rparr>"
  have rok: "region_ok r" using sp r by (simp add: space_ok_def)
  have c: "r_backing ?c = Framed" "r_frames ?c = []" "r_start ?c mod PAGE_SIZE = 0" "r_end ?c mod PAGE_SIZE = 0"
    "r_end ?c \<le> USER_MAX_ADDR" "r_perm ?c AND NOT FLAG_MASK = 0" "r_start ?c \<le> r_end ?c" using rok by (simp_all add: region_ok_def)
  have tab: "table_frames (as_table ch) \<subseteq> space_owned ch" by (auto simp: space_owned_def owned_def)
  have fsp: "free_ppns s \<inter> space_owned sp = {}" using space_owned_use(1) [OF sp] by blast
  have W: "space_owned ch \<inter> (space_owned sp \<union> K) = {}" using dis space_owned_K [OF ch] by blast
  show thesis
  proof (rule push_facts [OF ch c], goal_cases)
    case (1 copy1 ch1 s1)
    have fp1: "footprint (space_owned ch) s s1" by (rule footprint_mono [OF 1(9) tab])
    note par = umem_foreign [OF sp fp1 W]
    have ch1: "ch1 = ch\<lparr>as_table := as_table ch1, as_regions := as_regions ch @ [copy1]\<rparr>" using 1(3) by simp
    have sub: "space_owned ch1 \<subseteq> free_ppns s \<union> space_owned ch" using 1(11) by blast
    have dis1: "space_owned ch1 \<inter> space_owned sp = {}" by (rule disjoint_grown [OF sub dis fsp])
    have vp: "fst ` set (r_frames r) = {va_vpn (r_start r)..<va_vpn (r_end r)}" "fst ` set (r_frames copy1) = {va_vpn (r_start r)..<va_vpn (r_end r)}"
      using region_pages_vpns [OF rok] region_pages_vpns [OF 1(4)] 1(5,6) by (simp_all only: region_pages_fst(2)) simp
    obtain s2 where s2: "copy_frames (r_frames r) copy1 s1 = (Some (), s2)" "space_ok K sp s2" "space_ok K ch1 s2" "umem sp s2 = umem sp s1"
      "footprint (page_ppn ` set (region_pages copy1)) s1 s2" "free_ppns s2 = free_ppns s1"
      "\<forall>x. umem ch1 s2 x = (if x < USER_MAX_ADDR \<and> x div 4096 \<in> fst ` set (r_frames r) then umem sp s1 x else umem ch1 s1 x)"
      using copy_frames_view [OF par(1) 1(2) dis1 r, of copy1 "r_frames r"] 1(3,7) vp by auto
    have view: "umem ch1 s2 x = (if r_start r \<le> x \<and> x < r_end r then umem sp s x else umem ch s x)" for x
      using s2(7) 1(8) region_vpn [of r x] rok umem_high [of x] par(2) unfolding vp by (auto simp: region_ok_def)
    have "page_ppn ` set (region_pages copy1) \<subseteq> space_owned ch1" by (auto simp: space_owned_def owned_def 1(3))
    then have "footprint (space_owned ch) s s2"
      by (intro footprint_trans [OF fp1 s2(5)]) (use sub free_allocator [of s] in blast)
    moreover have "free_ppns s2 \<union> space_owned ch1 = free_ppns s \<union> space_owned ch" using 1(11) s2(6) by simp
    moreover have "card (free_ppns s) \<le> card (free_ppns s2) + 3 * length (r_frames r)"
      using 1(12) s2(6) region_pages_count [OF rok] by simp
    moreover have "umem sp s2 = umem sp s" using s2(4) par(2) by simp
    ultimately show thesis using copied [OF 1(13) s2(1) ch1 s2(2,3) dis1] view by blast
  next
    case (2 err copy1 pt1 s1 s2)
    have owned1: "space_owned (ch\<lparr>as_table := pt1\<rparr>) = owned pt1 (pages_of (as_regions ch))" by (simp add: space_owned_def)
    obtain s3 where s3: "space_drop (ch\<lparr>as_table := pt1\<rparr>) s2 = Some s3" "footprint (owned pt1 (pages_of (as_regions ch))) s2 s3"
      "free_ppns s3 = free_ppns s2 \<union> owned pt1 (pages_of (as_regions ch))"
      using space_drop_frames [of K "ch\<lparr>as_table := pt1\<rparr>" s2] 2(3) ch unfolding owned1
      by (auto simp: space_ok_def region_ok_def)
    have "footprint (space_owned ch) s s3"
      by (rule footprint_trans [OF footprint_mono [OF 2(2) tab] s3(2)]) (use 2(4) free_allocator [of s] in blast)
    moreover have "free_ppns s3 = free_ppns s \<union> space_owned ch" using s3(3) 2(4) by simp
    moreover have "card (free_ppns s) < 3 * length (r_frames r) + 2"
      using 2(5) fresh region_pages_count [OF rok] by auto
    ultimately show thesis using failed [OF 2(6,7) s3(1)] by blast
  qed
qed

section \<open>Duplicating a space\<close>

abbreviation in_regions :: "region list \<Rightarrow> virt_addr \<Rightarrow> bool" where
  "in_regions rs x \<equiv> \<exists>r\<in>set rs. r_start r \<le> x \<and> x < r_end r"

lemma regions_apart:
  assumes ok: "space_ok K sp s" and rs: "as_regions sp = ds @ r # rs" and x: "r_start r \<le> x" "x < r_end r"
  shows "\<not> in_regions ds x"
proof
  assume "in_regions ds x"
  then obtain d where d: "d \<in> set ds" "r_start d \<le> x" "x < r_end d" by blast
  have ok1: "region_ok r" "region_ok d" using ok rs d(1) by (simp_all add: space_ok_def)
  have mem: "x div 4096 \<in> fst ` set (region_pages r)" "x div 4096 \<in> fst ` set (region_pages d)"
    using region_vpn [of r x] region_vpn [of d x] x d(2,3) ok1
    by (simp_all only: region_pages_vpns [OF ok1(1)] region_pages_vpns [OF ok1(2)]) (simp_all add: region_ok_def)
  have sub: "set (region_pages d) \<subseteq> set (pages_of ds)" using d(1) by (auto simp: pages_of_def)
  have "distinct (map fst (pages_of (as_regions sp)))"
    using space_framesD(7) [of K "as_table sp" "pages_of (as_regions sp)" s] ok by (simp add: space_ok_def space_core_def)
  moreover have "pages_of (as_regions sp) = pages_of ds @ region_pages r @ pages_of rs" by (simp add: rs pages_of_def)
  ultimately have "fst ` set (pages_of ds) \<inter> fst ` set (region_pages r) = {}"
    by (simp only: map_append distinct_append set_append set_map) blast
  then show False using mem sub by blast
qed

lemma duplicate_loop_view:
  assumes "space_ok K sp s" "space_ok K ch s" "space_owned ch \<inter> space_owned sp = {}" "as_regions sp = ds @ rs"
    "\<forall>x. umem ch s x = (if in_regions ds x then umem sp s x else None)"
  shows "\<exists>res s'. duplicate_loop rs ch s = Some (res, s') \<and> footprint (space_owned ch) s s' \<and>
    (case res of
       None \<Rightarrow> free_ppns s' = free_ppns s \<union> space_owned ch \<and> card (free_ppns s) < 3 * length (pages_of rs) + 2
     | Some ch' \<Rightarrow> space_ok K ch' s' \<and> space_owned ch' \<inter> space_owned sp = {} \<and>
         free_ppns s' \<union> space_owned ch' = free_ppns s \<union> space_owned ch \<and>
         (\<forall>x. umem ch' s' x = (if in_regions (as_regions sp) x then umem sp s x else None)))"
  using assms
proof (induction rs arbitrary: s ch ds)
  case Nil
  then show ?case using space_core_inv by (auto simp: space_ok_def)
next
  case (Cons r rs)
  have r: "r \<in> set (as_regions sp)" "region_ok r" using Cons.prems(1,4) by (simp_all add: space_ok_def)
  have fresh: "\<forall>x. r_start r \<le> x \<and> x < r_end r \<longrightarrow> umem ch s x = None"
    using regions_apart [OF Cons.prems(1,4)] Cons.prems(5) by auto
  have len: "length (pages_of (r # rs)) = length (r_frames r) + length (pages_of rs)" by (simp add: region_pages_def)
  have loop: "r_backing r = Framed" "region_new (r_start r) (r_end r) Framed (r_perm r) = Some (r\<lparr>r_frames := []\<rparr>)"
    using r(2) region_copy_new [OF r(2)] by (simp_all add: region_ok_def)
  show ?case
  proof (rule dup_region [OF Cons.prems(1-3) r(1) fresh], goal_cases)
    case (1 copy1 pt1 s1 s2 ch1)
    have "umem ch1 s2 x = (if in_regions (ds @ [r]) x then umem sp s2 x else None)" for x
      using 1(7,11) Cons.prems(5) by auto
    then obtain res s' where s': "duplicate_loop rs ch1 s2 = Some (res, s')" "footprint (space_owned ch1) s2 s'"
      "case res of
         None \<Rightarrow> free_ppns s' = free_ppns s2 \<union> space_owned ch1 \<and> card (free_ppns s2) < 3 * length (pages_of rs) + 2
       | Some ch' \<Rightarrow> space_ok K ch' s' \<and> space_owned ch' \<inter> space_owned sp = {} \<and>
           free_ppns s' \<union> space_owned ch' = free_ppns s2 \<union> space_owned ch1 \<and>
           (\<forall>x. umem ch' s' x = (if in_regions (as_regions sp) x then umem sp s2 x else None))"
      using Cons.IH [OF 1(4-6), of "ds @ [r]"] Cons.prems(4) by auto
    have "duplicate_loop (r # rs) ch s = Some (res, s')" using s'(1) 1(1,2,3) by (simp add: loop Let_def)
    moreover have "footprint (space_owned ch) s s'"
      by (rule footprint_trans [OF 1(9) s'(2)]) (use 1(8) free_allocator [of s] in blast)
    moreover have "card (free_ppns s) < 3 * length (pages_of (r # rs)) + 2" if "card (free_ppns s2) < 3 * length (pages_of rs) + 2"
      using that 1(10) unfolding len by simp
    ultimately show ?thesis using s'(3) 1(7,8) by (cases res) auto
  next
    case (2 err copy1 pt1 s1 s2 s3)
    have "duplicate_loop (r # rs) ch s = Some (None, s3)" using 2(1-3) by (simp add: loop Let_def)
    moreover have "card (free_ppns s) < 3 * length (pages_of (r # rs)) + 2" using 2(6) unfolding len by simp
    ultimately show ?thesis using 2(4,5) by auto
  qed
qed

lemma umem_regions:
  assumes ok: "space_ok K sp s" and x: "\<not> in_regions (as_regions sp) x"
  shows "umem sp s x = None"
proof (rule umem_none [OF ok])
  have "x div 4096 \<notin> fst ` set (region_pages r)" if "r \<in> set (as_regions sp)" for r
  proof -
    have rok: "region_ok r" using ok that by (simp add: space_ok_def)
    show ?thesis unfolding region_pages_vpns [OF rok] using region_vpn [of r x] rok x that by (auto simp: region_ok_def)
  qed
  then show "x div 4096 \<notin> fst ` set (pages_of (as_regions sp))" 
    by (simp only: pages_of_def set_concat set_map image_UN UN_iff) blast
qed

lemma space_duplicate_view:
  assumes sp: "space_ok K sp s" and k: "kernel_ok K kern s"
  obtains (none) s' where "space_duplicate (Some kern) sp s = Some (None, s')" "footprint {} s s'" "free_ppns s' = free_ppns s"
      "card (free_ppns s) < 3 * length (pages_of (as_regions sp)) + 3"
  | (child) ch s' where "space_duplicate (Some kern) sp s = Some (Some ch, s')" "footprint {} s s'" "space_ok K ch s'"
      "umem ch s' = umem sp s" "space_owned ch \<subseteq> free_ppns s" "free_ppns s' = free_ppns s - space_owned ch"
proof (cases "space_new s")
  case (Pair c0 s1)
  have inv: "buddy_inv s" and pt: "pt_ok K (as_table sp) s"
    using sp space_core_inv space_framesD(1) by (auto simp: space_ok_def space_core_def)
  have m: "managed s \<subseteq> {..<2 ^ 44}" using pt_okD(2) [OF pt] by auto
  show thesis
  proof (cases c0)
    case None
    then have "s1 = s" "free_ppns s = {}"
      using Pair buddy.alloc_none [OF inv frame_alloc_none [of s s1]] by (auto simp: space_new_def pt_new_def split: prod.splits option.splits)
    then show thesis using none [of s] Pair None inv by (simp add: space_duplicate_def)
  next
    case (Some c)
    let ?s2 = "pt_share_upper_half (as_table kern) (as_table c) s1"
    note n = space_new_facts [OF inv m Pair [unfolded Some]] and cr = space_create_ok [OF inv m k Pair [unfolded Some]]
    note par = umem_foreign [OF sp cr(4), simplified]
    have dis: "space_owned c \<inter> space_owned sp = {}" using cr(6) space_owned_use(1) [OF sp] by blast
    have empty: "umem c ?s2 x = None" for x using umem_none [OF cr(2)] n(4) by simp
    obtain res s' where d: "duplicate_loop (as_regions sp) c ?s2 = Some (res, s')" "footprint (space_owned c) ?s2 s'"
      "case res of
         None \<Rightarrow> free_ppns s' = free_ppns ?s2 \<union> space_owned c \<and> card (free_ppns ?s2) < 3 * length (pages_of (as_regions sp)) + 2
       | Some ch' \<Rightarrow> space_ok K ch' s' \<and> space_owned ch' \<inter> space_owned sp = {} \<and>
         free_ppns s' \<union> space_owned ch' = free_ppns ?s2 \<union> space_owned c \<and>
         (\<forall>x. umem ch' s' x = (if in_regions (as_regions sp) x then umem sp ?s2 x else None))"
      using duplicate_loop_view [OF par(1) cr(2) dis, of "[]"] empty by auto
    have run: "space_duplicate (Some kern) sp s = Some (res, s')" using d(1) cr(1) Pair Some by (simp add: space_duplicate_def)
    have fp: "footprint {} s s'" by (rule footprint_trans [OF cr(4) d(2)]) (use cr(6) free_allocator [of s] in blast)
    have free: "free_ppns ?s2 \<union> space_owned c = free_ppns s" using cr(5,6) by blast
    show thesis
    proof (cases res)
      case None
      have "card (free_ppns s) = Suc (card (free_ppns ?s2))" 
        using card_Suc_Diff1 [OF finite_free [OF inv] n(6)] cr(5) unfolding n(5) by simp
      then show thesis using none [of s'] run fp free d(3) None by simp
    next
      case (Some ch)
      have "free_ppns s' \<inter> space_owned ch = {}" using d(3) Some space_owned_use(1) [of K ch s'] by auto
      moreover have "free_ppns s' \<union> space_owned ch = free_ppns s" using d(3) Some free by simp
      moreover have "umem ch s' = umem sp s"
        using d(3) Some par(2) umem_regions [OF par(1)] by (auto simp: fun_eq_iff)
      ultimately show thesis using child [of ch s'] run fp d(3) Some by auto
    qed
  qed
qed

section \<open>Properties\<close>

text \<open>
  C20: duplicating a sound space for \<^verbatim>\<open>fork\<close>. The child sees what the
  parent sees, byte for byte and permission for permission, in frames that were free
  before; parent and kernel are unchanged, and a later copy into the child leaves the
  parent's memory alone, since they share no frame. When memory runs out the duplication fails
  and every frame it had taken is free again.
\<close>

theorem space_duplicate_correct:
  assumes sp: "space_ok K sp s" and k: "kernel_ok K kern s"
  shows "\<exists>res s'. space_duplicate (Some kern) sp s = Some (res, s') \<and>
    space_ok K sp s' \<and> umem sp s' = umem sp s \<and> kernel_ok K kern s' \<and>
    (case res of
       None \<Rightarrow> free_ppns s' = free_ppns s \<and> card (free_ppns s) < 3 * length (pages_of (as_regions sp)) + 3
     | Some child \<Rightarrow> space_ok K child s' \<and> umem child s' = umem sp s \<and> space_owned child \<inter> space_owned sp = {} \<and>
         space_owned child \<subseteq> free_ppns s \<and> free_ppns s' = free_ppns s - space_owned child)"
proof (rule space_duplicate_view [OF sp k], goal_cases)
  case (1 s')
  then show ?case using umem_foreign [OF sp 1(2)] kernel_foreign(1) [OF k 1(2)] by simp
next
  case (2 ch s')
  moreover have "space_owned ch \<inter> space_owned sp = {}" using 2(5) space_owned_use(1) [OF sp] by blast
  ultimately show ?case using umem_foreign [OF sp 2(2)] kernel_foreign(1) [OF k 2(2)] by simp
qed

theorem space_duplicate_correct_witness:
  "\<exists>kern sp s child s'. space_duplicate (Some kern) sp s = Some (Some child, s') \<and>
     umem child s' 0x11fff = Some (0, leaf_flags FL_READ) \<and> space_owned child \<inter> space_owned sp = {}"
proof -
  obtain K kern sp s where d: "kernel_ok K kern s" "space_ok K sp s" "100 \<le> card (free_ppns s)" "length (pages_of (as_regions sp)) = 1"
    and u: "umem sp s = (\<lambda>x. if 0x11000 \<le> x \<and> x < 0x12000 then Some (0, leaf_flags FL_READ) else None)"
    by (rule demo_page [of FL_READ]) simp_all
  obtain res s' where c: "space_duplicate (Some kern) sp s = Some (res, s')"
    "case res of
       None \<Rightarrow> free_ppns s' = free_ppns s \<and> card (free_ppns s) < 3 * length (pages_of (as_regions sp)) + 3
     | Some child \<Rightarrow> space_ok K child s' \<and> umem child s' = umem sp s \<and> space_owned child \<inter> space_owned sp = {} \<and>
         space_owned child \<subseteq> free_ppns s \<and> free_ppns s' = free_ppns s - space_owned child"
    using space_duplicate_correct [OF d(2,1)] by blast
  then obtain child where "res = Some child" using d(3,4) by (cases res) auto
  then have "space_duplicate (Some kern) sp s = Some (Some child, s')" "umem child s' 0x11fff = Some (0, leaf_flags FL_READ)"
    "space_owned child \<inter> space_owned sp = {}" using c by (simp_all add: u)
  then show ?thesis by blast
qed

end
