(* ===== verification/Loader.thy ===== *)
theory Loader
  imports Space_Dup
begin

text \<open>
  The ELF loader, \<^verbatim>\<open>kernel/src/loader.rs\<close>: the image is a list of bytes, and an integer
  field is read as a natural number. The outer \<open>None\<close> is a panic. The space under
  construction is dropped on every early return that follows its creation.
\<close>

unbundle bit_operations_syntax

section \<open>Reading the image\<close>

definition checked_mul :: "usize \<Rightarrow> usize \<Rightarrow> usize option" where
  "checked_mul a b = (if a * b < usize_lim then Some (a * b) else None)"

definition checked_next_multiple_of :: "usize \<Rightarrow> usize \<Rightarrow> usize option" where
  "checked_next_multiple_of a b = (if next_multiple_of a b < usize_lim then Some (next_multiple_of a b) else None)"

definition ELF_MAGIC :: "u8 list" where "ELF_MAGIC = [0x7f, 0x45, 0x4c, 0x46]"

abbreviation (input) ELFCLASS64 :: u8 where "ELFCLASS64 \<equiv> 2"
abbreviation (input) ELFDATA2LSB :: u8 where "ELFDATA2LSB \<equiv> 1"
abbreviation (input) ET_EXEC :: nat where "ET_EXEC \<equiv> 2"
abbreviation (input) EM_RISCV :: nat where "EM_RISCV \<equiv> 243"
abbreviation (input) PT_LOAD :: nat where "PT_LOAD \<equiv> 1"
abbreviation (input) PF_X :: nat where "PF_X \<equiv> 1"
abbreviation (input) PF_W :: nat where "PF_W \<equiv> 2"
abbreviation (input) PF_R :: nat where "PF_R \<equiv> 4"

datatype load_error = Truncated | BadMagic | WrongFormat | BadAddress | BadSegment | LoadOutOfMemory

record loaded_image =
  li_space :: address_space
  li_entry :: usize
  li_brk :: usize

text \<open>\<^verbatim>\<open>from_le_bytes\<close>.\<close>

fun from_le_bytes :: "u8 list \<Rightarrow> nat" where
  "from_le_bytes [] = 0"
| "from_le_bytes (b # bs) = unat b + 256 * from_le_bytes bs"

text \<open>The macro \<^verbatim>\<open>read_int!\<close> for a type of \<open>n\<close> bytes.\<close>

definition read_int :: "usize \<Rightarrow> u8 list \<Rightarrow> usize \<Rightarrow> load_error + nat" where
  "read_int n data off =
     (case checked_add off n of
        None \<Rightarrow> Inl Truncated
      | Some e \<Rightarrow> if length data < e then Inl Truncated else Inr (from_le_bytes (take n (drop off data))))"

text \<open>The operator \<^verbatim>\<open>?\<close>.\<close>

definition try_res :: "'e + 'a \<Rightarrow> ('a \<Rightarrow> ('e + 'b) option) \<Rightarrow> ('e + 'b) option" where
  "try_res r k = (case r of Inl e \<Rightarrow> Some (Inl e) | Inr x \<Rightarrow> k x)"

record elf_header =
  eh_entry :: usize
  eh_phoff :: usize
  eh_phentsize :: usize
  eh_phnum :: usize

text \<open>The part of \<^verbatim>\<open>load\<close> before the space is created. Indexing a checked prefix cannot panic.\<close>

definition read_header :: "u8 list \<Rightarrow> (load_error + elf_header) option" where
  "read_header img =
     (if length img < 64 then Some (Inl Truncated)
      else if take 4 img \<noteq> ELF_MAGIC then Some (Inl BadMagic)
      else if img ! 4 \<noteq> ELFCLASS64 \<or> img ! 5 \<noteq> ELFDATA2LSB then Some (Inl WrongFormat)
      else try_res (read_int 2 img 16) (\<lambda>e_type.
           try_res (read_int 2 img 18) (\<lambda>e_machine.
           if e_type \<noteq> ET_EXEC \<or> e_machine \<noteq> EM_RISCV then Some (Inl WrongFormat)
           else try_res (read_int 8 img 24) (\<lambda>entry.
                try_res (read_int 8 img 32) (\<lambda>phoff.
                try_res (read_int 2 img 54) (\<lambda>phentsize.
                try_res (read_int 2 img 56) (\<lambda>phnum.
                Some (Inr \<lparr>eh_entry = entry, eh_phoff = phoff, eh_phentsize = phentsize, eh_phnum = phnum\<rparr>))))))))"

record elf_segment =
  sg_flags :: nat
  sg_offset :: usize
  sg_vaddr :: usize
  sg_filesz :: usize
  sg_memsz :: usize

text \<open>Program header \<open>i\<close>; \<open>None\<close> in the result when it is not to be loaded.\<close>

definition read_segment :: "u8 list \<Rightarrow> elf_header \<Rightarrow> usize \<Rightarrow> (load_error + elf_segment option) option" where
  "read_segment img eh i = do {
     off \<leftarrow> checked_mul i (eh_phentsize eh);
     ph \<leftarrow> checked_add (eh_phoff eh) off;
     try_res (read_int 4 img ph) (\<lambda>p_type.
       if p_type \<noteq> PT_LOAD then Some (Inr None)
       else do {
         a \<leftarrow> checked_add ph 4;
         try_res (read_int 4 img a) (\<lambda>p_flags. do {
         a \<leftarrow> checked_add ph 8;
         try_res (read_int 8 img a) (\<lambda>p_offset. do {
         a \<leftarrow> checked_add ph 16;
         try_res (read_int 8 img a) (\<lambda>p_vaddr. do {
         a \<leftarrow> checked_add ph 32;
         try_res (read_int 8 img a) (\<lambda>p_filesz. do {
         a \<leftarrow> checked_add ph 40;
         try_res (read_int 8 img a) (\<lambda>p_memsz.
           Some (Inr (Some \<lparr>sg_flags = p_flags, sg_offset = p_offset, sg_vaddr = p_vaddr,
                            sg_filesz = p_filesz, sg_memsz = p_memsz\<rparr>))) }) }) }) }) })
   }"

definition segment_perm :: "nat \<Rightarrow> pte_flags" where
  "segment_perm p_flags =
     FL_USER OR (if p_flags AND PF_R \<noteq> 0 then FL_READ else 0)
             OR (if p_flags AND PF_W \<noteq> 0 then FL_WRITE else 0)
             OR (if p_flags AND PF_X \<noteq> 0 then FL_EXEC else 0)"

text \<open>The rest of the loop body: check the segment, map it and raise \<^verbatim>\<open>brk\<close>.\<close>

definition load_segment :: "u8 list \<Rightarrow> elf_segment \<Rightarrow> usize \<Rightarrow> address_space \<Rightarrow> mm_state
    \<Rightarrow> ((load_error + usize) \<times> address_space \<times> mm_state) option" where
  "load_segment img sg brk sp s =
     (if sg_memsz sg < sg_filesz sg then Some (Inl BadSegment, sp, s)
      else case checked_add (sg_vaddr sg) (sg_memsz sg) of
        None \<Rightarrow> Some (Inl BadAddress, sp, s)
      | Some end \<Rightarrow>
          if USER_MAX_ADDR < end \<or> sg_vaddr sg < PAGE_SIZE then Some (Inl BadAddress, sp, s)
          else case checked_add (sg_offset sg) (sg_filesz sg) of
            None \<Rightarrow> Some (Inl Truncated, sp, s)
          | Some file_end \<Rightarrow>
              if length img < file_end then Some (Inl Truncated, sp, s)
              else do {
                region \<leftarrow> region_new (sg_vaddr sg) end Framed (segment_perm (sg_flags sg));
                (res, sp1, s1) \<leftarrow> space_push_with_offset region (sg_vaddr sg mod PAGE_SIZE)
                    (take (sg_filesz sg) (drop (sg_offset sg) img)) sp s;
                case res of
                  Inl _ \<Rightarrow> Some (Inl LoadOutOfMemory, sp1, s1)
                | Inr _ \<Rightarrow> do {
                    top \<leftarrow> checked_next_multiple_of end PAGE_SIZE;
                    Some (Inr (max brk top), sp1, s1)
                  }
              })"

fun load_loop :: "u8 list \<Rightarrow> elf_header \<Rightarrow> usize list \<Rightarrow> usize \<Rightarrow> address_space \<Rightarrow> mm_state
    \<Rightarrow> ((load_error + usize) \<times> address_space \<times> mm_state) option" where
  "load_loop img eh [] brk sp s = Some (Inr brk, sp, s)"
| "load_loop img eh (i # is) brk sp s = do {
     r \<leftarrow> read_segment img eh i;
     case r of
       Inl e \<Rightarrow> Some (Inl e, sp, s)
     | Inr None \<Rightarrow> load_loop img eh is brk sp s
     | Inr (Some sg) \<Rightarrow> do {
         (res, sp1, s1) \<leftarrow> load_segment img sg brk sp s;
         case res of
           Inl e \<Rightarrow> Some (Inl e, sp1, s1)
         | Inr brk1 \<Rightarrow> load_loop img eh is brk1 sp1 s1
       }
   }"

definition load :: "address_space option \<Rightarrow> u8 list \<Rightarrow> mm_state
    \<Rightarrow> ((load_error + loaded_image) \<times> mm_state) option" where
  "load kern img s = do {
     h \<leftarrow> read_header img;
     case h of
       Inl e \<Rightarrow> Some (Inl e, s)
     | Inr eh \<Rightarrow>
         (case space_new s of
            (None, s1) \<Rightarrow> Some (Inl LoadOutOfMemory, s1)
          | (Some sp, s1) \<Rightarrow> do {
              s2 \<leftarrow> map_kernel_half kern sp s1;
              (res, sp1, s3) \<leftarrow> load_loop img eh [0..<eh_phnum eh] 0 sp s2;
              case res of
                Inl e \<Rightarrow> do { s4 \<leftarrow> space_drop sp1 s3; Some (Inl e, s4) }
              | Inr brk \<Rightarrow>
                  if brk = 0 then do { s4 \<leftarrow> space_drop sp1 s3; Some (Inl BadSegment, s4) }
                  else Some (Inr \<lparr>li_space = sp1, li_entry = eh_entry eh, li_brk = brk\<rparr>, s3)
            })
   }"

end
