(* ===== verification/Process.thy ===== *)
theory Process
  imports Loader Scheduler
begin

text \<open>
  User processes, \<^verbatim>\<open>kernel/src/task/process.rs\<close>, and the embedded programs,
  \<^verbatim>\<open>kernel/src/programs.rs\<close>: the initial stack, creation, \<^verbatim>\<open>fork\<close>, \<^verbatim>\<open>exec\<close> and
  the program break. The outer \<open>None\<close> is a panic. The owned space is dropped on the
  early returns that come after its creation; boxes, strings and vectors live in the kernel
  heap and are values here. \<open>sstatus\<close> is the value of that register and \<open>hart\<close> the
  contents of \<^verbatim>\<open>tp\<close>.
\<close>

unbundle bit_operations_syntax

section \<open>Embedded programs\<close>

text \<open>\<^verbatim>\<open>PROGRAMS\<close> is generated by the build and is a parameter.\<close>

type_synonym programs = "(rust_string \<times> u8 list) list"

definition strip_slash :: "rust_string \<Rightarrow> rust_string" where
  "strip_slash name = (case name of b # rest \<Rightarrow> if b = 0x2f then rest else name | [] \<Rightarrow> name)"

definition programs_find :: "programs \<Rightarrow> rust_string \<Rightarrow> u8 list option" where
  "programs_find ps name = map_option snd (List.find (\<lambda>(n, _). n = strip_slash name) ps)"

definition programs_names :: "programs \<Rightarrow> rust_string list" where
  "programs_names ps = map fst ps"

definition programs_count :: "programs \<Rightarrow> usize" where
  "programs_count ps = length ps"

section \<open>The initial stack\<close>

definition map_user_stack :: "address_space \<Rightarrow> mm_state \<Rightarrow> (usize option \<times> address_space \<times> mm_state) option" where
  "map_user_stack space s = do {
     r \<leftarrow> region_new (USER_STACK_TOP - USER_STACK_SIZE) USER_STACK_TOP Framed (FL_RW OR FL_USER);
     (res, space1, s1) \<leftarrow> space_push r space s;
     Some (case res of Inl _ \<Rightarrow> None | Inr _ \<Rightarrow> Some USER_STACK_TOP, space1, s1)
   }"

primrec to_le_bytes :: "nat \<Rightarrow> nat \<Rightarrow> u8 list" where
  "to_le_bytes 0 n = []"
| "to_le_bytes (Suc k) n = word_of_nat n # to_le_bytes k (n div 256)"

text \<open>The two loops of \<^verbatim>\<open>push_args\<close>: the strings, then the pointers to them.\<close>

fun push_strings :: "address_space \<Rightarrow> rust_string list \<Rightarrow> usize \<Rightarrow> usize list \<Rightarrow> mm_state
    \<Rightarrow> ((usize \<times> usize list) option \<times> mm_state) option" where
  "push_strings space [] sp pointers s = Some (Some (sp, pointers), s)"
| "push_strings space (arg # args) sp pointers s = do {
     sp1 \<leftarrow> checked_sub sp (length arg + 1);
     let sp2 = sp1 AND usize_not 0x7;
     (r, s1) \<leftarrow> copy_to_user space sp2 arg s;
     case r of
       None \<Rightarrow> Some (None, s1)
     | Some _ \<Rightarrow> do {
         e \<leftarrow> checked_add sp2 (length arg);
         (r, s2) \<leftarrow> copy_to_user space e [0] s1;
         case r of
           None \<Rightarrow> Some (None, s2)
         | Some _ \<Rightarrow> push_strings space args sp2 (pointers @ [sp2]) s2
       }
   }"

fun push_pointers :: "address_space \<Rightarrow> usize \<Rightarrow> nat \<Rightarrow> usize list \<Rightarrow> mm_state
    \<Rightarrow> (unit option \<times> mm_state) option" where
  "push_pointers space argv i [] s = Some (Some (), s)"
| "push_pointers space argv i (p # ps) s = do {
     a \<leftarrow> checked_add argv (i * 8);
     (r, s1) \<leftarrow> copy_to_user space a (to_le_bytes 8 p) s;
     case r of
       None \<Rightarrow> Some (None, s1)
     | Some _ \<Rightarrow> push_pointers space argv (i + 1) ps s1
   }"

definition push_args :: "address_space \<Rightarrow> usize \<Rightarrow> rust_string list \<Rightarrow> mm_state
    \<Rightarrow> ((usize \<times> usize \<times> usize) option \<times> mm_state) option" where
  "push_args space sp args s = do {
     (r, s1) \<leftarrow> push_strings space args sp [] s;
     case r of
       None \<Rightarrow> Some (None, s1)
     | Some (sp1, pointers) \<Rightarrow> do {
         sp2 \<leftarrow> checked_sub sp1 ((length pointers + 1) * 8);
         let argv = sp2 AND usize_not 0xf;
         (r, s2) \<leftarrow> push_pointers space argv 0 pointers s1;
         case r of
           None \<Rightarrow> Some (None, s2)
         | Some _ \<Rightarrow> do {
             e \<leftarrow> checked_add argv (length pointers * 8);
             (r, s3) \<leftarrow> copy_to_user space e (to_le_bytes 8 0) s2;
             Some (case r of None \<Rightarrow> None | Some _ \<Rightarrow> Some (argv, length pointers, argv), s3)
           }
       }
   }"

section \<open>Creation\<close>

definition new_user :: "link_syms \<Rightarrow> usize \<Rightarrow> usize \<Rightarrow> rust_string \<Rightarrow> u8 list \<Rightarrow> rust_string list \<Rightarrow> kstate
    \<Rightarrow> (task option \<times> kstate) option" where
  "new_user syms sstatus hart name img args k = do {
     (res, mm1) \<leftarrow> load (k_space k) img (k_mm k);
     case res of
       Inl _ \<Rightarrow> Some (None, k\<lparr>k_mm := mm1\<rparr>)
     | Inr loaded \<Rightarrow> do {
         (st, space, mm2) \<leftarrow> map_user_stack (li_space loaded) mm1;
         case st of
           None \<Rightarrow> do { mm3 \<leftarrow> space_drop space mm2; Some (None, k\<lparr>k_mm := mm3\<rparr>) }
         | Some stack_top \<Rightarrow> do {
             (ar, mm3) \<leftarrow> push_args space stack_top args mm2;
             case ar of
               None \<Rightarrow> do { mm4 \<leftarrow> space_drop space mm3; Some (None, k\<lparr>k_mm := mm4\<rparr>) }
             | Some (sp, argc, argv) \<Rightarrow>
                 (case ks_new mm3 of
                    (None, mm4) \<Rightarrow> do { mm5 \<leftarrow> space_drop space mm4; Some (None, k\<lparr>k_mm := mm5\<rparr>) }
                  | (Some kstack, mm4) \<Rightarrow> do {
                      kernel_sp \<leftarrow> ks_top kstack;
                      satp \<leftarrow> kernel_token k;
                      let f = tf_new_user sstatus (li_entry loaded) sp kernel_sp (unat satp);
                      let frame = tf_set_x 11 argv (tf_set_x 10 argc (f\<lparr>tf_kernel_hartid := hart\<rparr>));
                      let (pid, k1) = alloc_pid (k\<lparr>k_mm := mm4\<rparr>);
                      let brk = max (li_brk loaded) USER_HEAP_BASE;
                      Some (Some \<lparr>tk_pid = pid, tk_name = name, tk_entry = sym_enter_user_mode syms, tk_child_exit = [],
                        tk_inner = (fresh_inner (tc_new (sym_task_entry syms) kernel_sp) kstack)
                          \<lparr>ti_space := Some space, ti_frame := Some frame, ti_brk := brk, ti_heap_top := brk\<rparr>\<rparr>, k1)
                    })
           }
       }
   }"

definition fork_from :: "link_syms \<Rightarrow> usize \<Rightarrow> pid \<Rightarrow> trap_frame \<Rightarrow> kstate \<Rightarrow> (task option \<times> kstate) option" where
  "fork_from syms hart parent frame k = do {
     t \<leftarrow> k_tasks k parent;
     let inner = tk_inner t;
     case ti_space inner of
       None \<Rightarrow> Some (None, k)
     | Some space \<Rightarrow> do {
         (dup, mm1) \<leftarrow> space_duplicate (k_space k) space (k_mm k);
         case dup of
           None \<Rightarrow> Some (None, k\<lparr>k_mm := mm1\<rparr>)
         | Some child_space \<Rightarrow>
             (case ks_new mm1 of
                (None, mm2) \<Rightarrow> do { mm3 \<leftarrow> space_drop child_space mm2; Some (None, k\<lparr>k_mm := mm3\<rparr>) }
              | (Some kstack, mm2) \<Rightarrow> do {
                  kernel_sp \<leftarrow> ks_top kstack;
                  satp \<leftarrow> kernel_token k;
                  let child_frame = tf_set_return 0
                    (frame\<lparr>tf_kernel_sp := kernel_sp, tf_kernel_satp := unat satp, tf_kernel_hartid := hart\<rparr>);
                  let (pid, k1) = alloc_pid (k\<lparr>k_mm := mm2\<rparr>);
                  Some (Some \<lparr>tk_pid = pid, tk_name = tk_name t, tk_entry = sym_enter_user_mode syms, tk_child_exit = [],
                    tk_inner = (fresh_inner (tc_new (sym_task_entry syms) kernel_sp) kstack)
                      \<lparr>ti_space := Some child_space, ti_frame := Some child_frame, ti_brk := ti_brk inner,
                       ti_heap_top := ti_heap_top inner, ti_parent := Some parent\<rparr>\<rparr>, k1)
                })
       }
   }"

section \<open>Exec\<close>

datatype exec_error = BadImage load_error | ExecOutOfMemory

definition set_name :: "pid \<Rightarrow> rust_string \<Rightarrow> kstate \<Rightarrow> kstate" where
  "set_name p name k = k\<lparr>k_tasks := (k_tasks k)(p := map_option (\<lambda>t. t\<lparr>tk_name := name\<rparr>) (k_tasks k p))\<rparr>"

text \<open>\<open>h\<close> is the hart whose \<^verbatim>\<open>satp\<close> \<^verbatim>\<open>activate\<close> writes.\<close>

definition exec_current :: "nat \<Rightarrow> usize \<Rightarrow> usize \<Rightarrow> pid \<Rightarrow> rust_string \<Rightarrow> u8 list \<Rightarrow> rust_string list \<Rightarrow> kstate
    \<Rightarrow> ((exec_error + unit) \<times> kstate) option" where
  "exec_current h sstatus hart p name img args k = do {
     (res, mm1) \<leftarrow> load (k_space k) img (k_mm k);
     case res of
       Inl e \<Rightarrow> Some (Inl (BadImage e), k\<lparr>k_mm := mm1\<rparr>)
     | Inr loaded \<Rightarrow> do {
         (st, space, mm2) \<leftarrow> map_user_stack (li_space loaded) mm1;
         case st of
           None \<Rightarrow> do { mm3 \<leftarrow> space_drop space mm2; Some (Inl ExecOutOfMemory, k\<lparr>k_mm := mm3\<rparr>) }
         | Some stack_top \<Rightarrow> do {
             (ar, mm3) \<leftarrow> push_args space stack_top args mm2;
             case ar of
               None \<Rightarrow> do { mm4 \<leftarrow> space_drop space mm3; Some (Inl ExecOutOfMemory, k\<lparr>k_mm := mm4\<rparr>) }
             | Some (sp, argc, argv) \<Rightarrow> do {
                 let k1 = set_name p name (k\<lparr>k_mm := mm3\<rparr>);
                 inner \<leftarrow> inner_of p k1;
                 kernel_sp \<leftarrow> ks_top (ti_kstack inner);
                 satp \<leftarrow> kernel_token k1;
                 let f = tf_new_user sstatus (li_entry loaded) sp kernel_sp (unat satp);
                 let frame = tf_set_x 11 argv (tf_set_x 10 argc (f\<lparr>tf_kernel_hartid := hart\<rparr>));
                 let k2 = upd_cpu h (\<lambda>c. c\<lparr>cpu_satp := space_token space\<rparr>) k1;
                 let brk = max (li_brk loaded) USER_HEAP_BASE;
                 let k3 = upd_inner p (\<lambda>i. i\<lparr>ti_brk := brk, ti_heap_top := brk, ti_frame := Some frame, ti_space := Some space\<rparr>) k2;
                 mm4 \<leftarrow> (case ti_space inner of None \<Rightarrow> Some (k_mm k3) | Some old \<Rightarrow> space_drop old (k_mm k3));
                 Some (Inr (), k3\<lparr>k_mm := mm4\<rparr>)
               }
           }
       }
   }"

section \<open>The program break\<close>

definition adjust_brk :: "pid \<Rightarrow> isize \<Rightarrow> kstate \<Rightarrow> (usize option \<times> kstate) option" where
  "adjust_brk p delta k = do {
     inner \<leftarrow> inner_of p k;
     let old = ti_brk inner;
     if delta = 0 then Some (Some old, k)
     else case checked_add_signed old delta of
       None \<Rightarrow> Some (None, k)
     | Some new \<Rightarrow>
         if \<not> (USER_HEAP_BASE \<le> new \<and> new < USER_MAX_ADDR) then Some (None, k)
         else if ti_heap_top inner < new then do {
           to \<leftarrow> checked_next_multiple_of new PAGE_SIZE;
           case ti_space inner of
             None \<Rightarrow> Some (None, k)
           | Some space \<Rightarrow> do {
               r \<leftarrow> region_new (ti_heap_top inner) to Framed (FL_RW OR FL_USER);
               (res, space1, mm1) \<leftarrow> space_push r space (k_mm k);
               let k1 = upd_inner p (\<lambda>i. i\<lparr>ti_space := Some space1\<rparr>) (k\<lparr>k_mm := mm1\<rparr>);
               case res of
                 Inl _ \<Rightarrow> Some (None, k1)
               | Inr _ \<Rightarrow> Some (Some old, upd_inner p (\<lambda>i. i\<lparr>ti_heap_top := to, ti_brk := new\<rparr>) k1)
             }
         }
         else Some (Some old, upd_inner p (\<lambda>i. i\<lparr>ti_brk := new\<rparr>) k)
   }"

section \<open>Running a process\<close>

text \<open>The frame that \<^verbatim>\<open>frame_ptr\<close> points to.\<close>

definition frame_ptr :: "pid \<Rightarrow> kstate \<Rightarrow> trap_frame option" where
  "frame_ptr p k = do { inner \<leftarrow> inner_of p k; ti_frame inner }"

end
