(* ===== verification/Loader_Correct.thy ===== *)
theory Loader_Correct
  imports Loader
begin

text \<open>
  The loader is total and correct: for every sequence of bytes it either fails for a
  reason the image or the memory gives, with all memory returned, or yields a space that
  holds exactly the segments of the image.
\<close>

unbundle bit_operations_syntax

section \<open>What an image describes\<close>

definition seg_end :: "elf_segment \<Rightarrow> usize" where
  "seg_end sg = next_multiple_of (sg_vaddr sg + sg_memsz sg) PAGE_SIZE"

definition in_seg :: "elf_segment \<Rightarrow> virt_addr \<Rightarrow> bool" where
  "in_seg sg x \<longleftrightarrow> align_down (sg_vaddr sg) \<le> x \<and> x < seg_end sg"

definition seg_pages :: "elf_segment \<Rightarrow> nat" where
  "seg_pages sg = (seg_end sg - align_down (sg_vaddr sg)) div PAGE_SIZE"

definition seg_byte :: "u8 list \<Rightarrow> elf_segment \<Rightarrow> virt_addr \<Rightarrow> u8" where
  "seg_byte img sg x =
     (if sg_vaddr sg \<le> x \<and> x < sg_vaddr sg + sg_filesz sg then img ! (sg_offset sg + (x - sg_vaddr sg)) else 0)"

definition elf_view :: "u8 list \<Rightarrow> elf_segment list \<Rightarrow> virt_addr \<Rightarrow> (u8 \<times> pte_flags) option" where
  "elf_view img segs x =
     map_option (\<lambda>sg. (seg_byte img sg x, leaf_flags (segment_perm (sg_flags sg)))) (List.find (\<lambda>sg. in_seg sg x) segs)"

text \<open>The error a segment deserves, if any.\<close>

definition seg_error :: "u8 list \<Rightarrow> elf_segment \<Rightarrow> load_error option" where
  "seg_error img sg =
     (if sg_memsz sg < sg_filesz sg then Some BadSegment
      else if USER_MAX_ADDR < sg_vaddr sg + sg_memsz sg \<or> sg_vaddr sg < PAGE_SIZE then Some BadAddress
      else if length img < sg_offset sg + sg_filesz sg then Some Truncated
      else None)"

definition loadable :: "u8 list \<Rightarrow> elf_header \<Rightarrow> usize list \<Rightarrow> elf_segment list" where
  "loadable img eh is = List.map_filter (\<lambda>i. case read_segment img eh i of Some (Inr (Some sg)) \<Rightarrow> Some sg | _ \<Rightarrow> None) is"

abbreviation elf_segments :: "u8 list \<Rightarrow> elf_header \<Rightarrow> elf_segment list" where
  "elf_segments img eh \<equiv> loadable img eh [0..<eh_phnum eh]"

definition segs_apart :: "elf_segment \<Rightarrow> elf_segment \<Rightarrow> bool" where
  "segs_apart a b \<longleftrightarrow> seg_end a \<le> align_down (sg_vaddr b) \<or> seg_end b \<le> align_down (sg_vaddr a)"

definition segs_overlap :: "elf_segment list \<Rightarrow> bool" where
  "segs_overlap segs \<longleftrightarrow> \<not> sorted_wrt segs_apart segs"

text \<open>Why loading the program headers \<open>is\<close> after the segments \<open>segs\<close> may fail with \<open>e\<close>.\<close>

definition load_fails :: "u8 list \<Rightarrow> elf_header \<Rightarrow> usize list \<Rightarrow> elf_segment list \<Rightarrow> nat \<Rightarrow> load_error \<Rightarrow> bool" where
  "load_fails img eh is segs free e \<longleftrightarrow>
     (\<exists>i\<in>set is. read_segment img eh i = Some (Inl e)) \<or> (\<exists>sg\<in>set (loadable img eh is). seg_error img sg = Some e) \<or>
     e = LoadOutOfMemory \<and> (segs_overlap (segs @ loadable img eh is) \<or>
       free < 3 * sum_list (map seg_pages (loadable img eh is)) + 2)"

section \<open>Reading never panics\<close>

lemma from_le_bytes_bound: "from_le_bytes bs < 256 ^ length bs"
proof (induction bs)
  case (Cons b bs)
  have "unat b < 256" using unsigned_less [of b, where ?'a = nat] by simp
  then show ?case using Cons by simp
qed simp

lemma read_int_bound: "read_int n img off = Inr v \<Longrightarrow> v < 256 ^ n \<and> off + n \<le> length img"
  using from_le_bytes_bound [of "take n (drop off img)"] by (auto simp: read_int_def checked_add_def split: if_splits option.splits)

lemma read_header_total:
  obtains (bad) e where "read_header img = Some (Inl e)"
  | (ok) eh where "read_header img = Some (Inr eh)" "eh_phoff eh < 2 ^ 64" "eh_phentsize eh < 2 ^ 16" "eh_phnum eh < 2 ^ 16"
proof -
  have two: "read_int 2 img off = Inr v \<Longrightarrow> v < 2 ^ 16" and eight: "read_int 8 img off = Inr v \<Longrightarrow> v < 2 ^ 64" for off v
    using read_int_bound [of 2 img off v] read_int_bound [of 8 img off v] by simp_all
  have "\<exists>r. read_header img = Some r \<and> (\<forall>eh. r = Inr eh \<longrightarrow> eh_phoff eh < 2 ^ 64 \<and> eh_phentsize eh < 2 ^ 16 \<and> eh_phnum eh < 2 ^ 16)"
    unfolding read_header_def try_res_def by (auto split: sum.split dest: two eight)
  then show thesis using bad ok by (metis sum.exhaust)
qed

lemma read_segment_total:
  assumes "eh_phoff eh < 2 ^ 64" "eh_phentsize eh < 2 ^ 16" "i < 2 ^ 16" "0 < i \<longrightarrow> eh_phoff eh + 4 \<le> length img" "length img < 2 ^ 63"
  obtains (bad) e where "read_segment img eh i = Some (Inl e)"
  | (skip) "read_segment img eh i = Some (Inr None)" "eh_phoff eh + 4 \<le> length img"
  | (seg) sg where "read_segment img eh i = Some (Inr (Some sg))" "eh_phoff eh + 4 \<le> length img" "sg_vaddr sg < 2 ^ 64"
proof -
  have "i * eh_phentsize eh < 2 ^ 16 * 2 ^ 16" using assms(2,3) by (intro mult_strict_mono) simp_all
  then have off: "i * eh_phentsize eh < 2 ^ 32" by simp
  define ph where "ph = eh_phoff eh + i * eh_phentsize eh"
  have ph: "ph < 2 ^ 64"
    unfolding ph_def using assms(1,4,5) off by (cases "i = 0") simp_all
  have pos: "checked_mul i (eh_phentsize eh) = Some (i * eh_phentsize eh)" "checked_add (eh_phoff eh) (i * eh_phentsize eh) = Some ph"
    using off ph by (simp_all add: checked_mul_def checked_add_def ph_def)
  show thesis
  proof (cases "read_int 4 img ph")
    case (Inl e)
    then show thesis using bad by (simp add: read_segment_def pos try_res_def)
  next
    case (Inr p_type)
    note b = read_int_bound [OF Inr]
    have add: "checked_add ph 4 = Some (ph + 4)" "checked_add ph 8 = Some (ph + 8)" "checked_add ph 16 = Some (ph + 16)"
      "checked_add ph 32 = Some (ph + 32)" "checked_add ph 40 = Some (ph + 40)" using b assms(5) by (simp_all add: checked_add_def)
    have eight: "read_int 8 img off = Inr v \<Longrightarrow> v < 2 ^ 64" for off v using read_int_bound [of 8 img off v] by simp
    have "eh_phoff eh + 4 \<le> length img" using b by (simp add: ph_def)
    moreover have "\<exists>r. read_segment img eh i = Some r \<and> (\<forall>sg. r = Inr (Some sg) \<longrightarrow> sg_vaddr sg < 2 ^ 64)"
      unfolding read_segment_def try_res_def by (auto simp: pos add Inr split: sum.split dest: eight)
    ultimately show thesis using bad skip seg by (metis option.exhaust sum.exhaust)
  qed
qed

section \<open>One segment\<close>

lemma find_snoc: "List.find P (xs @ [x]) = (case List.find P xs of None \<Rightarrow> if P x then Some x else None | Some y \<Rightarrow> Some y)"
  by (induction xs) auto

lemma segment_perm_mask: "segment_perm fl AND NOT FLAG_MASK = 0"
  by (simp add: segment_perm_def bit.conj_disj_distrib2)

lemmas segment_perm_mask_simp [simp] = segment_perm_mask [simplified]

lemma load_segment_ok:
  assumes ok: "space_ok K sp s" and view: "umem sp s = elf_view img segs" and va: "sg_vaddr sg < 2 ^ 64" and img: "length img < 2 ^ 63"
  obtains (loaded) sp' s' where "load_segment img sg brk sp s = Some (Inr (max brk (seg_end sg)), sp', s')" "space_ok K sp' s'"
      "umem sp' s' = elf_view img (segs @ [sg])" "footprint (space_owned sp) s s'"
      "free_ppns s' \<union> space_owned sp' = free_ppns s \<union> space_owned sp"
      "card (free_ppns s) \<le> card (free_ppns s') + 3 * seg_pages sg" "seg_error img sg = None" "0 < seg_end sg"
  | (failed) e pt' s' where "load_segment img sg brk sp s = Some (Inl e, sp\<lparr>as_table := pt'\<rparr>, s')"
      "footprint (space_owned sp) s s'" "space_frames K pt' (pages_of (as_regions sp)) s'"
      "free_ppns s' \<union> owned pt' (pages_of (as_regions sp)) = free_ppns s \<union> space_owned sp"
      "seg_error img sg = Some e \<or> seg_error img sg = None \<and> e = LoadOutOfMemory \<and>
        ((\<exists>x. in_seg sg x \<and> (\<exists>sg'\<in>set segs. in_seg sg' x)) \<or> card (free_ppns s) < 3 * seg_pages sg + 2)"
proof (cases "seg_error img sg")
  case (Some e)
  then have "load_segment img sg brk sp s = Some (Inl e, sp\<lparr>as_table := as_table sp\<rparr>, s)"
    using img by (auto simp: load_segment_def seg_error_def checked_add_def split: if_splits)
  moreover have "buddy_inv s" "space_frames K (as_table sp) (pages_of (as_regions sp)) s"
    using ok space_core_inv by (auto simp: space_ok_def space_core_def)
  ultimately show thesis using failed [of e "as_table sp" s] Some by (simp add: space_owned_def)
next
  case None
  let ?e = "sg_vaddr sg + sg_memsz sg" and ?perm = "segment_perm (sg_flags sg)" and ?data = "take (sg_filesz sg) (drop (sg_offset sg) img)"
  have v: "sg_filesz sg \<le> sg_memsz sg" "?e \<le> USER_MAX_ADDR" "PAGE_SIZE \<le> sg_vaddr sg" "sg_offset sg + sg_filesz sg \<le> length img"
    using None by (auto simp: seg_error_def split: if_splits)
  have le: "sg_vaddr sg \<le> ?e" by simp
  obtain r where new: "region_new (sg_vaddr sg) ?e Framed ?perm = Some r"
    and r: "r_backing r = Framed" "r_frames r = []" "r_start r mod PAGE_SIZE = 0" "r_end r mod PAGE_SIZE = 0" "r_end r \<le> USER_MAX_ADDR"
      "r_perm r AND NOT FLAG_MASK = 0" "r_start r \<le> r_end r"
    and rb: "r_perm r = ?perm" "r_start r = sg_vaddr sg - sg_vaddr sg mod PAGE_SIZE" "?e \<le> r_end r"
    by (rule region_new_ok [OF le v(2), of ?perm]) simp
  have re: "r_end r = seg_end sg" "r_start r = align_down (sg_vaddr sg)"
    using new v(2) by (auto simp: region_new_def seg_end_def align_up_eq)
  have off: "r_start r + sg_vaddr sg mod PAGE_SIZE = sg_vaddr sg" using rb(2) by simp
  have len: "length ?data = sg_filesz sg" using v(4) by simp
  have fit: "r_start r + sg_vaddr sg mod PAGE_SIZE + length ?data \<le> r_end r" unfolding off len using v(1) rb(3) by linarith
  have pages: "(r_end r - r_start r) div PAGE_SIZE = seg_pages sg" by (simp add: seg_pages_def re)
  have run: "load_segment img sg brk sp s = do {
      (res, sp1, s1) \<leftarrow> space_push_with_offset r (sg_vaddr sg mod PAGE_SIZE) ?data sp s;
      case res of Inl _ \<Rightarrow> Some (Inl LoadOutOfMemory, sp1, s1)
      | Inr _ \<Rightarrow> do { top \<leftarrow> checked_next_multiple_of ?e PAGE_SIZE; Some (Inr (max brk top), sp1, s1) } }"
    using v new img by (simp add: load_segment_def checked_add_def)
  have top: "checked_next_multiple_of ?e PAGE_SIZE = Some (seg_end sg)"
    using r(5) re(1) by (simp add: checked_next_multiple_of_def seg_end_def)
  show thesis
  proof (rule push_data_facts [OF ok r fit], goal_cases)
    case (1 r' sp' s')
    have fresh: "umem sp s x = None" if "in_seg sg x" for x
      using regions_apart [OF 1(2), of "as_regions sp" r' "[]" x] umem_regions [OF ok, of x] 1(3-5) that re by (simp add: in_seg_def)
    have "umem sp' s' x = elf_view img (segs @ [sg]) x" for x
    proof (cases "in_seg sg x")
      case True
      then have "elf_view img segs x = None" using fresh view by metis
      then have "List.find (\<lambda>sg. in_seg sg x) (segs @ [sg]) = Some sg" using True by (simp add: elf_view_def find_snoc)
      moreover have "r_start r \<le> x \<and> x < r_end r" using True re by (simp add: in_seg_def)
      ultimately show ?thesis unfolding 1(6) off using len rb(1)
        by (auto simp: mem_write_def elf_view_def seg_byte_def add.commute)
    next
      case False
      then have "elf_view img (segs @ [sg]) x = elf_view img segs x" by (simp add: elf_view_def find_snoc split: option.split)
      moreover have "\<not> (r_start r \<le> x \<and> x < r_end r)" using False re by (simp add: in_seg_def)
      moreover have "\<not> (sg_vaddr sg \<le> x \<and> x < sg_vaddr sg + length ?data)" using calculation(2) off fit by linarith
      ultimately show ?thesis unfolding 1(6) off view [symmetric] by (auto simp: mem_write_def)
    qed
    moreover have "0 < seg_end sg" using v(3) rb(3) re(1) by simp
    ultimately show thesis using loaded [of sp' s'] 1(1,2,7,8,9) run top pages None by (simp add: fun_eq_iff)
  next
    case (2 err pt' s')
    have "\<exists>x. in_seg sg x \<and> (\<exists>sg'\<in>set segs. in_seg sg' x)" if "r_start r \<le> x" "x < r_end r" "umem sp s x \<noteq> None" for x
    proof -
      have "List.find (\<lambda>sg. in_seg sg x) segs \<noteq> None" using that(3) unfolding view elf_view_def by simp
      then have "\<exists>sg'\<in>set segs. in_seg sg' x" unfolding find_None_iff by blast
      then show ?thesis using that(1,2) unfolding re in_seg_def by blast
    qed
    then have "(\<exists>x. in_seg sg x \<and> (\<exists>sg'\<in>set segs. in_seg sg' x)) \<or> card (free_ppns s) < 3 * seg_pages sg + 2"
      using 2(5) unfolding pages by blast
    then show thesis using failed [of LoadOutOfMemory pt' s'] 2(1-4) run None by simp
  qed
qed

section \<open>All segments\<close>

lemma loadable_simps [simp]:
  "loadable img eh [] = []"
  "loadable img eh (i # is) = (case read_segment img eh i of Some (Inr (Some sg)) \<Rightarrow> sg # loadable img eh is | _ \<Rightarrow> loadable img eh is)"
  by (auto simp: loadable_def map_filter_simps split: option.splits sum.splits)

lemma overlap_here:
  "in_seg sg x \<Longrightarrow> sg' \<in> set segs \<Longrightarrow> in_seg sg' x \<Longrightarrow> segs_overlap (segs @ sg # rest)"
  unfolding segs_overlap_def segs_apart_def in_seg_def sorted_wrt_append by fastforce

definition loop_ok :: "phys_page_num set \<Rightarrow> address_space \<Rightarrow> mm_state \<Rightarrow> address_space \<Rightarrow> mm_state \<Rightarrow> bool" where
  "loop_ok K sp s sp' s' \<longleftrightarrow> footprint (space_owned sp) s s' \<and> free_ppns s' \<union> space_owned sp' = free_ppns s \<union> space_owned sp \<and>
     space_frames K (as_table sp') (pages_of (as_regions sp')) s' \<and> (\<forall>r\<in>set (as_regions sp'). region_ok r)"

lemma loop_ok_refl: "space_ok K sp s \<Longrightarrow> loop_ok K sp s sp s"
  using space_core_inv by (auto simp: loop_ok_def space_ok_def space_core_def)

lemma loop_ok_trans:
  assumes fp: "footprint (space_owned sp) s s1" "free_ppns s1 \<union> space_owned sp1 = free_ppns s \<union> space_owned sp" and l: "loop_ok K sp1 s1 sp' s'"
  shows "loop_ok K sp s sp' s'"
proof -
  have "footprint (space_owned sp1) s1 s'" using l by (simp add: loop_ok_def)
  then have "footprint (space_owned sp) s s'" by (rule footprint_trans [OF fp(1)]) (use fp(2) free_allocator [of s] in blast)
  then show ?thesis using l fp(2) by (simp add: loop_ok_def)
qed

lemma load_loop_ok:
  assumes eh: "eh_phoff eh < 2 ^ 64" "eh_phentsize eh < 2 ^ 16" and img: "length img < 2 ^ 63"
    and "i \<le> n" "n \<le> 2 ^ 16" "0 < i \<longrightarrow> eh_phoff eh + 4 \<le> length img" "space_ok K sp s" "umem sp s = elf_view img segs"
  shows "\<exists>res sp' s'. load_loop img eh [i..<n] brk sp s = Some (res, sp', s') \<and> loop_ok K sp s sp' s' \<and>
    (case res of
       Inr brk' \<Rightarrow> space_ok K sp' s' \<and> umem sp' s' = elf_view img (segs @ loadable img eh [i..<n]) \<and>
         brk' = fold max (map seg_end (loadable img eh [i..<n])) brk \<and>
         (\<forall>sg\<in>set (loadable img eh [i..<n]). seg_error img sg = None \<and> 0 < seg_end sg)
     | Inl e \<Rightarrow> load_fails img eh [i..<n] segs (card (free_ppns s)) e)"
  using assms(4-)
proof (induction "n - i" arbitrary: i brk sp s segs)
  case 0
  then show ?case using loop_ok_refl by auto
next
  case (Suc k)
  have up: "[i..<n] = i # [Suc i..<n]" "i < 2 ^ 16" "k = n - Suc i" "Suc i \<le> n" using Suc.hyps(2) Suc.prems(2) by (simp_all add: upt_conv_Cons)
  show ?case
  proof (rule read_segment_total [OF eh up(2) Suc.prems(3) img], goal_cases)
    case (1 e)
    then show ?case using loop_ok_refl [OF Suc.prems(4)] by (auto simp: up(1) load_fails_def)
  next
    case 2
    have "load_fails img eh [i..<n] segs m e" if "load_fails img eh [Suc i..<n] segs m e" for m e
      using that 2(1) by (auto simp: up(1) load_fails_def)
    then show ?case using Suc.hyps(1) [OF up(3,4) Suc.prems(2) _ Suc.prems(4,5), of brk] 2
      by (fastforce simp: up(1) split: sum.splits)
  next
    case (3 sg)
    have la: "loadable img eh [i..<n] = sg # loadable img eh [Suc i..<n]" using 3(1) by (simp add: up(1))
    show ?case
    proof (rule load_segment_ok [OF Suc.prems(4,5) 3(3) img, of brk], goal_cases)
      case (1 sp1 s1)
      obtain res sp' s' where r: "load_loop img eh [Suc i..<n] (max brk (seg_end sg)) sp1 s1 = Some (res, sp', s')" "loop_ok K sp1 s1 sp' s'"
        "case res of
           Inr brk' \<Rightarrow> space_ok K sp' s' \<and> umem sp' s' = elf_view img ((segs @ [sg]) @ loadable img eh [Suc i..<n]) \<and>
             brk' = fold max (map seg_end (loadable img eh [Suc i..<n])) (max brk (seg_end sg)) \<and>
             (\<forall>sg\<in>set (loadable img eh [Suc i..<n]). seg_error img sg = None \<and> 0 < seg_end sg)
         | Inl e \<Rightarrow> load_fails img eh [Suc i..<n] (segs @ [sg]) (card (free_ppns s1)) e"
        using Suc.hyps(1) [OF up(3,4) Suc.prems(2) _ 1(2,3)] 3(2) by blast
      have "load_fails img eh [i..<n] segs (card (free_ppns s)) e" if "load_fails img eh [Suc i..<n] (segs @ [sg]) (card (free_ppns s1)) e" for e
        using that 1(6) by (auto simp: load_fails_def up(1) 3(1))
      moreover have "load_loop img eh [i..<n] brk sp s = Some (res, sp', s')" using 3(1) 1(1) r(1) by (simp add: up(1))
      ultimately show ?case using r(3) loop_ok_trans [OF 1(4,5) r(2)] 1(7,8) unfolding la
        by (cases res) (auto simp: max.commute)
    next
      case (2 e pt' s')
      have "load_loop img eh [i..<n] brk sp s = Some (Inl e, sp\<lparr>as_table := pt'\<rparr>, s')" using 3(1) 2(1) by (simp add: up(1))
      moreover have "loop_ok K sp s (sp\<lparr>as_table := pt'\<rparr>) s'"
        using 2(2-4) Suc.prems(4) by (simp add: loop_ok_def space_owned_def space_ok_def)
      moreover have "load_fails img eh [i..<n] segs (card (free_ppns s)) e"
        using 2(5) overlap_here [of sg] unfolding load_fails_def la by auto
      ultimately show ?case by auto
    qed
  qed
qed

section \<open>Loading\<close>

lemma fold_max_Max: "xs \<noteq> [] \<Longrightarrow> fold max xs (0::nat) = Max (set xs)"
  by (cases xs) (simp_all add: Max.set_eq_fold [symmetric])

lemma load_run:
  assumes inv: "buddy_inv s" "managed s \<subseteq> {..<2 ^ 44}" and k: "kernel_ok K kern s" and img: "length img < 2 ^ 63"
    and eh: "read_header img = Some (Inr eh)" "eh_phoff eh < 2 ^ 64" "eh_phentsize eh < 2 ^ 16" "eh_phnum eh < 2 ^ 16"
    and new: "space_new s = (Some sp, s1)"
  obtains res sp' s' s'' where "load (Some kern) img s = (case res of
        Inl e \<Rightarrow> Some (Inl e, s'')
      | Inr brk \<Rightarrow> if brk = 0 then Some (Inl BadSegment, s'') else Some (Inr \<lparr>li_space = sp', li_entry = eh_entry eh, li_brk = brk\<rparr>, s'))"
    "case res of
       Inr brk' \<Rightarrow> space_ok K sp' s' \<and> umem sp' s' = elf_view img (elf_segments img eh) \<and>
         brk' = fold max (map seg_end (elf_segments img eh)) 0 \<and>
         (\<forall>sg\<in>set (elf_segments img eh). seg_error img sg = None \<and> 0 < seg_end sg)
     | Inl e \<Rightarrow> load_fails img eh [0..<eh_phnum eh] [] (card (free_ppns s) - 1) e"
    "footprint {} s s'" "free_ppns s' \<union> space_owned sp' = free_ppns s" "footprint {} s s''" "free_ppns s'' = free_ppns s"
proof -
  let ?s2 = "pt_share_upper_half (as_table kern) (as_table sp) s1"
  note n = space_new_facts [OF inv new] and cr = space_create_ok [OF inv k new]
  have "umem sp ?s2 x = None" for x using umem_none [OF cr(2)] n(4) by simp
  then have u: "umem sp ?s2 = elf_view img []" by (simp add: elf_view_def fun_eq_iff)
  have card: "card (free_ppns ?s2) = card (free_ppns s) - 1"
    using card_Suc_Diff1 [OF finite_free [OF inv(1)] n(6)] cr(5) unfolding n(5) by simp
  obtain res sp' s' where l: "load_loop img eh [0..<eh_phnum eh] 0 sp ?s2 = Some (res, sp', s')" "loop_ok K sp ?s2 sp' s'"
    "case res of
       Inr brk' \<Rightarrow> space_ok K sp' s' \<and> umem sp' s' = elf_view img ([] @ elf_segments img eh) \<and>
         brk' = fold max (map seg_end (elf_segments img eh)) 0 \<and>
         (\<forall>sg\<in>set (elf_segments img eh). seg_error img sg = None \<and> 0 < seg_end sg)
     | Inl e \<Rightarrow> load_fails img eh [0..<eh_phnum eh] [] (card (free_ppns ?s2)) e"
    using load_loop_ok [OF eh(2,3) img _ _ _ cr(2) u, of 0 "eh_phnum eh" 0] eh(4) by auto
  have free: "free_ppns s' \<union> space_owned sp' = free_ppns s" using l(2) cr(5,6) unfolding loop_ok_def by blast
  have "footprint (space_owned sp) ?s2 s'" using l(2) by (simp add: loop_ok_def)
  then have fp: "footprint {} s s'" by (rule footprint_trans [OF cr(4)]) (use cr(6) free_allocator [of s] in blast)
  have sf: "space_frames K (as_table sp') (pages_of (as_regions sp')) s'" using l(2) by (simp add: loop_ok_def)
  obtain s'' where d: "space_drop sp' s' = Some s''" "footprint (space_owned sp') s' s''" "free_ppns s'' = free_ppns s' \<union> space_owned sp'"
    by (rule space_drop_frames [OF sf]) (use l(2) in \<open>auto simp: loop_ok_def region_ok_def\<close>)
  have fp'': "footprint {} s s''" by (rule footprint_trans [OF fp d(2)]) (use free free_allocator [of s] in blast)
  have run: "load (Some kern) img s = (case res of
      Inl e \<Rightarrow> Some (Inl e, s'')
    | Inr brk \<Rightarrow> if brk = 0 then Some (Inl BadSegment, s'') else Some (Inr \<lparr>li_space = sp', li_entry = eh_entry eh, li_brk = brk\<rparr>, s'))"
    using eh(1) new cr(1) l(1) d(1) by (simp add: load_def split: sum.split)
  show thesis using that [OF run l(3) [unfolded card append_Nil] fp free fp''] d(3) free by simp
qed

lemma load_view:
  assumes k: "kernel_ok K kern s" and img: "length img < 2 ^ 63"
  obtains (failed) e s' where "load (Some kern) img s = Some (Inl e, s')" "footprint {} s s'" "free_ppns s' = free_ppns s"
      "read_header img = Some (Inl e) \<or> (\<exists>eh. read_header img = Some (Inr eh) \<and>
         (load_fails img eh [0..<eh_phnum eh] [] (card (free_ppns s) - 1) e \<or> e = BadSegment \<and> elf_segments img eh = []))"
  | (loaded) li s' eh where "load (Some kern) img s = Some (Inr li, s')" "footprint {} s s'" "read_header img = Some (Inr eh)"
      "li_entry li = eh_entry eh" "space_ok K (li_space li) s'" "umem (li_space li) s' = elf_view img (elf_segments img eh)"
      "elf_segments img eh \<noteq> []" "\<forall>sg\<in>set (elf_segments img eh). seg_error img sg = None"
      "li_brk li = Max (seg_end ` set (elf_segments img eh))"
      "space_owned (li_space li) \<subseteq> free_ppns s" "free_ppns s' = free_ppns s - space_owned (li_space li)"
proof -
  have inv: "buddy_inv s" and m: "managed s \<subseteq> {..<2 ^ 44}" using k pt_okD(1,2) [of "{}" "as_table kern" s] by (auto simp: kernel_ok_def)
  show thesis
  proof (rule read_header_total [of img], goal_cases)
    case (1 e)
    then show thesis using failed [of e s] inv by (simp add: load_def)
  next
    case (2 eh)
    obtain c s1 where new: "space_new s = (c, s1)" by fastforce
    show thesis
    proof (cases c)
      case None
      then have s1: "s1 = s" "free_ppns s = {}"
        using new buddy.alloc_none [OF inv frame_alloc_none [of s s1]] by (auto simp: space_new_def pt_new_def split: prod.splits option.splits)
      then have "load_fails img eh [0..<eh_phnum eh] [] (card (free_ppns s) - 1) LoadOutOfMemory" by (simp add: load_fails_def)
      then show thesis using failed [of LoadOutOfMemory s] 2(1) new None inv s1 by (simp add: load_def)
    next
      case (Some sp)
      obtain res sp' s' s'' where run: "load (Some kern) img s = (case res of
          Inl e \<Rightarrow> Some (Inl e, s'')
        | Inr brk \<Rightarrow> if brk = 0 then Some (Inl BadSegment, s'') else Some (Inr \<lparr>li_space = sp', li_entry = eh_entry eh, li_brk = brk\<rparr>, s'))"
        and l: "case res of
           Inr brk' \<Rightarrow> space_ok K sp' s' \<and> umem sp' s' = elf_view img (elf_segments img eh) \<and>
             brk' = fold max (map seg_end (elf_segments img eh)) 0 \<and>
             (\<forall>sg\<in>set (elf_segments img eh). seg_error img sg = None \<and> 0 < seg_end sg)
         | Inl e \<Rightarrow> load_fails img eh [0..<eh_phnum eh] [] (card (free_ppns s) - 1) e"
        and fp: "footprint {} s s'" and free: "free_ppns s' \<union> space_owned sp' = free_ppns s"
        and fp'': "footprint {} s s''" and free'': "free_ppns s'' = free_ppns s"
        by (rule load_run [OF inv m k img 2 new [unfolded Some]])
      show thesis
      proof (cases res)
        case (Inl e)
        then show thesis using failed [OF _ fp''] run l 2(1) free'' by auto
      next
        case (Inr brk)
        show thesis
        proof (cases "elf_segments img eh = []")
          case True
          then show thesis using failed [OF _ fp''] run l 2(1) free'' Inr by auto
        next
          case False
          have "brk = Max (seg_end ` set (elf_segments img eh))" using l Inr False fold_max_Max [of "map seg_end (elf_segments img eh)"] by simp
          moreover have "0 < Max (seg_end ` set (elf_segments img eh))" using l Inr False by (simp add: Max_gr_iff ex_in_conv [symmetric]) (metis list.set_sel(1))
          moreover have "free_ppns s' \<inter> space_owned sp' = {}" using l Inr space_owned_use(1) [of K sp' s'] by auto
          ultimately show thesis using loaded [OF _ fp 2(1)] run l free Inr False by auto
        qed
      qed
    qed
  qed
qed

section \<open>Properties\<close>

text \<open>
  C27: for every sequence of bytes the loader returns without a panic. On success the
  new space holds exactly the loadable segments of the image at their addresses with their
  permissions, the bytes beyond the file size zero, all in frames that were free before;
  \<^verbatim>\<open>brk\<close> is the end of the highest segment. A failure has the reason the error names, where
  \<open>OutOfMemory\<close> also stands for segments that share a page, and returns all memory. The kernel
  and every other space are as before.
\<close>

theorem load_correct:
  assumes k: "kernel_ok K kern s" and img: "length img < 2 ^ 63"
  shows "\<exists>res s'. load (Some kern) img s = Some (res, s') \<and> kernel_ok K kern s' \<and>
    (\<forall>sp. space_ok K sp s \<longrightarrow> space_ok K sp s' \<and> umem sp s' = umem sp s) \<and>
    (case res of
       Inr li \<Rightarrow> \<exists>eh. read_header img = Some (Inr eh) \<and> li_entry li = eh_entry eh \<and> elf_segments img eh \<noteq> [] \<and>
         (\<forall>sg\<in>set (elf_segments img eh). seg_error img sg = None) \<and> li_brk li = Max (seg_end ` set (elf_segments img eh)) \<and>
         space_ok K (li_space li) s' \<and> umem (li_space li) s' = elf_view img (elf_segments img eh) \<and>
         space_owned (li_space li) \<subseteq> free_ppns s \<and> free_ppns s' = free_ppns s - space_owned (li_space li)
     | Inl e \<Rightarrow> free_ppns s' = free_ppns s \<and>
         (read_header img = Some (Inl e) \<or> (\<exists>eh. read_header img = Some (Inr eh) \<and>
           (load_fails img eh [0..<eh_phnum eh] [] (card (free_ppns s) - 1) e \<or> e = BadSegment \<and> elf_segments img eh = []))))"
proof -
  have keep: "kernel_ok K kern s' \<and> (\<forall>sp. space_ok K sp s \<longrightarrow> space_ok K sp s' \<and> umem sp s' = umem sp s)" if "footprint {} s s'" for s'
    using kernel_foreign(1) [OF k that] umem_foreign [OF _ that] by simp
  show ?thesis
  proof (rule load_view [OF k img], goal_cases)
    case (1 e s')
    then show ?case using keep by auto
  next
    case (2 li s' eh)
    then show ?case using keep by auto
  qed
qed

text \<open>An image of one segment: four bytes at \<open>0x10078\<close> and zeros up to \<open>0x13000\<close>.\<close>

definition demo_elf :: "u8 list" where
  "demo_elf = [0x7f, 0x45, 0x4c, 0x46, 2, 1, 1, 0, 0, 0, 0, 0, 0, 0, 0, 0,
     2, 0, 243, 0, 1, 0, 0, 0, 0x78, 0, 1, 0, 0, 0, 0, 0,
     64, 0, 0, 0, 0, 0, 0, 0, 0, 0, 0, 0, 0, 0, 0, 0,
     0, 0, 0, 0, 64, 0, 56, 0, 1, 0, 0, 0, 0, 0, 0, 0,
     1, 0, 0, 0, 5, 0, 0, 0, 120, 0, 0, 0, 0, 0, 0, 0,
     0x78, 0, 1, 0, 0, 0, 0, 0, 0x78, 0, 1, 0, 0, 0, 0, 0,
     4, 0, 0, 0, 0, 0, 0, 0, 0, 0x20, 0, 0, 0, 0, 0, 0,
     0, 0x10, 0, 0, 0, 0, 0, 0, 0x13, 0x05, 0xa0, 0x02]"

lemma demo_elf_header:
  "read_header demo_elf = Some (Inr \<lparr>eh_entry = 0x10078, eh_phoff = 64, eh_phentsize = 56, eh_phnum = 1\<rparr>)"
  by (simp add: read_header_def demo_elf_def read_int_def checked_add_def try_res_def ELF_MAGIC_def)

lemma demo_elf_segment:
  "elf_segments demo_elf \<lparr>eh_entry = 0x10078, eh_phoff = 64, eh_phentsize = 56, eh_phnum = 1\<rparr> =
     [\<lparr>sg_flags = 5, sg_offset = 120, sg_vaddr = 0x10078, sg_filesz = 4, sg_memsz = 0x2000\<rparr>]"
  by (simp add: read_segment_def demo_elf_def read_int_def checked_add_def checked_mul_def try_res_def)

lemma demo_elf_facts:
  defines "sg \<equiv> \<lparr>sg_flags = 5, sg_offset = 120, sg_vaddr = 0x10078, sg_filesz = 4, sg_memsz = 0x2000\<rparr>"
  shows "seg_error demo_elf sg = None" "seg_end sg = 0x13000" "seg_pages sg = 3" "in_seg sg x \<longleftrightarrow> 0x10000 \<le> x \<and> x < 0x13000"
    "seg_byte demo_elf sg 0x1007b = 0x02" "seg_byte demo_elf sg 0x1007c = 0"
    "segment_perm (sg_flags sg) = FL_USER OR FL_READ OR FL_EXEC"
  by (simp_all add: sg_def seg_error_def seg_end_def seg_pages_def in_seg_def seg_byte_def segment_perm_def demo_elf_def
    next_multiple_of_def align_down_eq)

theorem load_correct_witness:
  "\<exists>kern s li s'. load (Some kern) demo_elf s = Some (Inr li, s') \<and> li_entry li = 0x10078 \<and> li_brk li = 0x13000 \<and>
     umem (li_space li) s' 0x1007b = Some (0x02, leaf_flags (FL_USER OR FL_READ OR FL_EXEC)) \<and>
     umem (li_space li) s' 0x1007c = Some (0, leaf_flags (FL_USER OR FL_READ OR FL_EXEC)) \<and> umem (li_space li) s' 0x13000 = None"
proof -
  let ?eh = "\<lparr>eh_entry = 0x10078, eh_phoff = 64, eh_phentsize = 56, eh_phnum = 1\<rparr>"
  obtain K kern sp s where d: "kernel_ok K kern s" "126 \<le> card (free_ppns s)" by (rule demo_space) simp
  have len: "length demo_elf < 2 ^ 63" by (simp add: demo_elf_def)
  obtain res s' where l: "load (Some kern) demo_elf s = Some (res, s')"
    "case res of
       Inr li \<Rightarrow> \<exists>eh. read_header demo_elf = Some (Inr eh) \<and> li_entry li = eh_entry eh \<and> elf_segments demo_elf eh \<noteq> [] \<and>
         (\<forall>sg\<in>set (elf_segments demo_elf eh). seg_error demo_elf sg = None) \<and> li_brk li = Max (seg_end ` set (elf_segments demo_elf eh)) \<and>
         space_ok K (li_space li) s' \<and> umem (li_space li) s' = elf_view demo_elf (elf_segments demo_elf eh) \<and>
         space_owned (li_space li) \<subseteq> free_ppns s \<and> free_ppns s' = free_ppns s - space_owned (li_space li)
     | Inl e \<Rightarrow> free_ppns s' = free_ppns s \<and>
         (read_header demo_elf = Some (Inl e) \<or> (\<exists>eh. read_header demo_elf = Some (Inr eh) \<and>
           (load_fails demo_elf eh [0..<eh_phnum eh] [] (card (free_ppns s) - 1) e \<or> e = BadSegment \<and> elf_segments demo_elf eh = [])))"
    using load_correct [OF d(1) len] by blast
  have "\<not> load_fails demo_elf ?eh [0..<eh_phnum ?eh] [] (card (free_ppns s) - 1) e" for e
  proof -
    obtain r where "read_segment demo_elf ?eh 0 = Some (Inr r)"
      using demo_elf_segment by (cases "read_segment demo_elf ?eh 0") (auto split: sum.splits)
    then show ?thesis using d(2) demo_elf_segment
      unfolding load_fails_def demo_elf_segment by (auto simp: demo_elf_facts segs_overlap_def)
  qed
  then obtain li where li: "res = Inr li" using l(2) demo_elf_header demo_elf_segment by (cases res) auto
  obtain eh where e: "read_header demo_elf = Some (Inr eh)" "li_entry li = eh_entry eh" "li_brk li = Max (seg_end ` set (elf_segments demo_elf eh))"
    "umem (li_space li) s' = elf_view demo_elf (elf_segments demo_elf eh)" using l(2) li by auto
  have "eh = ?eh" using e(1) demo_elf_header by simp
  note e' = e(2-4) [unfolded this demo_elf_segment]
  have u: "li_entry li = 0x10078" "li_brk li = 0x13000" using e'(1,2) by (simp_all add: demo_elf_facts)
  have "umem (li_space li) s' 0x1007b = Some (0x02, leaf_flags (FL_USER OR FL_READ OR FL_EXEC))"
    "umem (li_space li) s' 0x1007c = Some (0, leaf_flags (FL_USER OR FL_READ OR FL_EXEC))" "umem (li_space li) s' 0x13000 = None"
    unfolding e'(3) by (simp_all add: elf_view_def demo_elf_facts segment_perm_def)
  then show ?thesis using l(1) li u by blast
qed

end
