(* ===== verification/Process_Args.thy ===== *)
theory Process_Args
  imports Process Loader_Correct
begin

text \<open>
  The initial stack of a process: the arguments are where \<^verbatim>\<open>main\<close> looks for them.
\<close>

unbundle bit_operations_syntax

section \<open>Copies that succeed\<close>

text \<open>What an operation on the memory of one space keeps.\<close>

definition mem_op :: "phys_page_num set \<Rightarrow> address_space \<Rightarrow> mm_state \<Rightarrow> mm_state \<Rightarrow> bool" where
  "mem_op K sp s s' \<longleftrightarrow> space_ok K sp s' \<and> footprint (space_owned sp) s s' \<and> free_ppns s' = free_ppns s \<and>
     user_writable sp s' = user_writable sp s \<and> (\<forall>x. umem sp s' x = None \<longleftrightarrow> umem sp s x = None) \<and>
     (\<forall>x. map_option snd (umem sp s' x) = map_option snd (umem sp s x))"

lemma mem_op_refl: "space_ok K sp s \<Longrightarrow> mem_op K sp s s"
  using space_core_inv by (auto simp: mem_op_def space_ok_def)

lemma mem_op_trans: "mem_op K sp s s1 \<Longrightarrow> mem_op K sp s1 s2 \<Longrightarrow> mem_op K sp s s2"
  unfolding mem_op_def using footprint_trans [OF _ _ Un_upper1] by auto

lemma mem_op_mapped: "mem_op K sp s s' \<Longrightarrow> direct_mapped s \<Longrightarrow> direct_mapped s'"
  by (simp add: mem_op_def direct_mapped_def footprint_def)

lemma copy_to_user_some:
  assumes ok: "space_ok K sp s" "direct_mapped s" and w: "\<And>i. i < length bs \<Longrightarrow> user_writable sp s (a + i)"
  obtains s' where "copy_to_user sp a bs s = Some (Some (), s')" "mem_op K sp s s'" "umem sp s' = mem_write a bs (umem sp s)"
proof -
  obtain r s' where c: "copy_to_user sp a bs s = Some (r, s')" "copied_to K sp a bs s r s'"
    using copy_to_loop_view [OF ok, of 0 bs a] by (auto simp: copy_to_user_def)
  have n: "writable_prefix (user_writable sp s) a (length bs) = length bs" using w by (simp add: writable_prefix_all)
  have u: "umem sp s' = mem_write a bs (umem sp s)" using c(2) n by (simp add: copied_to_def Let_def)
  have "page_ppn ` set (pages_of (as_regions sp)) \<subseteq> space_owned sp" by (auto simp: space_owned_def owned_def)
  then have "footprint (space_owned sp) s s'" using c(2) footprint_mono by (auto simp: copied_to_def)
  moreover have "umem sp s' x = None \<longleftrightarrow> umem sp s x = None" "map_option snd (umem sp s' x) = map_option snd (umem sp s x)" for x
    by (simp_all add: u mem_write_def option.map_comp comp_def case_prod_beta)
  ultimately have "mem_op K sp s s'" using c(2) user_writable_write [OF u] by (simp add: mem_op_def copied_to_def)
  then show thesis using that [OF _ _ u] c n by (simp add: copied_to_def Let_def)
qed

lemma user_bytes_written:
  assumes "umem sp s' = mem_write a bs m" "\<And>i. i < length bs \<Longrightarrow> m (a + i) \<noteq> None"
  shows "user_bytes sp s' a (length bs) = Some bs"
proof -
  have "\<exists>fl. umem sp s' (a + i) = Some (bs ! i, fl)" if "i < length bs" for i
    using that assms(2) [OF that] by (auto simp: assms(1) mem_write_def)
  then show ?thesis by (force simp: user_bytes_def intro!: nth_equalityI)
qed

lemma user_bytes_cong:
  "(\<And>i. i < n \<Longrightarrow> umem sp s' (a + i) = umem sp s (a + i)) \<Longrightarrow> user_bytes sp s' a n = user_bytes sp s a n"
  by (simp add: user_bytes_def)

lemma user_writable_mapped: "user_writable sp s x \<Longrightarrow> umem sp s x \<noteq> None"
  by (auto simp: user_writable_def split: option.splits)

section \<open>The strings\<close>

fun strings_size :: "rust_string list \<Rightarrow> nat" where
  "strings_size [] = 0"
| "strings_size (a # as) = length a + 8 + strings_size as"

lemma align8: "x < 2 ^ 64 \<Longrightarrow> x AND usize_not 0x7 = x - x mod 8" and align16: "x < 2 ^ 64 \<Longrightarrow> x AND usize_not 0xf = x - x mod 16"
  using nat_and_not_mask [of x 3] nat_and_not_mask [of x 4] by simp_all

lemma push_strings_view:
  assumes "space_ok K sp s" "direct_mapped s" "hi < 2 ^ 64" "strings_size args \<le> hi"
    and "\<And>x. hi - strings_size args \<le> x \<Longrightarrow> x < hi \<Longrightarrow> user_writable sp s x"
  shows "\<exists>sp' ptrs s'. push_strings sp args hi ps s = Some (Some (sp', ps @ ptrs), s') \<and> length ptrs = length args \<and>
    hi - strings_size args \<le> sp' \<and> sp' \<le> hi \<and> mem_op K sp s s' \<and>
    (\<forall>i<length args. sp' \<le> ptrs ! i \<and> ptrs ! i + length (args ! i) < hi \<and>
       user_bytes sp s' (ptrs ! i) (length (args ! i) + 1) = Some (args ! i @ [0])) \<and>
    (\<forall>x. x < sp' \<or> hi \<le> x \<longrightarrow> umem sp s' x = umem sp s x)"
  using assms
proof (induction args arbitrary: hi ps s)
  case Nil
  then show ?case using mem_op_refl by auto
next
  case (Cons arg args)
  define sp1 where "sp1 = hi - (length arg + 1)"
  define sp2 where "sp2 = sp1 - sp1 mod 8"
  have sz: "length arg + 8 + strings_size args \<le> hi" "length arg + 1 \<le> hi" using Cons.prems(4) by simp_all
  have "sp1 mod 8 < 8" by simp
  then have b: "hi - (length arg + 8) \<le> sp2" "sp2 + length arg < hi" "sp2 < 2 ^ 64" "sp2 \<le> hi"
    using sz Cons.prems(3) unfolding sp2_def sp1_def by linarith+
  have w: "user_writable sp s (sp2 + i)" if "i < length arg + 1" for i
    by (rule Cons.prems(5)) (use b(1,2) that sz in simp_all)
  obtain s1 where s1: "copy_to_user sp sp2 arg s = Some (Some (), s1)" "mem_op K sp s s1" "umem sp s1 = mem_write sp2 arg (umem sp s)"
    by (rule copy_to_user_some [OF Cons.prems(1,2), of arg sp2]) (use w in auto)
  have "user_writable sp s1 (sp2 + length arg + i)" if "i < length [0 :: u8]" for i
    using s1(2) w [of "length arg"] that by (simp add: mem_op_def)
  then obtain s2 where s2: "copy_to_user sp (sp2 + length arg) [0] s1 = Some (Some (), s2)" "mem_op K sp s1 s2"
    "umem sp s2 = mem_write (sp2 + length arg) [0] (umem sp s1)"
    using copy_to_user_some [OF _ mem_op_mapped [OF s1(2) Cons.prems(2)], of K sp "[0]" "sp2 + length arg"] s1(2) by (auto simp: mem_op_def)
  have op: "mem_op K sp s s2" by (rule mem_op_trans [OF s1(2) s2(2)])
  have u2: "umem sp s2 = mem_write sp2 (arg @ [0]) (umem sp s)" by (simp add: s2(3) s1(3) mem_write_append)
  have here: "user_bytes sp s2 sp2 (length arg + 1) = Some (arg @ [0])"
    using user_bytes_written [OF u2] w user_writable_mapped by fastforce
  have rest: "space_ok K sp s2" "direct_mapped s2" "strings_size args \<le> sp2"
    "\<And>x. sp2 - strings_size args \<le> x \<Longrightarrow> x < sp2 \<Longrightarrow> user_writable sp s2 x"
    using op mem_op_mapped [OF op Cons.prems(2)] sz b Cons.prems(5) by (auto simp: mem_op_def)
  obtain sp' ptrs s' where r: "push_strings sp args sp2 (ps @ [sp2]) s2 = Some (Some (sp', (ps @ [sp2]) @ ptrs), s')" "length ptrs = length args"
    "sp2 - strings_size args \<le> sp'" "sp' \<le> sp2" "mem_op K sp s2 s'"
    "\<forall>i<length args. sp' \<le> ptrs ! i \<and> ptrs ! i + length (args ! i) < sp2 \<and>
       user_bytes sp s' (ptrs ! i) (length (args ! i) + 1) = Some (args ! i @ [0])"
    "\<forall>x. x < sp' \<or> sp2 \<le> x \<longrightarrow> umem sp s' x = umem sp s2 x"
    using Cons.IH [OF rest(1,2) b(3) rest(3,4), of "ps @ [sp2]"] by blast
  have run: "push_strings sp (arg # args) hi ps s = Some (Some (sp', ps @ sp2 # ptrs), s')"
    using r(1) s1(1) s2(1) sz(2) b(2,3) Cons.prems(3) align8 [of sp1]
    by (simp add: checked_sub_def checked_add_def Let_def sp1_def sp2_def)
  have "user_bytes sp s' sp2 (length arg + 1) = Some (arg @ [0])"
    using here user_bytes_cong [of "length arg + 1" sp s' sp2 s2] r(7) by simp
  then have each: "\<forall>i<length (arg # args). sp' \<le> (sp2 # ptrs) ! i \<and> (sp2 # ptrs) ! i + length ((arg # args) ! i) < hi \<and>
       user_bytes sp s' ((sp2 # ptrs) ! i) (length ((arg # args) ! i) + 1) = Some ((arg # args) ! i @ [0])"
    using r(4,6) b(2) by (auto simp: less_Suc_eq_0_disj)
  have "umem sp s' x = umem sp s x" if "x < sp' \<or> hi \<le> x" for x
    using r(4,7) that b(2) by (auto simp: u2 mem_write_def)
  then show ?case using run r(2,3,4) each mem_op_trans [OF op r(5)] b sz by (intro exI [of _ sp'] exI [of _ "sp2 # ptrs"] exI [of _ s']) simp
qed

section \<open>The pointers\<close>

lemma to_le_bytes_length [simp]: "length (to_le_bytes k n) = k"
  by (induction k arbitrary: n) simp_all

lemma from_to_le_bytes: "n < 256 ^ k \<Longrightarrow> from_le_bytes (to_le_bytes k n) = n"
proof (induction k arbitrary: n)
  case (Suc k)
  have "unat (word_of_nat n :: u8) = n mod 256" by (simp add: unat_of_nat)
  moreover have "n div 256 < 256 ^ k" using Suc.prems by (simp add: div_less_iff_less_mult mult.commute)
  ultimately show ?case using Suc.IH [of "n div 256"] by simp
qed simp

abbreviation pointer_bytes :: "usize list \<Rightarrow> u8 list" where
  "pointer_bytes ps \<equiv> concat (map (to_le_bytes 8) ps)"

lemma pointer_bytes_length [simp]: "length (pointer_bytes ps) = 8 * length ps"
  by (induction ps) simp_all

lemma push_pointers_view:
  assumes "space_ok K sp s" "direct_mapped s" "argv + (i + length ps) * 8 < 2 ^ 64"
    and "\<And>x. argv + i * 8 \<le> x \<Longrightarrow> x < argv + (i + length ps) * 8 \<Longrightarrow> user_writable sp s x"
  shows "\<exists>s'. push_pointers sp argv i ps s = Some (Some (), s') \<and> mem_op K sp s s' \<and>
    umem sp s' = mem_write (argv + i * 8) (pointer_bytes ps) (umem sp s)"
  using assms
proof (induction ps arbitrary: i s)
  case Nil
  then show ?case using mem_op_refl by auto
next
  case (Cons p ps)
  obtain s1 where s1: "copy_to_user sp (argv + i * 8) (to_le_bytes 8 p) s = Some (Some (), s1)" "mem_op K sp s s1"
    "umem sp s1 = mem_write (argv + i * 8) (to_le_bytes 8 p) (umem sp s)"
    by (rule copy_to_user_some [OF Cons.prems(1,2)]) (use Cons.prems(4) in auto)
  have "space_ok K sp s1" "direct_mapped s1" "argv + (i + 1 + length ps) * 8 < 2 ^ 64"
    "\<And>x. argv + (i + 1) * 8 \<le> x \<Longrightarrow> x < argv + (i + 1 + length ps) * 8 \<Longrightarrow> user_writable sp s1 x"
    using s1(2) mem_op_mapped [OF s1(2) Cons.prems(2)] Cons.prems(3,4) by (auto simp: mem_op_def)
  from Cons.IH [OF this] obtain s' where s': "push_pointers sp argv (i + 1) ps s1 = Some (Some (), s')" "mem_op K sp s1 s'"
    "umem sp s' = mem_write (argv + (i + 1) * 8) (pointer_bytes ps) (umem sp s1)" by blast
  have "umem sp s' = mem_write (argv + i * 8) (pointer_bytes (p # ps)) (umem sp s)"
    using s'(3) mem_write_append [of "argv + i * 8" "to_le_bytes 8 p" "pointer_bytes ps" "umem sp s"] s1(3) by (simp add: add.commute add.left_commute)
  moreover have "checked_add argv (i * 8) = Some (argv + i * 8)" using Cons.prems(3) by (simp add: checked_add_def)
  ultimately show ?case using s1(1) s'(1) mem_op_trans [OF s1(2) s'(2)] by simp
qed

section \<open>The whole stack\<close>

definition args_size :: "rust_string list \<Rightarrow> nat" where
  "args_size args = strings_size args + (length args + 1) * 8 + 15"

text \<open>\<open>argv\<close> is a NULL-terminated vector of pointers to NUL-terminated strings, all of it between \<open>argv\<close> and \<open>hi\<close>.\<close>

definition argv_holds :: "address_space \<Rightarrow> mm_state \<Rightarrow> usize \<Rightarrow> usize \<Rightarrow> rust_string list \<Rightarrow> bool" where
  "argv_holds sp s argv hi args \<longleftrightarrow> (\<exists>ptrs. length ptrs = length args \<and> argv + (length args + 1) * 8 \<le> hi \<and>
     user_bytes sp s argv ((length args + 1) * 8) = Some (pointer_bytes (ptrs @ [0])) \<and>
     (\<forall>i<length args. argv \<le> ptrs ! i \<and> ptrs ! i + length (args ! i) < hi \<and> user_bytes sp s (ptrs ! i) (length (args ! i) + 1) = Some (args ! i @ [0])))"

lemma push_args_view:
  assumes ok: "space_ok K sp s" "direct_mapped s" and hi: "hi < 2 ^ 64" "args_size args \<le> hi"
    and w: "\<And>x. hi - args_size args \<le> x \<Longrightarrow> x < hi \<Longrightarrow> user_writable sp s x"
  obtains argv s' where "push_args sp hi args s = Some (Some (argv, length args, argv), s')" "mem_op K sp s s'"
    "argv mod 16 = 0" "hi - args_size args \<le> argv" "argv < hi" "argv_holds sp s' argv hi args"
    "\<forall>x. x < argv \<or> hi \<le> x \<longrightarrow> umem sp s' x = umem sp s x"
proof -
  let ?n = "length args"
  have sz: "strings_size args + (?n + 1) * 8 + 15 \<le> hi" using hi(2) by (simp add: args_size_def)
  have "strings_size args \<le> hi" "\<And>x. hi - strings_size args \<le> x \<Longrightarrow> x < hi \<Longrightarrow> user_writable sp s x"
    using sz w by (auto simp: args_size_def)
  from push_strings_view [OF ok hi(1) this, of "[]"] obtain sp1 ptrs s1 where s1:
    "push_strings sp args hi [] s = Some (Some (sp1, ptrs), s1)" "length ptrs = ?n" "hi - strings_size args \<le> sp1" "sp1 \<le> hi" "mem_op K sp s s1"
    and str: "\<forall>i<?n. sp1 \<le> ptrs ! i \<and> ptrs ! i + length (args ! i) < hi \<and> user_bytes sp s1 (ptrs ! i) (length (args ! i) + 1) = Some (args ! i @ [0])"
    and same1: "\<forall>x. x < sp1 \<or> hi \<le> x \<longrightarrow> umem sp s1 x = umem sp s x" by auto
  define sp2 where "sp2 = sp1 - (?n + 1) * 8"
  define argv where "argv = sp2 - sp2 mod 16"
  have a1: "(?n + 1) * 8 + 15 \<le> sp1" using sz s1(3) by linarith
  have a2: "sp2 + (?n + 1) * 8 = sp1" unfolding sp2_def using a1 by linarith
  have "sp2 mod 16 < 16" by simp
  then have a3: "argv \<le> sp2" "sp2 \<le> argv + 15" unfolding argv_def by linarith+
  have b: "hi - args_size args \<le> argv" "argv + (?n + 1) * 8 \<le> sp1" "argv < hi" "sp2 < 2 ^ 64" "(?n + 1) * 8 \<le> sp1"
  proof -
    show "hi - args_size args \<le> argv" "argv + (?n + 1) * 8 \<le> sp1" using a1 a2 a3 sz s1(3,4) unfolding args_size_def by linarith+
    show "argv < hi" "(?n + 1) * 8 \<le> sp1" using a1 a2 a3 s1(4) by simp_all
    show "sp2 < 2 ^ 64" using a2 s1(4) hi(1) by simp
  qed
  have ok1: "space_ok K sp s1" "direct_mapped s1" using s1(5) mem_op_mapped [OF s1(5) ok(2)] by (simp_all add: mem_op_def)
  have w1: "user_writable sp s1 x" if "argv \<le> x" "x < argv + (?n + 1) * 8" for x
    using s1(5) w [of x] that b s1(4) by (simp add: mem_op_def)
  have "\<exists>s'. push_pointers sp argv 0 ptrs s1 = Some (Some (), s') \<and> mem_op K sp s1 s' \<and>
      umem sp s' = mem_write (argv + 0 * 8) (pointer_bytes ptrs) (umem sp s1)"
    by (rule push_pointers_view [OF ok1]) (use w1 s1(2,4) b hi(1) in auto)
  then obtain s2 where s2: "push_pointers sp argv 0 ptrs s1 = Some (Some (), s2)" "mem_op K sp s1 s2"
    "umem sp s2 = mem_write argv (pointer_bytes ptrs) (umem sp s1)" by auto
  have ok2: "space_ok K sp s2" "direct_mapped s2" using s2(2) mem_op_mapped [OF s2(2) ok1(2)] by (simp_all add: mem_op_def)
  have w2: "user_writable sp s2 (argv + ?n * 8 + i)" if "i < length (to_le_bytes 8 0)" for i
    using s2(2) w1 that by (simp add: mem_op_def)
  obtain s3 where s3: "copy_to_user sp (argv + ?n * 8) (to_le_bytes 8 0) s2 = Some (Some (), s3)" "mem_op K sp s2 s3"
    "umem sp s3 = mem_write (argv + ?n * 8) (to_le_bytes 8 0) (umem sp s2)"
    using copy_to_user_some [OF ok2, of "to_le_bytes 8 0" "argv + ?n * 8"] w2 by blast
  have u: "umem sp s3 = mem_write argv (pointer_bytes (ptrs @ [0])) (umem sp s1)"
    using mem_write_append [of argv "pointer_bytes ptrs" "to_le_bytes 8 0" "umem sp s1"] s3(3) s2(3) s1(2) by (simp add: mult.commute)
  have op: "mem_op K sp s s3" by (rule mem_op_trans [OF s1(5) mem_op_trans [OF s2(2) s3(2)]])
  have run: "push_args sp hi args s = Some (Some (argv, ?n, argv), s3)"
    using s1(1,2) s2(1) s3(1) b hi(1) align16 [of sp2] s1(4)
    by (simp add: push_args_def checked_sub_def checked_add_def Let_def argv_def sp2_def)
  have vec: "user_bytes sp s3 argv ((?n + 1) * 8) = Some (pointer_bytes (ptrs @ [0]))"
  proof -
    have len: "length (pointer_bytes (ptrs @ [0])) = (?n + 1) * 8" using s1(2) by simp
    have "umem sp s1 (argv + i) \<noteq> None" if "i < length (pointer_bytes (ptrs @ [0]))" for i
      by (rule user_writable_mapped [OF w1]) (use that len in linarith)+
    from user_bytes_written [OF u this] show ?thesis unfolding len by blast
  qed
  have out: "umem sp s3 x = umem sp s1 x" if "x < argv \<or> argv + (?n + 1) * 8 \<le> x" for x
    using that s1(2) by (auto simp: u mem_write_def)
  have "user_bytes sp s3 (ptrs ! i) (length (args ! i) + 1) = Some (args ! i @ [0])" "argv \<le> ptrs ! i" "ptrs ! i + length (args ! i) < hi" if "i < ?n" for i
    using str that out b(2) user_bytes_cong [of "length (args ! i) + 1" sp s3 "ptrs ! i" s1] by auto
  moreover have "argv + (?n + 1) * 8 \<le> hi" using b(2) s1(4) by linarith
  ultimately have h: "argv_holds sp s3 argv hi args" unfolding argv_holds_def using vec s1(2) by blast
  have same: "umem sp s3 x = umem sp s x" if "x < argv \<or> hi \<le> x" for x
    using that out [of x] same1 b s1(4) by auto
  have m: "argv mod 16 = 0" by (simp add: argv_def minus_mod_eq_mult_div)
  show thesis by (rule that [OF run op m b(1,3) h]) (use same in blast)
qed

end
