(* ===== verification/Process_Correct.thy ===== *)
theory Process_Correct
  imports Process_Args Heap_Correct
begin

text \<open>
  Creating, forking and replacing processes: each either succeeds with a sound space that
  holds what it should, or fails with all memory returned.
\<close>

unbundle bit_operations_syntax

section \<open>Kernel stacks\<close>

lemma order_for_kstack: "order_for (KERNEL_STACK_SIZE div PAGE_SIZE) = 3"
proof -
  have "order_for 8 \<le> 3" "\<not> order_for 8 \<le> 2" using order_for_le_iff [of 8] by simp_all
  then show ?thesis by simp
qed

lemma ks_new_none: "buddy_inv s \<Longrightarrow> ks_new s = (None, s1) \<Longrightarrow> s1 = s"
  unfolding ks_new_def frame_alloc_order_def using alloc_frames_none by (auto simp: Let_def split: prod.splits option.splits)

text \<open>A kernel stack that can be released: an aligned run of frames in use.\<close>

definition stack_live :: "kernel_stack \<Rightarrow> mm_state \<Rightarrow> bool" where
  "stack_live ks s \<longleftrightarrow> fr_order (ks_frames ks) = 3 \<and> 8 dvd fr_ppn (ks_frames ks) \<and>
     {fr_ppn (ks_frames ks)..<fr_ppn (ks_frames ks) + 8} \<subseteq> managed s - free_ppns s"

text \<open>A kernel stack whose canary is intact, in frames that neither the allocator nor the space uses.\<close>

definition stack_apart :: "kernel_stack \<Rightarrow> address_space \<Rightarrow> mm_state \<Rightarrow> bool" where
  "stack_apart ks sp s \<longleftrightarrow> canary_intact ks s \<and> fr_ppn (ks_frames ks) \<in> managed s \<and> fr_ppn (ks_frames ks) \<notin> allocator_frames s \<union> space_owned sp"

lemma stack_frames_aligned:
  assumes inv: "buddy_inv s" and a: "alloc_frames order s = (Some p, s')"
  shows "2 ^ order dvd p"
proof -
  obtain s1 where "buddy_alloc order s = (Some p, s1)" using a by (auto simp: alloc_frames_def split: prod.splits option.splits)
  from buddy_alloc_some [OF inv this] obtain i where i: "order \<le> MAX_ORDER" "p = b_base (fa s) + i" "valid_block (b_frames (fa s)) order i"
    by metis
  have "2 ^ MAX_ORDER dvd b_base (fa s)"
    using inv brepD(4) by (elim buddy_invE) (auto simp: layout_def)
  then have "2 ^ order dvd b_base (fa s)" by (rule dvd_trans [OF le_imp_power_dvd [OF i(1)]])
  then show ?thesis using i(3) unfolding i(2) valid_block_def by simp
qed

lemma ks_new_some:
  assumes inv: "buddy_inv s" "direct_mapped s" and ks: "ks_new s = (Some st, s1)"
  shows "footprint {} s s1" "free_ppns s1 \<subseteq> free_ppns s" "\<exists>e. ks_top st = Some e" "canary_intact st s1"
    "fr_ppn (ks_frames st) \<in> free_ppns s" "fr_ppn (ks_frames st) \<in> managed s1" "fr_ppn (ks_frames st) \<notin> allocator_frames s1"
    "stack_live st s1" "{fr_ppn (ks_frames st)..<fr_ppn (ks_frames st) + 8} \<subseteq> free_ppns s"
proof -
  obtain p s0 where a: "alloc_frames 3 s = (Some p, s0)" "st = \<lparr>ks_frames = \<lparr>fr_ppn = p, fr_order = 3\<rparr>\<rparr>"
    and s1: "s1 = set_ram (write_u64 (ks_bottom st - VIRT_OFFSET) STACK_CANARY (ram s0)) s0"
    using ks by (auto simp: ks_new_def frame_alloc_order_def order_for_kstack [simplified] Let_def split: prod.splits option.splits)
  have al: "{p..<p + 8} \<subseteq> free_ppns s" "free_ppns s0 = free_ppns s - {p..<p + 8}" "buddy_inv s0" "managed s0 = managed s"
    "meta_frames (fa s0) = meta_frames (fa s)" "same_frames (- allocator_frames s) (ram s) (ram s0)"
    using alloc_frames_some [OF inv(1) a(1)] by simp_all
  have "p + 7 \<in> free_ppns s" "p \<in> free_ppns s" using al(1) by auto
  then have m: "p + 7 \<in> managed s" "p \<in> managed s" "p \<in> allocator_frames s" using buddy.free_pool [OF inv(1)] free_allocator by blast+
  have p: "p + 8 < 2 ^ 26" using inv(2) m(1) by (auto simp: direct_mapped_def)
  have bot: "ks_bottom st = p * 4096 + VIRT_OFFSET" "ks_bottom st - VIRT_OFFSET = p * 4096"
    using p a(2) by (simp_all add: ks_bottom_def ppn_as_ptr_def push_bit_eq_mult)
  show "\<exists>e. ks_top st = Some e" using p unfolding ks_top_def bot(1) by (simp add: a(2) frame_count_def checked_add_def)
  have al0: "allocator_frames s0 \<subseteq> allocator_frames s" using al(2,5) by (auto simp: allocator_frames_def)
  have na: "p \<notin> allocator_frames s0" using allocator_managed [OF al(3), of p] m(2) al(2,4) by simp
  then have st: "same_frames (allocator_frames s0) (ram s0) (write_u64 (p * 4096) STACK_CANARY (ram s0))"
    by (auto simp: same_frames_def write_u64_def dw_frame_def)
  note b = buddy.store [OF al(3) st]
  have s1': "s1 = set_ram (write_u64 (p * 4096) STACK_CANARY (ram s0)) s0" unfolding s1 bot(2) ..
  show "free_ppns s1 \<subseteq> free_ppns s" using b al(2) unfolding s1' by auto
  have "same_frames (- allocator_frames s) (ram s) (ram s1)"
    using al(6) b m(3) unfolding s1' by (auto simp: same_frames_def write_u64_def dw_frame_def)
  then show "footprint {} s s1" using b al(4) al0 unfolding s1' footprint_def by auto
  show "fr_ppn (ks_frames st) \<in> free_ppns s" "fr_ppn (ks_frames st) \<in> managed s1" "fr_ppn (ks_frames st) \<notin> allocator_frames s1"
    using \<open>p \<in> free_ppns s\<close> m(2) na b al(4) unfolding s1' by (simp_all add: a(2))
  show "{fr_ppn (ks_frames st)..<fr_ppn (ks_frames st) + 8} \<subseteq> free_ppns s" using al(1) by (simp add: a(2))
  show "stack_live st s1" using b al(1,2,4) stack_frames_aligned [OF inv(1) a(1)] buddy.free_pool [OF inv(1)] unfolding s1' by (auto simp: a(2) stack_live_def)
  show "canary_intact st s1" using b unfolding canary_intact_def bot(2) s1' by (simp add: read_u64_def write_u64_def)
qed

section \<open>Images\<close>

text \<open>The part that \<^verbatim>\<open>new_user\<close> and \<^verbatim>\<open>exec_current\<close> share: load, stack, arguments.\<close>

lemma stack_pushed:
  assumes ok: "space_ok K sp s"
  obtains (none) sp' s1 s' where "map_user_stack sp s = Some (None, sp', s1)" "space_drop sp' s1 = Some s'"
      "footprint (space_owned sp) s s'" "free_ppns s' = free_ppns s \<union> space_owned sp"
  | (stack) sp' s' where "map_user_stack sp s = Some (Some USER_STACK_TOP, sp', s')" "space_ok K sp' s'" "footprint (space_owned sp) s s'"
      "free_ppns s' \<union> space_owned sp' = free_ppns s \<union> space_owned sp"
      "\<forall>x. umem sp' s' x = (if USER_STACK_TOP - USER_STACK_SIZE \<le> x \<and> x < USER_STACK_TOP then Some (0, leaf_flags (FL_RW OR FL_USER)) else umem sp s x)"
proof -
  define r where "r = \<lparr>r_start = USER_STACK_TOP - USER_STACK_SIZE, r_end = USER_STACK_TOP, r_backing = Framed, r_perm = FL_RW OR FL_USER, r_frames = []\<rparr>"
  have new: "region_new (USER_STACK_TOP - USER_STACK_SIZE) USER_STACK_TOP Framed (FL_RW OR FL_USER) = Some r"
    by (simp add: region_new_def align_up_eq align_down_eq next_multiple_of_def r_def)
  have r: "r_backing r = Framed" "r_frames r = []" "r_start r mod PAGE_SIZE = 0" "r_end r mod PAGE_SIZE = 0" "r_end r \<le> USER_MAX_ADDR"
    "r_perm r AND NOT FLAG_MASK = 0" "r_start r \<le> r_end r" by (simp_all add: r_def)
  show thesis
  proof (rule push_facts [OF ok r], goal_cases)
    case (1 r' sp' s')
    have "map_user_stack sp s = Some (Some USER_STACK_TOP, sp', s')" unfolding map_user_stack_def new using 1(1) by simp
    then show thesis using stack [OF _ 1(2) footprint_mono [OF 1(9) tables_of_space] 1(11)] 1(8) by (simp add: r_def)
  next
    case (2 err r' pt' s1 s2)
    let ?sp = "sp\<lparr>as_table := pt'\<rparr>"
    obtain s' where d: "space_drop ?sp s2 = Some s'" "footprint (space_owned ?sp) s2 s'" "free_ppns s' = free_ppns s2 \<union> space_owned ?sp"
      by (rule space_drop_frames [of K ?sp s2]) (use 2(3) ok in \<open>auto simp: space_ok_def region_ok_def\<close>)
    have own: "free_ppns s2 \<union> space_owned ?sp = free_ppns s \<union> space_owned sp" using 2(4) by (simp add: space_owned_def)
    have "footprint (space_owned sp) s s'"
      by (rule footprint_trans [OF footprint_mono [OF 2(2) tables_of_space] d(2)]) (use own free_allocator [of s] in blast)
    moreover have "map_user_stack sp s = Some (None, ?sp, s2)" unfolding map_user_stack_def new using 2(1) by simp
    ultimately show thesis using none [OF _ d(1)] d(3) own by simp
  qed
qed


lemma image_built:
  assumes k: "kernel_ok K kern s" and dm: "direct_mapped s" and img: "length img < 2 ^ 63" and args: "args_size args \<le> USER_STACK_SIZE"
  obtains (bad) e s' where "load (Some kern) img s = Some (Inl e, s')" "footprint {} s s'" "free_ppns s' = free_ppns s"
  | (nostack) li s1 sp s2 s' where "load (Some kern) img s = Some (Inr li, s1)" "map_user_stack (li_space li) s1 = Some (None, sp, s2)"
      "space_drop sp s2 = Some s'" "footprint {} s s'" "free_ppns s' = free_ppns s"
  | (built) li s1 sp s2 s' eh argv where "load (Some kern) img s = Some (Inr li, s1)" "map_user_stack (li_space li) s1 = Some (Some USER_STACK_TOP, sp, s2)"
      "push_args sp USER_STACK_TOP args s2 = Some (Some (argv, length args, argv), s')" "footprint {} s s'"
      "space_ok K sp s'" "space_owned sp \<subseteq> free_ppns s" "free_ppns s' = free_ppns s - space_owned sp"
      "read_header img = Some (Inr eh)" "li_entry li = eh_entry eh" "li_brk li = Max (seg_end ` set (elf_segments img eh))"
      "\<forall>x. x < USER_STACK_TOP - USER_STACK_SIZE \<longrightarrow> umem sp s' x = elf_view img (elf_segments img eh) x"
      "argv_holds sp s' argv USER_STACK_TOP args" "argv mod 16 = 0" "argv < USER_STACK_TOP" "USER_STACK_TOP - USER_STACK_SIZE \<le> argv"
      "\<forall>x. USER_STACK_TOP - USER_STACK_SIZE \<le> x \<and> x < USER_STACK_TOP \<longrightarrow> map_option snd (umem sp s' x) = Some (leaf_flags (FL_RW OR FL_USER))"
proof -
  show thesis
  proof (rule load_view [OF k img], goal_cases)
    case (1 e s')
    then show thesis using bad by blast
  next
    case (2 li s1 eh)
    have sub1: "space_owned (li_space li) \<subseteq> allocator_frames s" "free_ppns s1 \<union> space_owned (li_space li) = free_ppns s"
      using 2(10,11) free_allocator [of s] by blast+
    show thesis
    proof (rule stack_pushed [OF 2(5)], goal_cases)
      case (1 sp s2 s')
      have "footprint {} s s'" by (rule footprint_trans [OF 2(2) 1(3)]) (use sub1(1) in simp)
      then show thesis using nostack [OF 2(1) 1(1,2)] 1(4) sub1(2) by simp
    next
      case (2 sp s2)
      note L = \<open>load (Some kern) img s = Some (Inr li, s1)\<close>
      have fp2: "footprint {} s s2" by (rule footprint_trans [OF _ 2(3)]) (use sub1(1) \<open>footprint {} s s1\<close> in simp_all)
      have dm2: "direct_mapped s2" using dm fp2 by (simp add: direct_mapped_def footprint_def)
      have w: "user_writable sp s2 x" if "USER_STACK_TOP - args_size args \<le> x" "x < USER_STACK_TOP" for x
      proof -
        have "USER_STACK_TOP - USER_STACK_SIZE \<le> x" using that(1) args by linarith
        then show ?thesis using 2(5) that(2) by (simp add: user_writable_def fl_contains_def)
      qed
      obtain argv s' where a: "push_args sp USER_STACK_TOP args s2 = Some (Some (argv, length args, argv), s')" "mem_op K sp s2 s'"
        "argv mod 16 = 0" "USER_STACK_TOP - args_size args \<le> argv" "argv < USER_STACK_TOP" "argv_holds sp s' argv USER_STACK_TOP args"
        "\<forall>x. x < argv \<or> USER_STACK_TOP \<le> x \<longrightarrow> umem sp s' x = umem sp s2 x"
        by (rule push_args_view [OF 2(2) dm2, of USER_STACK_TOP args]) (use w args in auto)
      have own: "space_owned sp \<subseteq> free_ppns s" "free_ppns s2 = free_ppns s - space_owned sp"
        using 2(4) sub1(2) space_owned_use(1) [OF 2(2)] by blast+
      have "footprint (space_owned sp) s2 s'" using a(2) by (simp add: mem_op_def)
      then have fp: "footprint {} s s'" by (rule footprint_trans [OF fp2]) (use own(1) free_allocator [of s] in blast)
      have "USER_STACK_TOP - USER_STACK_SIZE \<le> argv" using a(4) args by linarith
      moreover have "map_option snd (umem sp s' x) = Some (leaf_flags (FL_RW OR FL_USER))" if "USER_STACK_TOP - USER_STACK_SIZE \<le> x" "x < USER_STACK_TOP" for x
        using that 2(5) a(2) by (simp add: mem_op_def)
      moreover have "umem sp s' x = elf_view img (elf_segments img eh) x" if "x < USER_STACK_TOP - USER_STACK_SIZE" for x
      proof -
        have "x < argv" using a(4) that args by linarith
        then show ?thesis using a(7) that 2(5) \<open>umem (li_space li) s1 = elf_view img (elf_segments img eh)\<close> by simp
      qed
      ultimately show thesis using built [OF L 2(1) a(1) fp _ own(1)] a own(2) \<open>read_header img = Some (Inr eh)\<close> \<open>li_entry li = eh_entry eh\<close>
          \<open>li_brk li = Max (seg_end ` set (elf_segments img eh))\<close> by (simp add: mem_op_def)
    qed
  qed
qed

section \<open>Processes\<close>

text \<open>A process \<open>p\<close> with the space \<open>sp\<close>, in a sound kernel.\<close>

definition proc_ok :: "phys_page_num set \<Rightarrow> address_space \<Rightarrow> pid \<Rightarrow> task \<Rightarrow> address_space \<Rightarrow> kstate \<Rightarrow> bool" where
  "proc_ok K kern p t sp k \<longleftrightarrow> k_space k = Some kern \<and> kernel_ok K kern (k_mm k) \<and> direct_mapped (k_mm k) \<and>
     k_tasks k p = Some t \<and> ti_space (tk_inner t) = Some sp \<and> space_ok K sp (k_mm k) \<and> space_owned sp \<inter> table_frames (as_table kern) = {}"

lemma proc_okD:
  assumes "proc_ok K kern p t sp k"
  shows "k_space k = Some kern" "kernel_ok K kern (k_mm k)" "direct_mapped (k_mm k)" "k_tasks k p = Some t"
    "ti_space (tk_inner t) = Some sp" "space_ok K sp (k_mm k)" "space_owned sp \<inter> table_frames (as_table kern) = {}"
  using assms by (simp_all add: proc_ok_def)

lemma kernel_free: "kernel_ok K kern s \<Longrightarrow> table_frames (as_table kern) \<inter> free_ppns s = {}"
  using pt_okD(9) by (fastforce simp: kernel_ok_def)

text \<open>A change of the memory that leaves the frames in use alone keeps the process.\<close>

lemma proc_ok_foreign:
  assumes pr: "proc_ok K kern p t sp k" and fp: "footprint {} (k_mm k) s'"
  shows "proc_ok K kern p t sp (k\<lparr>k_mm := s'\<rparr>)" "umem sp s' = umem sp (k_mm k)"
  using pr umem_foreign [OF _ fp] kernel_foreign(1) [OF _ fp] fp by (auto simp: proc_ok_def direct_mapped_def footprint_def)

lemma proc_ok_cong:
  assumes "proc_ok K kern p t sp k" "k_space k' = k_space k" "k_mm k' = k_mm k" "k_tasks k' p = k_tasks k p"
  shows "proc_ok K kern p t sp k'"
  using assms by (simp add: proc_ok_def)

definition exec_installed :: "phys_page_num set \<Rightarrow> address_space \<Rightarrow> nat \<Rightarrow> pid \<Rightarrow> u8 list \<Rightarrow> rust_string list \<Rightarrow> address_space \<Rightarrow> kstate \<Rightarrow> kstate \<Rightarrow> bool" where
  "exec_installed K kern h p img args old k k' \<longleftrightarrow> (\<exists>eh t i f sp argv. read_header img = Some (Inr eh) \<and> proc_ok K kern p t sp k' \<and>
     i = tk_inner t \<and> ti_frame i = Some f \<and>
     free_ppns (k_mm k') \<union> space_owned sp = free_ppns (k_mm k) \<union> space_owned old \<and>
     (\<forall>x<USER_STACK_TOP - USER_STACK_SIZE. umem sp (k_mm k') x = elf_view img (elf_segments img eh) x) \<and>
     tf_sepc f = eh_entry eh \<and> tf_sp f = argv \<and> tf_arg f 0 = length args \<and> tf_arg f 1 = argv \<and> argv mod 16 = 0 \<and>
     argv_holds sp (k_mm k') argv USER_STACK_TOP args \<and> USER_STACK_TOP - USER_STACK_SIZE \<le> argv \<and>
     (\<forall>x. USER_STACK_TOP - USER_STACK_SIZE \<le> x \<and> x < USER_STACK_TOP \<longrightarrow> map_option snd (umem sp (k_mm k') x) = Some (leaf_flags (FL_RW OR FL_USER))) \<and>
     cpu_satp (k_cpus k' ! h) = space_token sp \<and>
     ti_brk i = max (Max (seg_end ` set (elf_segments img eh))) USER_HEAP_BASE \<and> ti_heap_top i = ti_brk i \<and>
     (\<forall>q. q \<noteq> p \<longrightarrow> k_tasks k' q = k_tasks k q))"

lemma user_frame_fields:
  "tf_sepc (tf_new_user st e sp ks satp) = e" "length (tf_x (tf_new_user st e sp ks satp)) = 32" "tf_x (tf_new_user st e sp ks satp) ! 2 = sp"
  by (simp_all add: tf_new_user_def tf_set_sp_def tf_set_x_def tf_default_def Let_def)

lemma argv_foreign:
  assumes "umem sp s' = umem sp s" "argv_holds sp s argv hi args"
  shows "argv_holds sp s' argv hi args"
  using assms(2) unfolding argv_holds_def user_bytes_def assms(1) .

lemma exec_view:
  assumes pr: "proc_ok K kern p t old k" and ks: "ks_top (ti_kstack (tk_inner t)) = Some ksp" and h: "h < length (k_cpus k)"
    and img: "length img < 2 ^ 63" and args: "args_size args \<le> USER_STACK_SIZE"
  obtains (failed) e s' where "exec_current h sstatus hart p name img args k = Some (Inl e, k\<lparr>k_mm := s'\<rparr>)" "footprint {} (k_mm k) s'"
      "free_ppns s' = free_ppns (k_mm k)"
  | (installed) k' where "exec_current h sstatus hart p name img args k = Some (Inr (), k')" "exec_installed K kern h p img args old k k'"
proof -
  have k: "k_space k = Some kern" "kernel_ok K kern (k_mm k)" "direct_mapped (k_mm k)" "k_tasks k p = Some t"
    "ti_space (tk_inner t) = Some old" "space_ok K old (k_mm k)" "space_owned old \<inter> table_frames (as_table kern) = {}" using proc_okD [OF pr] by simp_all
  show thesis
  proof (rule image_built [OF k(2,3) img args], goal_cases)
    case (1 e s')
    then show thesis using failed [of "BadImage e" s'] k(1) by (simp add: exec_current_def)
  next
    case (2 li s1 sp s2 s')
    then show thesis using failed [of ExecOutOfMemory s'] k(1) by (simp add: exec_current_def)
  next
    case (3 li s1 sp s2 s' eh argv)
    have old: "space_ok K old s'" using umem_foreign(1) [OF k(6) 3(4)] by simp
    have dis: "space_owned old \<inter> (space_owned sp \<union> K) = {}" using space_owned_use(1) [OF k(6)] 3(6) space_owned_K [OF k(6)] by blast
    have sfo: "space_frames K (as_table old) (pages_of (as_regions old)) s'" using old by (simp add: space_ok_def space_core_def)
    obtain s'' where d: "space_drop old s' = Some s''" "footprint (space_owned old) s' s''" "free_ppns s'' = free_ppns s' \<union> space_owned old"
      by (rule space_drop_frames [OF sfo]) (use old in \<open>auto simp: space_ok_def region_ok_def\<close>)
    note new = umem_foreign [OF 3(5) d(2) dis]
    let ?f = "tf_set_x 11 argv (tf_set_x 10 (length args)
        ((tf_new_user sstatus (li_entry li) argv ksp (unat (space_token kern)))\<lparr>tf_kernel_hartid := hart\<rparr>))"
    let ?brk = "max (li_brk li) USER_HEAP_BASE"
    let ?k = "(upd_inner p (\<lambda>i. i\<lparr>ti_brk := ?brk, ti_heap_top := ?brk, ti_frame := Some ?f, ti_space := Some sp\<rparr>)
        (upd_cpu h (\<lambda>c. c\<lparr>cpu_satp := space_token sp\<rparr>) (set_name p name (k\<lparr>k_mm := s'\<rparr>))))\<lparr>k_mm := s''\<rparr>"
    have run: "exec_current h sstatus hart p name img args k = Some (Inr (), ?k)"
      using 3(1-3) k(1,4,5) ks d(1)
      by (simp add: exec_current_def Let_def inner_of_def set_name_def upd_cpu_def upd_inner_def kernel_token_def)
    have keep: "kernel_ok K kern s''" "direct_mapped s''"
      using kernel_foreign(1) [OF kernel_foreign(1) [OF k(2) 3(4), simplified] d(2) k(7)] k(3) 3(4) d(2)
      by (simp_all add: direct_mapped_def footprint_def)
    have apart: "space_owned sp \<inter> table_frames (as_table kern) = {}" using kernel_free [OF k(2)] 3(6) by blast
    let ?t = "t\<lparr>tk_name := name, tk_inner := (tk_inner t)\<lparr>ti_brk := ?brk, ti_heap_top := ?brk, ti_frame := Some ?f, ti_space := Some sp\<rparr>\<rparr>"
    have tasks: "k_tasks ?k p = Some ?t"
      "\<forall>q. q \<noteq> p \<longrightarrow> k_tasks ?k q = k_tasks k q" "k_space ?k = Some kern" "k_mm ?k = s''"
      using k(1,4) by (simp_all add: upd_inner_def upd_cpu_def set_name_def)
    have frame: "tf_sepc ?f = eh_entry eh" "tf_sp ?f = argv" "tf_arg ?f 0 = length args" "tf_arg ?f 1 = argv"
      using 3(9) by (simp_all add: tf_sp_def tf_arg_def tf_set_x_def user_frame_fields)
    have "free_ppns s'' \<union> space_owned sp = free_ppns (k_mm k) \<union> space_owned old" using d(3) 3(6,7) by blast
    moreover have "cpu_satp (k_cpus ?k ! h) = space_token sp" using h by (simp add: upd_inner_def upd_cpu_def set_name_def)
    ultimately have "exec_installed K kern h p img args old k ?k"
      unfolding exec_installed_def proc_ok_def using tasks keep apart frame 3(8,10,11,13,15,16) new argv_foreign [OF new(2) 3(12)]
      by (intro exI [of _ eh] exI [of _ ?t] exI [of _ "tk_inner ?t"] exI [of _ ?f] exI [of _ sp] exI [of _ argv]) simp
    then show thesis using installed [OF run] by blast
  qed
qed

definition fork_child :: "phys_page_num set \<Rightarrow> address_space \<Rightarrow> pid \<Rightarrow> task \<Rightarrow> address_space \<Rightarrow> trap_frame \<Rightarrow> kstate \<Rightarrow> task \<Rightarrow> kstate \<Rightarrow> bool" where
  "fork_child K kern p t sp frame k c k' \<longleftrightarrow> tk_pid c = k_next_pid k \<and> tk_name c = tk_name t \<and>
     (\<exists>csp f. ti_space (tk_inner c) = Some csp \<and> ti_frame (tk_inner c) = Some f \<and>
       space_ok K csp (k_mm k') \<and> umem csp (k_mm k') = umem sp (k_mm k) \<and> space_owned csp \<inter> (space_owned sp \<union> table_frames (as_table kern)) = {} \<and>
       stack_apart (ti_kstack (tk_inner c)) csp (k_mm k') \<and>
       tf_x f = (tf_x frame)[10 := 0] \<and> tf_sepc f = tf_sepc frame \<and> tf_sstatus f = tf_sstatus frame) \<and>
     ti_brk (tk_inner c) = ti_brk (tk_inner t) \<and> ti_heap_top (tk_inner c) = ti_heap_top (tk_inner t) \<and>
     ti_parent (tk_inner c) = Some p \<and> ti_state (tk_inner c) = Ready \<and> ti_children (tk_inner c) = [] \<and>
     k' = k\<lparr>k_mm := k_mm k', k_next_pid := (k_next_pid k + 1) mod usize_lim\<rparr>"

lemma fork_view:
  assumes pr: "proc_ok K kern p t sp k"
  obtains (failed) s' where "fork_from syms hart p frame k = Some (None, k\<lparr>k_mm := s'\<rparr>)" "footprint {} (k_mm k) s'"
      "free_ppns s' = free_ppns (k_mm k)"
  | (forked) c k' where "fork_from syms hart p frame k = Some (Some c, k')" "fork_child K kern p t sp frame k c k'"
      "footprint {} (k_mm k) (k_mm k')"
proof -
  have k: "k_space k = Some kern" "kernel_ok K kern (k_mm k)" "direct_mapped (k_mm k)" "k_tasks k p = Some t"
    "ti_space (tk_inner t) = Some sp" "space_ok K sp (k_mm k)" using pr by (simp_all add: proc_ok_def)
  show thesis
  proof (rule space_duplicate_view [OF k(6,2)], goal_cases)
    case (1 s')
    then show thesis using failed [of s'] k(1,4,5) by (simp add: fork_from_def Let_def)
  next
    case (2 ch s1)
    have inv: "buddy_inv s1" "direct_mapped s1" using 2(2) k(3) by (auto simp: footprint_def direct_mapped_def)
    have sub: "space_owned ch \<subseteq> allocator_frames (k_mm k)" using 2(5) free_allocator by blast
    obtain st s2 where ks: "ks_new s1 = (st, s2)" by fastforce
    show thesis
    proof (cases st)
      case None
      then have "s2 = s1" using ks_new_none [OF inv(1)] ks by simp
      moreover have sf: "space_frames K (as_table ch) (pages_of (as_regions ch)) s1" using 2(3) by (simp add: space_ok_def space_core_def)
      obtain s3 where d: "space_drop ch s1 = Some s3" "footprint (space_owned ch) s1 s3" "free_ppns s3 = free_ppns s1 \<union> space_owned ch"
        by (rule space_drop_frames [OF sf]) (use 2(3) in \<open>auto simp: space_ok_def region_ok_def\<close>)
      moreover have "footprint {} (k_mm k) s3" by (rule footprint_trans [OF 2(2) d(2)]) (use sub in simp)
      ultimately show thesis using failed [of s3] 2(1,5,6) k(1,4,5) ks None by (auto simp: fork_from_def Let_def)
    next
      case (Some stk)
      note n = ks_new_some [OF inv ks [unfolded Some]]
      obtain ksp where ksp: "ks_top stk = Some ksp" using n(3) by blast
      note new = umem_foreign [OF 2(3) n(1), simplified]
      have fp: "footprint {} (k_mm k) s2" by (rule footprint_trans [OF 2(2) n(1)]) simp
      have dis: "space_owned ch \<inter> (space_owned sp \<union> table_frames (as_table kern)) = {}"
        using 2(5) space_owned_use(1) [OF k(6)] kernel_free [OF k(2)] by blast
      have apart: "stack_apart stk ch s2" using n(4-7) space_owned_use(1) [OF 2(3)] by (auto simp: stack_apart_def)
      let ?f = "tf_set_return 0 (frame\<lparr>tf_kernel_sp := ksp, tf_kernel_satp := unat (space_token kern), tf_kernel_hartid := hart\<rparr>)"
      let ?c = "\<lparr>tk_pid = k_next_pid k, tk_name = tk_name t, tk_entry = sym_enter_user_mode syms, tk_child_exit = [],
          tk_inner = (fresh_inner (tc_new (sym_task_entry syms) ksp) stk)
            \<lparr>ti_space := Some ch, ti_frame := Some ?f, ti_brk := ti_brk (tk_inner t), ti_heap_top := ti_heap_top (tk_inner t), ti_parent := Some p\<rparr>\<rparr>"
      let ?k = "k\<lparr>k_mm := s2, k_next_pid := (k_next_pid k + 1) mod usize_lim\<rparr>"
      have run: "fork_from syms hart p frame k = Some (Some ?c, ?k)"
        using 2(1) k(1,4,5) ks Some ksp by (simp add: fork_from_def Let_def alloc_pid_def kernel_token_def)
      have "fork_child K kern p t sp frame k ?c ?k"
        unfolding fork_child_def using new 2(4) dis apart by (simp add: fresh_inner_def tf_set_return_def tf_set_x_def)
      then show thesis using forked [OF run] fp by simp
    qed
  qed
qed

section \<open>A process on the small machine\<close>

definition demo_task :: "address_space \<Rightarrow> task" where
  "demo_task sp = \<lparr>tk_pid = 1, tk_name = [], tk_entry = 0, tk_child_exit = [],
     tk_inner = (fresh_inner tc_zeroed \<lparr>ks_frames = \<lparr>fr_ppn = 1024, fr_order = 3\<rparr>\<rparr>)
       \<lparr>ti_space := Some sp, ti_frame := Some tf_default, ti_brk := USER_HEAP_BASE, ti_heap_top := USER_HEAP_BASE\<rparr>\<rparr>"

definition demo_k :: "address_space \<Rightarrow> address_space \<Rightarrow> mm_state \<Rightarrow> kstate" where
  "demo_k kern sp s = \<lparr>k_tasks = [1 \<mapsto> demo_task sp], k_rq = rq_new, k_cpus = [\<lparr>cpu_current = Some 1, cpu_previous = None, cpu_satp = 0\<rparr>],
     k_all = [1], k_next_pid = 2, k_mm = s, k_space = Some kern\<rparr>"

lemma demo_proc:
  obtains K kern sp s where "proc_ok K kern 1 (demo_task sp) sp (demo_k kern sp s)"
    "umem sp s = (\<lambda>x. if 0x11000 \<le> x \<and> x < 0x12000 then Some (0, leaf_flags (FL_RW OR FL_USER)) else None)"
    "120 \<le> card (free_ppns s)" "managed s = {1024..<1152}"
proof -
  obtain K kern sp s where d: "kernel_ok K kern s" "space_ok K sp s" "direct_mapped s" "120 \<le> card (free_ppns s)"
    "umem sp s = (\<lambda>x. if 0x11000 \<le> x \<and> x < 0x12000 then Some (0, leaf_flags (FL_RW OR FL_USER)) else None)"
    "space_owned sp \<inter> table_frames (as_table kern) = {}" "managed s = {1024..<1152}"
    by (rule demo_page [of "FL_RW OR FL_USER"]) simp_all
  have "proc_ok K kern 1 (demo_task sp) sp (demo_k kern sp s)"
    using d(1-3,6) by (simp add: proc_ok_def demo_k_def demo_task_def)
  then show thesis using that d(4,5,7) by blast
qed

lemma demo_kstack: "ks_top (ti_kstack (tk_inner (demo_task sp))) = Some (VIRT_OFFSET + 1032 * 4096)"
  by (simp add: demo_task_def fresh_inner_def ks_top_def ks_bottom_def ppn_as_ptr_def frame_count_def checked_add_def push_bit_eq_mult)

section \<open>Properties\<close>



text \<open>
  C26: forking a process never panics. The child has a fresh pid, the registers of the
  parent's trap frame except that \<open>a0\<close> is zero, the parent's break, and memory that equals
  the parent's byte for byte in frames of its own. The parent is unchanged; a failed fork
  returns every frame.
\<close>

theorem fork_correct:
  assumes pr: "proc_ok K kern p t sp k"
  shows "\<exists>res k'. fork_from syms hart p frame k = Some (res, k') \<and> proc_ok K kern p t sp k' \<and> umem sp (k_mm k') = umem sp (k_mm k) \<and>
    (case res of
       Some c \<Rightarrow> fork_child K kern p t sp frame k c k'
     | None \<Rightarrow> k' = k\<lparr>k_mm := k_mm k'\<rparr> \<and> free_ppns (k_mm k') = free_ppns (k_mm k))"
proof (rule fork_view [OF assms, of syms hart frame], goal_cases)
  case (1 s')
  have "proc_ok K kern p t sp (k\<lparr>k_mm := s'\<rparr>)" "umem sp s' = umem sp (k_mm k)"
    by (rule proc_ok_foreign [OF pr 1(2)])+
  then show ?case using 1 by simp
next
  case (2 c k')
  have "k' = k\<lparr>k_mm := k_mm k', k_next_pid := (k_next_pid k + 1) mod usize_lim\<rparr>" using 2(2) by (simp add: fork_child_def)
  then have eq: "k_space k' = k_space k" "k_tasks k' = k_tasks k" by (metis kstate.select_convs kstate.surjective kstate.update_convs)+
  have "proc_ok K kern p t sp k'" "umem sp (k_mm k') = umem sp (k_mm k)"
    using proc_ok_cong [OF proc_ok_foreign(1) [OF pr 2(3)], of k'] proc_ok_foreign(2) [OF pr 2(3)] eq by simp_all
  then show ?case using 2 by auto
qed

theorem fork_correct_witness:
  "\<exists>K kern sp s res k'. proc_ok K kern 1 (demo_task sp) sp (demo_k kern sp s) \<and> umem sp s 0x11000 \<noteq> None \<and>
     fork_from \<lparr>sym_task_entry = 0, sym_enter_user_mode = 0\<rparr> 0 1 tf_default (demo_k kern sp s) = Some (res, k') \<and>
     umem sp (k_mm k') = umem sp s \<and> (\<forall>c. res = Some c \<longrightarrow> tk_pid c = 2 \<and> ti_parent (tk_inner c) = Some 1)"
proof -
  obtain K kern sp s where d: "proc_ok K kern 1 (demo_task sp) sp (demo_k kern sp s)"
    and u: "umem sp s = (\<lambda>x. if 0x11000 \<le> x \<and> x < 0x12000 then Some (0, leaf_flags (FL_RW OR FL_USER)) else None)" by (rule demo_proc)
  obtain res k' where f: "fork_from \<lparr>sym_task_entry = 0, sym_enter_user_mode = 0\<rparr> 0 1 tf_default (demo_k kern sp s) = Some (res, k')"
    "umem sp (k_mm k') = umem sp (k_mm (demo_k kern sp s))"
    "case res of
       Some c \<Rightarrow> fork_child K kern 1 (demo_task sp) sp tf_default (demo_k kern sp s) c k'
     | None \<Rightarrow> k' = (demo_k kern sp s)\<lparr>k_mm := k_mm k'\<rparr> \<and> free_ppns (k_mm k') = free_ppns (k_mm (demo_k kern sp s))"
    using fork_correct [OF d, of "\<lparr>sym_task_entry = 0, sym_enter_user_mode = 0\<rparr>" 0 tf_default] by blast
  have "umem sp (k_mm k') = umem sp s" "\<forall>c. res = Some c \<longrightarrow> tk_pid c = 2 \<and> ti_parent (tk_inner c) = Some 1"
    using f(2,3) by (auto simp: demo_k_def fork_child_def)
  moreover have "umem sp s 0x11000 \<noteq> None" by (simp add: u)
  ultimately show ?thesis using d f(1) by blast
qed

end
