(* ===== verification/Brk.thy ===== *)
theory Brk
  imports Process_Correct
begin

text \<open>
  The program break, \<^verbatim>\<open>adjust_brk\<close> of \<^verbatim>\<open>kernel/src/task/process.rs\<close>: the heap of a
  process is the pages between \<^verbatim>\<open>USER_HEAP_BASE\<close> and \<^verbatim>\<open>heap_top\<close>, and the break lies
  among them.
\<close>

unbundle bit_operations_syntax

definition uheap_ok :: "task_inner \<Rightarrow> bool" where
  "uheap_ok i \<longleftrightarrow> USER_HEAP_BASE \<le> ti_brk i \<and> ti_brk i \<le> ti_heap_top i \<and> ti_heap_top i mod PAGE_SIZE = 0 \<and> ti_heap_top i \<le> USER_MAX_ADDR"

text \<open>What a moved break leaves: zeroed pages between the old and the new end of the heap,
  and the rest of the memory as it was.\<close>

definition brk_moved :: "phys_page_num set \<Rightarrow> address_space \<Rightarrow> pid \<Rightarrow> task \<Rightarrow> address_space \<Rightarrow> isize \<Rightarrow> kstate \<Rightarrow> kstate \<Rightarrow> bool" where
  "brk_moved K kern p t sp delta k k' \<longleftrightarrow> (\<exists>t' sp'. proc_ok K kern p t' sp' k' \<and> uheap_ok (tk_inner t') \<and>
     t' = t\<lparr>tk_inner := (tk_inner t)\<lparr>ti_brk := ti_brk (tk_inner t'), ti_heap_top := ti_heap_top (tk_inner t'), ti_space := Some sp'\<rparr>\<rparr> \<and>
     int (ti_brk (tk_inner t')) = int (ti_brk (tk_inner t)) + delta \<and> ti_heap_top (tk_inner t) \<le> ti_heap_top (tk_inner t') \<and>
     (\<forall>x. umem sp' (k_mm k') x =
        (if ti_heap_top (tk_inner t) \<le> x \<and> x < ti_heap_top (tk_inner t') then Some (0, leaf_flags (FL_RW OR FL_USER)) else umem sp (k_mm k) x)))"

lemma next_page:
  assumes "new < USER_MAX_ADDR"
  shows "checked_next_multiple_of new PAGE_SIZE = Some (next_multiple_of new PAGE_SIZE)" "new \<le> next_multiple_of new PAGE_SIZE"
    "next_multiple_of new PAGE_SIZE mod PAGE_SIZE = 0" "next_multiple_of new PAGE_SIZE \<le> USER_MAX_ADDR"
proof -
  obtain r where r: "region_new new new Framed 0 = Some r" "r_end r \<le> USER_MAX_ADDR" by (rule region_new_ok [of new new 0]) (use assms in auto)
  have "align_up new = Some (next_multiple_of new 4096)" using assms by (simp add: align_up_eq)
  then show le: "next_multiple_of new PAGE_SIZE \<le> USER_MAX_ADDR" using r by (auto simp: region_new_def)
  then show "checked_next_multiple_of new PAGE_SIZE = Some (next_multiple_of new PAGE_SIZE)" by (simp add: checked_next_multiple_of_def)
  show "new \<le> next_multiple_of new PAGE_SIZE" "next_multiple_of new PAGE_SIZE mod PAGE_SIZE = 0"
    using next_multiple_of_props [of 4096 new] by (simp_all add: dvd_eq_mod_eq_0)
qed

text \<open>A push to the space of a process keeps the kernel and the process.\<close>

lemma proc_ok_pushed:
  assumes pr: "proc_ok K kern p t sp k" and fp: "footprint (table_frames (as_table sp)) (k_mm k) s'"
    and own: "free_ppns s' \<union> space_owned sp' = free_ppns (k_mm k) \<union> space_owned sp" and ok: "space_ok K sp' s'"
  shows "proc_ok K kern p (t\<lparr>tk_inner := (f (tk_inner t))\<lparr>ti_space := Some sp'\<rparr>\<rparr>) sp'
    (upd_inner p (\<lambda>i. (f i)\<lparr>ti_space := Some sp'\<rparr>) (k\<lparr>k_mm := s'\<rparr>))"
proof -
  note d = proc_okD [OF pr]
  have "kernel_ok K kern s'" using kernel_foreign(1) [OF d(2) fp] d(7) tables_of_space [of sp] by blast
  moreover have "direct_mapped s'" using d(3) fp by (simp add: direct_mapped_def footprint_def)
  moreover have "space_owned sp' \<inter> table_frames (as_table kern) = {}" using own kernel_free [OF d(2)] d(7) by blast
  ultimately show ?thesis using d(1,4) ok by (simp add: proc_ok_def upd_inner_def)
qed

text \<open>Growing the heap: the region pushed by \<^verbatim>\<open>adjust_brk\<close>.\<close>

lemma grow_heap:
  assumes pr: "proc_ok K kern p t sp k" and h: "uheap_ok (tk_inner t)" and new: "ti_heap_top (tk_inner t) < new" "new < USER_MAX_ADDR"
  obtains (grown) r sp' s' where "region_new (ti_heap_top (tk_inner t)) (next_multiple_of new PAGE_SIZE) Framed (FL_RW OR FL_USER) = Some r"
      "space_push r sp (k_mm k) = Some (Inr (), sp', s')" "footprint (table_frames (as_table sp)) (k_mm k) s'" "space_ok K sp' s'"
      "free_ppns s' \<union> space_owned sp' = free_ppns (k_mm k) \<union> space_owned sp"
      "\<forall>x. umem sp' s' x = (if ti_heap_top (tk_inner t) \<le> x \<and> x < next_multiple_of new PAGE_SIZE
         then Some (0, leaf_flags (FL_RW OR FL_USER)) else umem sp (k_mm k) x)"
  | (full) r err sp' s' where "region_new (ti_heap_top (tk_inner t)) (next_multiple_of new PAGE_SIZE) Framed (FL_RW OR FL_USER) = Some r"
      "space_push r sp (k_mm k) = Some (Inl err, sp', s')"
      "(\<exists>x. ti_heap_top (tk_inner t) \<le> x \<and> x < next_multiple_of new PAGE_SIZE \<and> umem sp (k_mm k) x \<noteq> None) \<or>
       card (free_ppns (k_mm k)) < 3 * ((next_multiple_of new PAGE_SIZE - ti_heap_top (tk_inner t)) div PAGE_SIZE) + 2"
proof -
  let ?a = "ti_heap_top (tk_inner t)" and ?b = "next_multiple_of new PAGE_SIZE"
  note n = next_page [OF new(2)]
  define r where "r = \<lparr>r_start = ?a, r_end = ?b, r_backing = Framed, r_perm = FL_RW OR FL_USER, r_frames = []\<rparr>"
  have a: "align_down ?a = ?a" using h by (simp add: uheap_ok_def align_down_eq)
  have b: "align_up ?b = Some ?b"
  proof -
    have "next_multiple_of ?b 4096 = ?b" using n(3) by (simp add: next_multiple_of_def)
    then show ?thesis using n(4) by (simp add: align_up_eq)
  qed
  have r: "region_new ?a ?b Framed (FL_RW OR FL_USER) = Some r" unfolding region_new_def a b by (simp add: r_def)
  have wf: "r_backing r = Framed" "r_frames r = []" "r_start r mod PAGE_SIZE = 0" "r_end r mod PAGE_SIZE = 0" "r_end r \<le> USER_MAX_ADDR"
    "r_perm r AND NOT FLAG_MASK = 0" "r_start r \<le> r_end r" using h n new by (simp_all add: r_def uheap_ok_def)
  show thesis
  proof (rule push_facts [OF proc_okD(6) [OF pr] wf], goal_cases)
    case (1 r' sp' s')
    then show thesis using grown [OF r 1(1,9,2,11)] by (simp add: r_def)
  next
    case (2 err r' pt' s1 s')
    show thesis by (rule full [OF r 2(1)]) (use 2(5) in \<open>auto simp: r_def\<close>)
  qed
qed

lemma inner_swap: "(i::task_inner)\<lparr>ti_space := a, ti_heap_top := b, ti_brk := c\<rparr> = i\<lparr>ti_heap_top := b, ti_brk := c, ti_space := a\<rparr>"
  by simp

text \<open>The two ways a break inside the heap's range is set.\<close>

lemma brk_inside:
  assumes pr: "proc_ok K kern p t sp k" and h: "uheap_ok (tk_inner t)"
    and new: "delta \<noteq> 0" "USER_HEAP_BASE \<le> new" "new < USER_MAX_ADDR" "int new = int (ti_brk (tk_inner t)) + delta" "new \<le> ti_heap_top (tk_inner t)"
  obtains k' where "adjust_brk p delta k = Some (Some (ti_brk (tk_inner t)), k')" "brk_moved K kern p t sp delta k k'"
proof -
  note d = proc_okD [OF pr]
  let ?f = "\<lambda>i. i\<lparr>ti_brk := new\<rparr>"
  let ?t = "t\<lparr>tk_inner := ?f (tk_inner t)\<rparr>"
  have ca: "checked_add_signed (ti_brk (tk_inner t)) delta = Some new" using new by (simp add: checked_add_signed_def flip: new(4))
  have "adjust_brk p delta k = Some (Some (ti_brk (tk_inner t)), upd_inner p ?f k)"
    using new d(4) ca by (simp add: adjust_brk_def inner_of_def Let_def)
  moreover have "proc_ok K kern p ?t sp (upd_inner p ?f k)" using pr by (simp add: proc_ok_def upd_inner_def)
  then have "brk_moved K kern p t sp delta k (upd_inner p ?f k)" unfolding brk_moved_def
    by (intro exI [of _ ?t] exI [of _ sp]) (use new h d(5) in \<open>auto simp: uheap_ok_def upd_inner_def\<close>)
  ultimately show thesis using that by blast
qed

lemma brk_beyond:
  assumes pr: "proc_ok K kern p t sp k" and h: "uheap_ok (tk_inner t)"
    and new: "delta \<noteq> 0" "USER_HEAP_BASE \<le> new" "new < USER_MAX_ADDR" "int new = int (ti_brk (tk_inner t)) + delta" "ti_heap_top (tk_inner t) < new"
  obtains (grown) k' where "adjust_brk p delta k = Some (Some (ti_brk (tk_inner t)), k')" "brk_moved K kern p t sp delta k k'"
  | (full) sp' k' where "adjust_brk p delta k = Some (None, k')" "inner_of p k' = Some ((tk_inner t)\<lparr>ti_space := Some sp'\<rparr>)"
      "(\<exists>x. ti_heap_top (tk_inner t) \<le> x \<and> x < next_multiple_of new PAGE_SIZE \<and> umem sp (k_mm k) x \<noteq> None) \<or>
       card (free_ppns (k_mm k)) < 3 * ((next_multiple_of new PAGE_SIZE - ti_heap_top (tk_inner t)) div PAGE_SIZE) + 2"
proof -
  note d = proc_okD [OF pr] and np = next_page [OF new(3)]
  let ?i = "tk_inner t" and ?to = "next_multiple_of new PAGE_SIZE"
  have inner: "inner_of p k = Some ?i" using d(4) by (simp add: inner_of_def)
  have ca: "checked_add_signed (ti_brk ?i) delta = Some new" using new by (simp add: checked_add_signed_def flip: new(4))
  have top: "ti_brk ?i \<le> ti_heap_top ?i" using h by (simp add: uheap_ok_def)
  show thesis
  proof (rule grow_heap [OF pr h new(5,3)], goal_cases)
    case (1 r sp' s')
    let ?f = "\<lambda>i. i\<lparr>ti_heap_top := ?to, ti_brk := new\<rparr>"
    let ?k = "upd_inner p (\<lambda>i. (?f i)\<lparr>ti_space := Some sp'\<rparr>) (k\<lparr>k_mm := s'\<rparr>)" and ?t = "t\<lparr>tk_inner := (?f ?i)\<lparr>ti_space := Some sp'\<rparr>\<rparr>"
    have run: "adjust_brk p delta k = Some (Some (ti_brk ?i), ?k)"
      using new ca inner np(1) 1(1,2) d(4,5) by (simp add: adjust_brk_def Let_def upd_inner_def inner_swap)
    have "brk_moved K kern p t sp delta k ?k" unfolding brk_moved_def
      by (intro exI [of _ ?t] exI [of _ sp'])
        (use proc_ok_pushed [OF pr 1(3,5,4), of ?f] 1(6) new np top in \<open>simp add: uheap_ok_def upd_inner_def\<close>)
    then show thesis using grown run by blast
  next
    case (2 r err sp' s')
    let ?k = "upd_inner p (\<lambda>i. i\<lparr>ti_space := Some sp'\<rparr>) (k\<lparr>k_mm := s'\<rparr>)"
    have run: "adjust_brk p delta k = Some (None, ?k)" using new ca inner np(1) 2(1,2) d(5) by (simp add: adjust_brk_def Let_def)
    have "inner_of p ?k = Some (?i\<lparr>ti_space := Some sp'\<rparr>)" using d(4) by (simp add: inner_of_def upd_inner_def)
    then show thesis using full [OF run] 2(3) by blast
  qed
qed

section \<open>Properties\<close>



end
