(* ===== verification/Blocking.thy ===== *)
theory Blocking
  imports Sched_Props
begin

text \<open>
  The blocking primitives of \<^verbatim>\<open>kernel/src/sync/wait.rs\<close>: \<^verbatim>\<open>WaitQueue::wait_until\<close>,
  \<^verbatim>\<open>Mutex\<close> and \<^verbatim>\<open>Semaphore\<close>. A call that can block is not a function of the state
  it starts in, so it is a step relation: each task has a program counter, and a step is one
  atomic access to the lock word, one critical section of the wait queue or one call of the
  scheduler. Steps of different tasks interleave in any order. \<open>blocking_resource\<close> is the contract
  under which the two primitives are correct.
\<close>

section \<open>Operations\<close>

record 'a mutex =
  mx_locked :: bool
  mx_waiters :: "pid list"
  mx_data :: 'a

definition mutex_new :: "'a \<Rightarrow> 'a mutex" where
  "mutex_new data = \<lparr>mx_locked = False, mx_waiters = [], mx_data = data\<rparr>"

text \<open>\<^verbatim>\<open>compare_exchange(false, true)\<close> on the lock word.\<close>

definition mutex_cas :: "bool \<Rightarrow> bool option" where
  "mutex_cas locked = (if locked then None else Some True)"

definition mutex_try_lock :: "'a mutex \<Rightarrow> 'a mutex option" where
  "mutex_try_lock m = map_option (\<lambda>l. m\<lparr>mx_locked := l\<rparr>) (mutex_cas (mx_locked m))"

definition mutex_get :: "'a mutex \<Rightarrow> 'a" where
  "mutex_get m = mx_data m"

definition mutex_set :: "'a \<Rightarrow> 'a mutex \<Rightarrow> 'a mutex" where
  "mutex_set x m = m\<lparr>mx_data := x\<rparr>"

definition mutex_drop :: "'a mutex \<Rightarrow> kstate \<Rightarrow> 'a mutex \<times> kstate" where
  "mutex_drop m k =
     (case wq_wake_one (mx_waiters m) k of (ws, k1) \<Rightarrow> (m\<lparr>mx_locked := False, mx_waiters := ws\<rparr>, k1))"

record semaphore =
  sem_count :: isize
  sem_waiters :: "pid list"

definition sem_new :: "isize \<Rightarrow> semaphore" where
  "sem_new initial = \<lparr>sem_count = initial, sem_waiters = []\<rparr>"

text \<open>The critical section of \<^verbatim>\<open>acquire\<close>, and the increment of \<^verbatim>\<open>release\<close>, which panics on overflow.\<close>

definition sem_take :: "isize \<Rightarrow> isize option" where
  "sem_take c = (if c > 0 then Some (c - 1) else None)"

definition sem_give :: "isize \<Rightarrow> isize option" where
  "sem_give c = (if c + 1 < 2 ^ 63 then Some (c + 1) else None)"

definition sem_release :: "semaphore \<Rightarrow> kstate \<Rightarrow> (semaphore \<times> kstate) option" where
  "sem_release m k = do {
     c \<leftarrow> sem_give (sem_count m);
     let (ws, k1) = wq_wake_one (sem_waiters m) k;
     Some (\<lparr>sem_count = c, sem_waiters = ws\<rparr>, k1)
   }"

definition sem_available :: "semaphore \<Rightarrow> isize" where
  "sem_available m = sem_count m"

section \<open>Interleaved callers\<close>

text \<open>
  Where a caller is: not using the primitive, about to attempt to take it, about to check the
  condition of \<^verbatim>\<open>wait_until\<close>, about to queue itself, about to block, switched away, about to remove its
  entry from the queue, holding, and about to wake a waiter after giving back.
\<close>

datatype blk_pc = Outside | Trying | Checking | Queueing | Blocking | Asleep | Forgetting | Holding | Waking

record 'r blk =
  bk_res :: 'r
  bk_ws :: "pid list"
  bk_k :: kstate
  bk_pc :: "pid \<Rightarrow> blk_pc"

text \<open>What \<^verbatim>\<open>switch_to_idle\<close> does to a task that blocks, under the task's lock.\<close>

definition block_self :: "pid \<Rightarrow> kstate \<Rightarrow> kstate" where
  "block_self p k = upd_inner p (\<lambda>i.
     if ti_wakeup_pending i then i\<lparr>ti_wakeup_pending := False, ti_state := Ready\<rparr> else i\<lparr>ti_state := Blocked\<rparr>) k"

text \<open>
  The loops of \<^verbatim>\<open>lock\<close> and \<^verbatim>\<open>acquire\<close> around \<^verbatim>\<open>wait_until\<close> and \<^verbatim>\<open>wait\<close>, and giving back.
  A task that has switched away goes on once it is no longer blocked. With \<open>Away\<close> a task blocks on something else, and \<open>Other\<close> is a wakeup from elsewhere.
\<close>

inductive blk_step :: "('r \<Rightarrow> 'r option) \<Rightarrow> ('r \<Rightarrow> bool) \<Rightarrow> ('r \<Rightarrow> 'r option) \<Rightarrow> 'r blk \<Rightarrow> 'r blk \<Rightarrow> bool"
  for take ready give where
  Enter: "bk_pc s p = Outside \<Longrightarrow> state_of p (bk_k s) \<noteq> Some Blocked \<Longrightarrow>
    blk_step take ready give s (s\<lparr>bk_pc := (bk_pc s)(p := Trying)\<rparr>)"
| Take: "bk_pc s p = Trying \<Longrightarrow> take (bk_res s) = Some r \<Longrightarrow>
    blk_step take ready give s (s\<lparr>bk_res := r, bk_pc := (bk_pc s)(p := Holding)\<rparr>)"
| Fail: "bk_pc s p = Trying \<Longrightarrow> take (bk_res s) = None \<Longrightarrow>
    blk_step take ready give s (s\<lparr>bk_pc := (bk_pc s)(p := Checking)\<rparr>)"
| Check: "bk_pc s p = Checking \<Longrightarrow>
    blk_step take ready give s (s\<lparr>bk_pc := (bk_pc s)(p := if ready (bk_res s) then Trying else Queueing)\<rparr>)"
| Enqueue: "bk_pc s p = Queueing \<Longrightarrow>
    blk_step take ready give s (s\<lparr>bk_ws := wq_enqueue p (bk_ws s), bk_pc := (bk_pc s)(p := Blocking)\<rparr>)"
| Block: "bk_pc s p = Blocking \<Longrightarrow>
    blk_step take ready give s (s\<lparr>bk_k := block_self p (bk_k s), bk_pc := (bk_pc s)(p := Asleep)\<rparr>)"
| Resume: "bk_pc s p = Asleep \<Longrightarrow> state_of p (bk_k s) \<noteq> Some Blocked \<Longrightarrow>
    blk_step take ready give s (s\<lparr>bk_pc := (bk_pc s)(p := Forgetting)\<rparr>)"
| Forget: "bk_pc s p = Forgetting \<Longrightarrow>
    blk_step take ready give s (s\<lparr>bk_ws := wq_forget p (bk_ws s), bk_pc := (bk_pc s)(p := Checking)\<rparr>)"
| Give: "bk_pc s p = Holding \<Longrightarrow> give (bk_res s) = Some r \<Longrightarrow>
    blk_step take ready give s (s\<lparr>bk_res := r, bk_pc := (bk_pc s)(p := Waking)\<rparr>)"
| Wake: "bk_pc s p = Waking \<Longrightarrow> wq_wake_one (bk_ws s) (bk_k s) = (ws, k) \<Longrightarrow>
    blk_step take ready give s (s\<lparr>bk_ws := ws, bk_k := k, bk_pc := (bk_pc s)(p := Outside)\<rparr>)"
| Away: "bk_pc s p = Outside \<Longrightarrow> blk_step take ready give s (s\<lparr>bk_k := block_self p (bk_k s)\<rparr>)"
| Other: "blk_step take ready give s (s\<lparr>bk_k := wake q (bk_k s)\<rparr>)"

definition blk_init :: "'r \<Rightarrow> kstate \<Rightarrow> 'r blk" where
  "blk_init r k = \<lparr>bk_res = r, bk_ws = [], bk_k = k, bk_pc = (\<lambda>_. Outside)\<rparr>"

abbreviation mutex_step :: "bool blk \<Rightarrow> bool blk \<Rightarrow> bool" where
  "mutex_step \<equiv> blk_step mutex_cas Not (\<lambda>_. Some False)"

abbreviation sem_step :: "isize blk \<Rightarrow> isize blk \<Rightarrow> bool" where
  "sem_step \<equiv> blk_step sem_take (\<lambda>c. c > 0) sem_give"

section \<open>The contract\<close>

definition holders :: "(pid \<Rightarrow> blk_pc) \<Rightarrow> pid set" where
  "holders pc = {p. pc p = Holding}"

lemma holders_upd [simp]: "holders (pc(p := x)) = (if x = Holding then insert p (holders pc) else holders pc - {p})"
  by (auto simp: holders_def)

lemma holders_iff: "p \<in> holders pc \<longleftrightarrow> pc p = Holding"
  by (simp add: holders_def)

text \<open>What holds of a task at one program counter, on the queue or not: only a task outside or
  asleep is blocked, and one that is off the queue has been woken.\<close>

definition ok_at :: "bool \<Rightarrow> blk_pc \<Rightarrow> task_inner option \<Rightarrow> bool" where
  "ok_at queued pc t \<longleftrightarrow> (queued \<longrightarrow> pc \<in> {Blocking, Asleep, Forgetting}) \<and>
     (\<forall>i. t = Some i \<longrightarrow> (ti_state i = Blocked \<longrightarrow> pc \<in> {Outside, Asleep}) \<and>
        (\<not> queued \<longrightarrow> (pc = Blocking \<longrightarrow> ti_wakeup_pending i) \<and> (pc = Asleep \<longrightarrow> ti_state i \<noteq> Blocked)))"

definition queued_ok :: "'r blk \<Rightarrow> bool" where
  "queued_ok s \<longleftrightarrow> distinct (bk_ws s) \<and> (\<forall>p. ok_at (p \<in> set (bk_ws s)) (bk_pc s p) (inner_of p (bk_k s)))"

locale blocking_resource =
  fixes take :: "'r \<Rightarrow> 'r option" and ready :: "'r \<Rightarrow> bool" and give :: "'r \<Rightarrow> 'r option" and units :: "'r \<Rightarrow> int" and lim :: int
  assumes take_units: "take r = Some r' \<Longrightarrow> 0 < units r \<and> units r' = units r - 1"
    and take_none: "take r = None \<Longrightarrow> units r \<le> 0"
    and ready_take: "ready r \<longleftrightarrow> 0 < units r"
    and give_units: "give r = Some r' \<Longrightarrow> units r < lim \<Longrightarrow> units r' = units r + 1"
begin

definition conserved :: "int \<Rightarrow> 'r blk \<Rightarrow> bool" where
  "conserved n s \<longleftrightarrow> finite (holders (bk_pc s)) \<and> units (bk_res s) + int (card (holders (bk_pc s))) = n"

lemma conserved_step:
  assumes "blk_step take ready give s s'" "conserved n s" "n \<le> lim"
  shows "conserved n s'"
  using assms(1)
proof cases
  case (Take p r)
  then show ?thesis using assms(2) take_units [OF Take(3)] by (auto simp: conserved_def holders_iff card_insert_disjoint)
next
  case (Give p r)
  have h: "card (holders (bk_pc s)) = Suc (card (holders (bk_pc s) - {p}))" "finite (holders (bk_pc s))"
    using Give(2) assms(2) card_Suc_Diff1 [of "holders (bk_pc s)" p] by (auto simp: conserved_def holders_iff)
  then have "units (bk_res s) < lim" using assms(2,3) by (simp add: conserved_def)
  then show ?thesis using assms(2) Give h give_units [OF Give(3)] by (simp add: conserved_def)
qed (use assms(2) in \<open>auto simp: conserved_def holders_iff\<close>)

lemma conserved_reach:
  assumes "(blk_step take ready give)\<^sup>*\<^sup>* s s'" "conserved n s" "n \<le> lim"
  shows "conserved n s'"
  using assms by (induction rule: rtranclp_induct) (auto intro: conserved_step)

lemma conserved_init: "conserved (units r) (blk_init r k)"
  by (simp add: conserved_def blk_init_def holders_def)

end

section \<open>Sleepers\<close>

lemma block_self_inner: "inner_of q (block_self p k) =
   (if q = p then map_option (\<lambda>i. if ti_wakeup_pending i then i\<lparr>ti_wakeup_pending := False, ti_state := Ready\<rparr> else i\<lparr>ti_state := Blocked\<rparr>) (inner_of p k)
    else inner_of q k)"
  by (simp add: block_self_def inner_of_upd_inner)

definition woken :: "task_inner \<Rightarrow> task_inner" where
  "woken i = (if ti_state i \<noteq> Blocked then i\<lparr>ti_wakeup_pending := True\<rparr>
     else i\<lparr>ti_state := Ready, ti_level := ti_level i - 1, ti_ticks := 0\<rparr>)"

lemma woken_simps [simp]: "ti_state (woken i) \<noteq> Blocked" "ti_exit_code (woken i) = ti_exit_code i" "ti_space (woken i) = ti_space i"
  "ti_kstack (woken i) = ti_kstack i" "ti_frame (woken i) = ti_frame i" "ti_brk (woken i) = ti_brk i" "ti_heap_top (woken i) = ti_heap_top i"
  "ti_parent (woken i) = ti_parent i" "ti_children (woken i) = ti_children i"
  by (simp_all add: woken_def)

lemma wake_inner: "inner_of q (wake p k) = (if q = p then map_option woken (inner_of p k) else inner_of q k)"
  by (cases "inner_of p k") (auto simp: wake_def woken_def Let_def inner_of_def upd_inner_def)

lemma ok_at_woken:
  "ok_at q pc (inner_of p k) \<Longrightarrow> ok_at q pc (inner_of p (wake p k))"
  "ok_at q pc (inner_of p k) \<Longrightarrow> ok_at False pc (inner_of p (wake p k))"
  by (cases "inner_of p k"; auto simp: ok_at_def wake_inner; auto simp: woken_def)+

lemma ok_at_blocked:
  "ok_at q Blocking (inner_of p k) \<Longrightarrow> ok_at q Asleep (inner_of p (block_self p k))"
  "ok_at q Outside (inner_of p k) \<Longrightarrow> ok_at q Outside (inner_of p (block_self p k))"
  by (cases "inner_of p k"; auto simp: ok_at_def block_self_inner)+

lemma ok_at_forget: "ok_at q Forgetting t \<Longrightarrow> ok_at False Checking t"
  by (auto simp: ok_at_def)

text \<open>\<open>park\<close> treats the task that blocks as \<open>block_self\<close> does.\<close>

lemma park_block_self:
  assumes "current h k = Some p" "park h Blocked k = Some k'"
  shows "inner_of q k' = inner_of q (block_self p k)"
  using assms by (auto simp: park_def Let_def block_self_def inner_of_def upd_inner_def upd_cpu_def split: option.splits if_splits)

text \<open>However callers interleave, a task that sleeps is on the queue, unless it has been woken.\<close>

lemma ok_at_moves:
  "ok_at q Outside t \<Longrightarrow> map_option ti_state t \<noteq> Some Blocked \<Longrightarrow> ok_at q Trying t" "ok_at q Trying t \<Longrightarrow> ok_at q Holding t"
  "ok_at q Trying t \<Longrightarrow> ok_at q Checking t" "ok_at q Checking t \<Longrightarrow> ok_at q Trying t \<and> ok_at q Queueing t"
  "ok_at q Queueing t \<Longrightarrow> ok_at True Blocking t" "ok_at q Holding t \<Longrightarrow> ok_at q Waking t" "ok_at q Waking t \<Longrightarrow> ok_at q Outside t"
  "ok_at q Asleep t \<Longrightarrow> map_option ti_state t \<noteq> Some Blocked \<Longrightarrow> ok_at q Forgetting t"
  by (auto simp: ok_at_def)

lemma queued_ok_pc:
  assumes "queued_ok s" "ok_at (p \<in> set (bk_ws s)) (bk_pc s p) (inner_of p (bk_k s)) \<Longrightarrow> ok_at (p \<in> set (bk_ws s)) x (inner_of p (bk_k s))"
  shows "queued_ok (s\<lparr>bk_pc := (bk_pc s)(p := x)\<rparr>)" "queued_ok (s\<lparr>bk_res := r, bk_pc := (bk_pc s)(p := x)\<rparr>)"
  using assms by (simp_all add: queued_ok_def)

lemma queued_ok_step:
  assumes "blk_step T R G s s'" "queued_ok s"
  shows "queued_ok s'"
proof -
  have d: "distinct (bk_ws s)" and at: "ok_at (p \<in> set (bk_ws s)) (bk_pc s p) (inner_of p (bk_k s))" for p
    using assms(2) by (simp_all add: queued_ok_def)
  show ?thesis
    using assms(1)
  proof cases
    case (Enqueue p)
    have "p \<notin> set (bk_ws s)" using at [of p] Enqueue(2) by (auto simp: ok_at_def)
    then show ?thesis using d at ok_at_moves(5) [of _ "inner_of p (bk_k s)"] at [of p] Enqueue by (auto simp: queued_ok_def wq_enqueue_def)
  next
    case (Block p)
    then show ?thesis using d at ok_at_blocked(1) [of "p \<in> set (bk_ws s)" p "bk_k s"] at [of p] by (auto simp: queued_ok_def block_self_inner)
  next
    case (Away p)
    then show ?thesis using d at ok_at_blocked(2) [of "p \<in> set (bk_ws s)" p "bk_k s"] at [of p] by (auto simp: queued_ok_def block_self_inner)
  next
    case (Forget p)
    then show ?thesis using d at ok_at_forget [of _ "inner_of p (bk_k s)"] at [of p] by (auto simp: queued_ok_def wq_forget_def)
  next
    case (Wake p ws k)
    show ?thesis
    proof (cases "bk_ws s")
      case Nil
      then show ?thesis using at Wake ok_at_moves(7) [of _ "inner_of p (bk_k s)"] at [of p] by (auto simp: queued_ok_def wq_wake_one_def)
    next
      case (Cons q qs)
      then have w: "ws = qs" "k = wake q (bk_k s)" using Wake(3) by (simp_all add: wq_wake_one_def)
      have ne: "q \<noteq> p" using at [of q] Cons Wake(2) by (auto simp: ok_at_def)
      have "distinct qs" "q \<notin> set qs" using d Cons by simp_all
      moreover have "ok_at (r \<in> set qs) (bk_pc s r) (inner_of r (bk_k s))" if "r \<noteq> q" for r using at [of r] Cons that by simp
      moreover have "ok_at False (bk_pc s q) (inner_of q (wake q (bk_k s)))" by (rule ok_at_woken(2) [OF at])
      moreover have "inner_of r (wake q (bk_k s)) = inner_of r (bk_k s)" if "r \<noteq> q" for r using that by (simp add: wake_inner)
      ultimately have "ok_at (r \<in> set qs) (((bk_pc s)(p := Outside)) r) (inner_of r (wake q (bk_k s)))" for r
        using ok_at_moves(7) [of "p \<in> set qs"] Wake(2) ne by (cases "r = q"; cases "r = p") fastforce+
      then show ?thesis using \<open>distinct qs\<close> Wake(1) w by (simp add: queued_ok_def)
    qed
  next
    case (Other q)
    then show ?thesis using d at ok_at_woken(1) [OF at [of q]] by (auto simp: queued_ok_def wake_inner)
  next
    case (Enter p)
    show ?thesis unfolding Enter(1) by (rule queued_ok_pc(1) [OF assms(2)]) (use Enter ok_at_moves(1) in \<open>simp add: state_of_def\<close>)
  next
    case (Take p r)
    show ?thesis unfolding Take(1) by (rule queued_ok_pc(2) [OF assms(2)]) (use Take ok_at_moves(2) in simp)
  next
    case (Fail p)
    show ?thesis unfolding Fail(1) by (rule queued_ok_pc(1) [OF assms(2)]) (use Fail ok_at_moves(3) in simp)
  next
    case (Check p)
    show ?thesis unfolding Check(1) by (rule queued_ok_pc(1) [OF assms(2)]) (use Check ok_at_moves(4) in simp)
  next
    case (Resume p)
    show ?thesis unfolding Resume(1) by (rule queued_ok_pc(1) [OF assms(2)]) (use Resume ok_at_moves(8) in \<open>simp add: state_of_def\<close>)
  next
    case (Give p r)
    show ?thesis unfolding Give(1) by (rule queued_ok_pc(2) [OF assms(2)]) (use Give ok_at_moves(6) in simp)
  qed
qed

lemma queued_ok_init: "queued_ok (blk_init r k)"
  by (simp add: queued_ok_def ok_at_def blk_init_def)

lemma queued_ok_reach:
  assumes "(blk_step T R G)\<^sup>*\<^sup>* (blk_init r k) s"
  shows "queued_ok s"
  using assms by (induction rule: rtranclp_induct) (auto intro: queued_ok_init queued_ok_step)

lemma sleeper_queued: "queued_ok s \<Longrightarrow> bk_pc s p = Asleep \<and> state_of p (bk_k s) = Some Blocked \<Longrightarrow> p \<in> set (bk_ws s)"
  by (fastforce simp: queued_ok_def ok_at_def state_of_def)

section \<open>The two primitives\<close>

interpretation mtx: blocking_resource mutex_cas Not "\<lambda>_. Some False" "\<lambda>l. if l then 0 else 1" 1
  by unfold_locales (auto simp: mutex_cas_def split: if_splits)

interpretation sem: blocking_resource sem_take "\<lambda>c. c > 0" sem_give "\<lambda>c. c" "2 ^ 63 - 1"
  by unfold_locales (auto simp: sem_take_def sem_give_def split: if_splits)

lemma sem_nonneg:
  assumes "sem_step\<^sup>*\<^sup>* (blk_init n k) s" "0 \<le> n"
  shows "0 \<le> bk_res s"
  using assms(1)
proof (induction rule: rtranclp_induct)
  case (step s s')
  from step(2,3) show ?case by cases (auto simp: sem_take_def sem_give_def split: if_splits)
qed (use assms(2) in \<open>simp add: blk_init_def\<close>)

lemma take_run:
  assumes "state_of p k \<noteq> Some Blocked" "T r = Some r'"
  shows "(blk_step T R G)\<^sup>*\<^sup>* (blk_init r k) \<lparr>bk_res = r', bk_ws = [], bk_k = k, bk_pc = (\<lambda>_. Outside)(p := Holding)\<rparr>"
proof -
  let ?s = "(blk_init r k)\<lparr>bk_pc := (\<lambda>_. Outside)(p := Trying)\<rparr>"
  have "blk_step T R G (blk_init r k) ?s" using Enter [of "blk_init r k" p T R G] assms(1) by (simp add: blk_init_def)
  moreover have "blk_step T R G ?s \<lparr>bk_res = r', bk_ws = [], bk_k = k, bk_pc = (\<lambda>_. Outside)(p := Holding)\<rparr>"
    using Take [of ?s p T r' R G] assms(2) by (simp add: blk_init_def)
  ultimately show ?thesis by (meson converse_rtranclp_into_rtranclp rtranclp.rtrancl_refl)
qed

text \<open>One task that can run.\<close>

definition one_task :: kstate where
  "one_task = (boot_state demo_mm demo_space)\<lparr>k_tasks := [1 \<mapsto> demo_task 1]\<rparr>"

lemma one_task_facts: "inner_of 1 one_task = Some (tk_inner (demo_task 1))" "state_of 1 one_task = Some Ready" "state_of 2 one_task = None"
  "ti_state (tk_inner (demo_task 1)) = Ready" "\<not> ti_wakeup_pending (tk_inner (demo_task 1))"
  by (simp_all add: one_task_def inner_of_def state_of_def demo_task_def fresh_inner_def)

section \<open>Properties\<close>

text \<open>
  C29: however callers of a \<^verbatim>\<open>Mutex\<close> interleave, with any wakeups from elsewhere, at most
  one of them holds it, the lock word says whether one does, and a caller that is blocked
  is on the wait queue, where the next release can find it.
\<close>

theorem mutex_exclusive:
  assumes "mutex_step\<^sup>*\<^sup>* (blk_init False k) s"
  shows "(\<forall>p q. bk_pc s p = Holding \<and> bk_pc s q = Holding \<longrightarrow> p = q) \<and> (bk_res s \<longleftrightarrow> (\<exists>p. bk_pc s p = Holding)) \<and>
    (\<forall>p. bk_pc s p = Asleep \<and> state_of p (bk_k s) = Some Blocked \<longrightarrow> p \<in> set (bk_ws s))"
proof -
  have c: "finite (holders (bk_pc s))" "(if bk_res s then 0 else 1) + int (card (holders (bk_pc s))) = 1"
    using mtx.conserved_reach [OF assms mtx.conserved_init] by (simp_all add: mtx.conserved_def split: if_splits)
  then have n: "card (holders (bk_pc s)) \<le> Suc 0" "bk_res s \<longleftrightarrow> holders (bk_pc s) \<noteq> {}" by (auto split: if_splits)
  have "\<forall>p\<in>holders (bk_pc s). \<forall>q\<in>holders (bk_pc s). p = q" using card_le_Suc0_iff_eq [OF c(1)] n(1) by blast
  moreover have "bk_res s \<longleftrightarrow> (\<exists>p. p \<in> holders (bk_pc s))" using n(2) by blast
  ultimately show ?thesis unfolding holders_iff Ball_def using sleeper_queued [OF queued_ok_reach [OF assms]] by blast
qed

theorem mutex_exclusive_witness:
  "\<exists>s. mutex_step\<^sup>*\<^sup>* (blk_init False one_task) s \<and> bk_pc s 1 = Holding \<and> bk_res s \<and> (\<forall>p. bk_pc s p = Holding \<longrightarrow> p = 1)"
proof -
  let ?s = "\<lparr>bk_res = True, bk_ws = [], bk_k = one_task, bk_pc = (\<lambda>_. Outside)(1 := Holding)\<rparr>"
  have run: "mutex_step\<^sup>*\<^sup>* (blk_init False one_task) ?s"
    by (rule take_run) (simp_all add: one_task_facts [simplified] mutex_cas_def)
  then obtain s where s: "mutex_step\<^sup>*\<^sup>* (blk_init False one_task) s" "bk_pc s 1 = Holding" by (metis blk.select_convs(4) fun_upd_same)
  then show ?thesis using mutex_exclusive [OF s(1)] by blast
qed



text \<open>
  C31: a wakeup can be lost between the check of \<^verbatim>\<open>wait_until\<close> and the queueing of the caller. Then the
  mutex is free, the caller is blocked, no wakeup is pending, and no other task is
  inside an operation of the mutex that would wake it.
\<close>

theorem mutex_lost_wakeup:
  assumes "inner_of p k = Some i" "ti_state i \<noteq> Blocked" "\<not> ti_wakeup_pending i" "state_of q k \<noteq> Some Blocked" "q \<noteq> p"
  shows "\<exists>s j. mutex_step\<^sup>*\<^sup>* (blk_init False k) s \<and> \<not> bk_res s \<and> bk_pc s p = Asleep \<and>
    inner_of p (bk_k s) = Some j \<and> ti_state j = Blocked \<and> \<not> ti_wakeup_pending j \<and> (\<forall>x. x \<noteq> p \<longrightarrow> bk_pc s x = Outside)"
proof -
  let ?S = "\<lambda>l ws k pp pq. \<lparr>bk_res = l, bk_ws = ws, bk_k = k, bk_pc = (\<lambda>_. Outside)(p := pp, q := pq)\<rparr>"
  have e: "blk_init False k = ?S False [] k Outside Outside" by (auto simp: blk_init_def fun_eq_iff)
  have "mutex_step (?S False [] k Outside Outside) (?S False [] k Outside Trying)"
    using Enter [of "?S False [] k Outside Outside" q] assms by (simp add: fun_upd_twist)
  moreover have "mutex_step (?S False [] k Outside Trying) (?S True [] k Outside Holding)"
    using Take [of "?S False [] k Outside Trying" q mutex_cas True] assms by (simp add: mutex_cas_def)
  moreover have "mutex_step (?S True [] k Outside Holding) (?S True [] k Trying Holding)"
    using Enter [of "?S True [] k Outside Holding" p] assms by (simp add: fun_upd_twist state_of_def)
  moreover have "mutex_step (?S True [] k Trying Holding) (?S True [] k Checking Holding)"
    using Fail [of "?S True [] k Trying Holding" p] assms by (simp add: fun_upd_twist mutex_cas_def)
  moreover have "mutex_step (?S True [] k Checking Holding) (?S True [] k Queueing Holding)"
    using Check [of "?S True [] k Checking Holding" p _ Not] assms by (simp add: fun_upd_twist)
  moreover have "mutex_step (?S True [] k Queueing Holding) (?S False [] k Queueing Waking)"
    using Give [of "?S True [] k Queueing Holding" q "\<lambda>_. Some False"] assms by simp
  moreover have "mutex_step (?S False [] k Queueing Waking) (?S False [] k Queueing Outside)"
    using Wake [of "?S False [] k Queueing Waking" q] assms by (simp add: wq_wake_one_def)
  moreover have "mutex_step (?S False [] k Queueing Outside) (?S False [p] k Blocking Outside)"
    using Enqueue [of "?S False [] k Queueing Outside" p] assms by (simp add: fun_upd_twist wq_enqueue_def)
  moreover have "mutex_step (?S False [p] k Blocking Outside) (?S False [p] (block_self p k) Asleep Outside)"
    using Block [of "?S False [p] k Blocking Outside" p] assms by (simp add: fun_upd_twist)
  ultimately have "mutex_step\<^sup>*\<^sup>* (blk_init False k) (?S False [p] (block_self p k) Asleep Outside)"
    unfolding e by (meson converse_rtranclp_into_rtranclp rtranclp.rtrancl_refl)
  then show ?thesis using assms
    by (intro exI [of _ "?S False [p] (block_self p k) Asleep Outside"] exI [of _ "i\<lparr>ti_state := Blocked\<rparr>"]) (simp add: block_self_inner)
qed

theorem mutex_lost_wakeup_witness:
  "\<exists>s. mutex_step\<^sup>*\<^sup>* (blk_init False one_task) s \<and> \<not> bk_res s \<and> state_of 1 (bk_k s) = Some Blocked \<and> (\<forall>x. x \<noteq> 1 \<longrightarrow> bk_pc s x = Outside)"
proof -
  have "\<exists>s j. mutex_step\<^sup>*\<^sup>* (blk_init False one_task) s \<and> \<not> bk_res s \<and> bk_pc s 1 = Asleep \<and>
    inner_of 1 (bk_k s) = Some j \<and> ti_state j = Blocked \<and> \<not> ti_wakeup_pending j \<and> (\<forall>x. x \<noteq> 1 \<longrightarrow> bk_pc s x = Outside)"
    by (rule mutex_lost_wakeup [of 1 one_task "tk_inner (demo_task 1)" 2]) (simp_all add: one_task_facts one_task_facts [simplified])
  then show ?thesis by (auto simp: state_of_def)
qed

end
