(* ===== verification/Syscall.thy ===== *)
theory Syscall
  imports Process Plic Timer
begin

text \<open>
  System calls: the numbers and error codes of \<^verbatim>\<open>abi/syscall.rs\<close> and the dispatch of
  \<^verbatim>\<open>kernel/src/syscall/mod.rs\<close>. A call runs until it returns or has to give up the
  processor; the outcome says which. A call that sleeps has to be entered again once the task
  runs, which is the next iteration of its loop: what precedes the loop depends on the arguments
  only. The outer \<open>None\<close> is a panic.
\<close>

unbundle bit_operations_syntax

section \<open>The interface\<close>

abbreviation (input) SYS_EXIT :: usize where "SYS_EXIT \<equiv> 0"
abbreviation (input) SYS_WRITE :: usize where "SYS_WRITE \<equiv> 1"
abbreviation (input) SYS_READ :: usize where "SYS_READ \<equiv> 2"
abbreviation (input) SYS_YIELD :: usize where "SYS_YIELD \<equiv> 3"
abbreviation (input) SYS_GETPID :: usize where "SYS_GETPID \<equiv> 4"
abbreviation (input) SYS_GETPPID :: usize where "SYS_GETPPID \<equiv> 5"
abbreviation (input) SYS_FORK :: usize where "SYS_FORK \<equiv> 6"
abbreviation (input) SYS_EXEC :: usize where "SYS_EXEC \<equiv> 7"
abbreviation (input) SYS_WAITPID :: usize where "SYS_WAITPID \<equiv> 8"
abbreviation (input) SYS_SBRK :: usize where "SYS_SBRK \<equiv> 9"
abbreviation (input) SYS_UPTIME :: usize where "SYS_UPTIME \<equiv> 10"
abbreviation (input) SYS_PS :: usize where "SYS_PS \<equiv> 11"

abbreviation (input) STDIN :: usize where "STDIN \<equiv> 0"
abbreviation (input) STDOUT :: usize where "STDOUT \<equiv> 1"
abbreviation (input) STDERR :: usize where "STDERR \<equiv> 2"

abbreviation (input) EINVAL :: isize where "EINVAL \<equiv> -1"
abbreviation (input) ENOENT :: isize where "ENOENT \<equiv> -2"
abbreviation (input) EBADF :: isize where "EBADF \<equiv> -3"
abbreviation (input) ENOMEM :: isize where "ENOMEM \<equiv> -4"
abbreviation (input) ECHILD :: isize where "ECHILD \<equiv> -5"
abbreviation (input) EFAULT :: isize where "EFAULT \<equiv> -6"
abbreviation (input) ENOSYS :: isize where "ENOSYS \<equiv> -7"

abbreviation (input) MAX_STR :: usize where "MAX_STR \<equiv> 256"
abbreviation (input) MAX_IO :: usize where "MAX_IO \<equiv> 65536"
abbreviation (input) MAX_ARGS :: usize where "MAX_ARGS \<equiv> 32"

text \<open>Casts between the integer types.\<close>

definition as_isize :: "usize \<Rightarrow> isize" where
  "as_isize n = (if n < 2 ^ 63 then int n else int n - 2 ^ 64)"

definition as_usize :: "isize \<Rightarrow> usize" where
  "as_usize i = nat (i mod 2 ^ 64)"

definition as_i32 :: "usize \<Rightarrow> int" where
  "as_i32 n = (let m = n mod 2 ^ 32 in if m < 2 ^ 31 then int m else int m - 2 ^ 32)"

section \<open>State and outcomes\<close>

record 'd sys =
  sy_k :: kstate
  sy_uart :: uart_statics
  sy_timer :: timer_statics
  sy_dev :: 'd

text \<open>What is fixed while a call runs: the machine, addresses fixed by the linker, the embedded
  programs, the hart, whose number is in \<^verbatim>\<open>tp\<close>, and where formatted text is.\<close>

record 'd env =
  en_machine :: "'d machine"
  en_syms :: link_syms
  en_programs :: programs
  en_hart :: nat
  en_text :: virt_addr

text \<open>
  \<open>Ret\<close> returns to the caller. \<open>Replaced\<close> returns too, but the caller's trap frame has been
  replaced. \<open>Switched\<close> has switched away and returns its value when the task runs again.
  The calls that sleep do so on \<^verbatim>\<open>READERS\<close> or on the task's \<^verbatim>\<open>child_exit\<close>. \<open>Exited\<close> never returns.
\<close>

datatype sys_out = Ret isize | Replaced isize | Switched isize | Sleep_Input | Sleep_Child | Exited

section \<open>Calls on the console\<close>

definition read_user_buf :: "nat \<Rightarrow> usize \<Rightarrow> usize \<Rightarrow> kstate \<Rightarrow> u8 list option option" where
  "read_user_buf h ptr len k =
     (if MAX_IO < len then Some None
      else case checked_add ptr len of
        None \<Rightarrow> Some None
      | Some e \<Rightarrow>
          if USER_MAX_ADDR < e then Some None
          else do {
            p \<leftarrow> current_task h k;
            inner \<leftarrow> inner_of p k;
            case ti_space inner of
              None \<Rightarrow> Some None
            | Some space \<Rightarrow> copy_from_user space ptr len (k_mm k)
          })"

definition sys_write :: "'d env \<Rightarrow> usize \<Rightarrow> usize \<Rightarrow> usize \<Rightarrow> 'd sys \<Rightarrow> (sys_out \<times> 'd sys) option" where
  "sys_write E fd ptr len st =
     (if fd \<noteq> STDOUT \<and> fd \<noteq> STDERR then Some (Ret EBADF, st)
      else do {
        b \<leftarrow> read_user_buf (en_hart E) ptr len (sy_k st);
        case b of
          None \<Rightarrow> Some (Ret EFAULT, st)
        | Some buf \<Rightarrow> do {
            d \<leftarrow> write_bytes (en_machine E) (sy_uart st) buf (sy_dev st);
            Some (Ret (as_isize len), st\<lparr>sy_dev := d\<rparr>)
          }
      })"

text \<open>The loop of \<^verbatim>\<open>sys_read\<close>: at most \<open>n\<close> more bytes.\<close>

primrec take_input :: "nat \<Rightarrow> u8 list \<Rightarrow> uart_statics \<Rightarrow> u8 list \<times> uart_statics" where
  "take_input 0 buf u = (buf, u)"
| "take_input (Suc n) buf u =
     (case read_byte u of
        (Some b, u1) \<Rightarrow> take_input n (buf @ [b]) u1
      | (None, u1) \<Rightarrow> (buf, u1))"

definition sys_read :: "'d env \<Rightarrow> usize \<Rightarrow> usize \<Rightarrow> usize \<Rightarrow> 'd sys \<Rightarrow> (sys_out \<times> 'd sys) option" where
  "sys_read E fd ptr len st =
     (if fd \<noteq> STDIN then Some (Ret EBADF, st)
      else if len = 0 then Some (Ret 0, st)
      else if MAX_IO < len \<or> (case checked_add ptr len of None \<Rightarrow> True | Some e \<Rightarrow> USER_MAX_ADDR < e) then Some (Ret EFAULT, st)
      else if \<not> has_input (sy_uart st) then Some (Sleep_Input, st)
      else do {
        let (buf, u) = take_input len [] (sy_uart st);
        let st1 = st\<lparr>sy_uart := u\<rparr>;
        p \<leftarrow> current_task (en_hart E) (sy_k st1);
        inner \<leftarrow> inner_of p (sy_k st1);
        case ti_space inner of
          None \<Rightarrow> Some (Ret EFAULT, st1)
        | Some space \<Rightarrow> do {
            (r, mm) \<leftarrow> copy_to_user space ptr buf (k_mm (sy_k st1));
            let st2 = st1\<lparr>sy_k := (sy_k st1)\<lparr>k_mm := mm\<rparr>\<rparr>;
            Some (case r of Some _ \<Rightarrow> Ret (as_isize (length buf)) | None \<Rightarrow> Ret EFAULT, st2)
          }
      })"

text \<open>\<^verbatim>\<open>READERS.wait()\<close>, up to the switch and after it.\<close>

definition readers_wait :: "'d env \<Rightarrow> 'd sys \<Rightarrow> 'd sys option" where
  "readers_wait E st = do {
     p \<leftarrow> current_task (en_hart E) (sy_k st);
     let u = (sy_uart st)\<lparr>us_readers := wq_enqueue p (us_readers (sy_uart st))\<rparr>;
     k \<leftarrow> block_current (en_hart E) (sy_k st);
     Some (st\<lparr>sy_uart := u, sy_k := k\<rparr>)
   }"

definition readers_resume :: "pid \<Rightarrow> 'd sys \<Rightarrow> 'd sys" where
  "readers_resume p st = st\<lparr>sy_uart := (sy_uart st)\<lparr>us_readers := wq_forget p (us_readers (sy_uart st))\<rparr>\<rparr>"

section \<open>Calls on processes\<close>

definition sys_getppid :: "nat \<Rightarrow> kstate \<Rightarrow> isize option" where
  "sys_getppid h k = do {
     p \<leftarrow> current_task h k;
     inner \<leftarrow> inner_of p k;
     case ti_parent inner of
       None \<Rightarrow> Some 0
     | Some q \<Rightarrow> (case k_tasks k q of None \<Rightarrow> Some 0 | Some t \<Rightarrow> Some (as_isize (tk_pid t)))
   }"

definition sys_fork :: "link_syms \<Rightarrow> nat \<Rightarrow> trap_frame \<Rightarrow> kstate \<Rightarrow> (isize \<times> kstate) option" where
  "sys_fork syms h frame k = do {
     parent \<leftarrow> current_task h k;
     (c, k1) \<leftarrow> fork_from syms h parent frame k;
     case c of
       None \<Rightarrow> Some (ENOMEM, k1)
     | Some child \<Rightarrow> do {
         let pid = as_isize (tk_pid child);
         let k2 = upd_inner parent (\<lambda>i. i\<lparr>ti_children := ti_children i @ [tk_pid child]\<rparr>) k1;
         k3 \<leftarrow> admit child k2;
         Some (pid, k3)
       }
   }"

text \<open>The loop over \<^verbatim>\<open>argv\<close>; \<open>left\<close> entries remain.\<close>

fun read_argv :: "nat \<Rightarrow> address_space \<Rightarrow> usize \<Rightarrow> usize \<Rightarrow> rust_string list \<Rightarrow> mm_state \<Rightarrow> rust_string list option option" where
  "read_argv 0 space argv_ptr i args s = Some (Some args)"
| "read_argv (Suc left) space argv_ptr i args s = do {
     a \<leftarrow> checked_add argv_ptr (i * 8);
     slot \<leftarrow> copy_from_user space a 8 s;
     case slot of
       None \<Rightarrow> Some None
     | Some bytes \<Rightarrow>
         let p = from_le_bytes bytes
         in if p = 0 then Some (Some args)
            else do {
              r \<leftarrow> read_cstr space p MAX_STR s;
              case r of
                Some str \<Rightarrow> read_argv left space argv_ptr (i + 1) (args @ [str]) s
              | None \<Rightarrow> Some None
            }
   }"

definition sys_exec :: "'d env \<Rightarrow> usize \<Rightarrow> usize \<Rightarrow> usize \<Rightarrow> kstate \<Rightarrow> (sys_out \<times> kstate) option" where
  "sys_exec E sstatus path_ptr argv_ptr k = do {
     p \<leftarrow> current_task (en_hart E) k;
     inner \<leftarrow> inner_of p k;
     case ti_space inner of
       None \<Rightarrow> Some (Ret EFAULT, k)
     | Some space \<Rightarrow> do {
         pr \<leftarrow> read_cstr space path_ptr MAX_STR (k_mm k);
         case pr of
           None \<Rightarrow> Some (Ret EFAULT, k)
         | Some path \<Rightarrow> do {
             ar \<leftarrow> (if argv_ptr \<noteq> 0 then read_argv MAX_ARGS space argv_ptr 0 [] (k_mm k) else Some (Some []));
             case ar of
               None \<Rightarrow> Some (Ret EFAULT, k)
             | Some args \<Rightarrow>
                 (case programs_find (en_programs E) path of
                    None \<Rightarrow> Some (Ret ENOENT, k)
                  | Some img \<Rightarrow> do {
                      (r, k1) \<leftarrow> exec_current (en_hart E) sstatus (en_hart E) p path img args k;
                      Some (case r of
                          Inr _ \<Rightarrow> Replaced 0
                        | Inl ExecOutOfMemory \<Rightarrow> Ret ENOMEM
                        | Inl (BadImage _) \<Rightarrow> Ret EINVAL, k1)
                    })
           }
       }
   }"

text \<open>
  Dropping the last reference to a task frees its kernel stack and its space. The run
  queue and the harts may hold further references.
\<close>

definition arc_held :: "pid \<Rightarrow> kstate \<Rightarrow> bool" where
  "arc_held c k \<longleftrightarrow> c \<in> set (concat (rq_levels (k_rq k))) \<or>
     list_ex (\<lambda>cpu. cpu_current cpu = Some c \<or> cpu_previous cpu = Some c) (k_cpus k)"

definition drop_task :: "pid \<Rightarrow> kstate \<Rightarrow> kstate option" where
  "drop_task c k =
     (if arc_held c k then Some k
      else do {
        inner \<leftarrow> inner_of c k;
        mm1 \<leftarrow> frame_drop (ks_frames (ti_kstack inner)) (k_mm k);
        mm2 \<leftarrow> (case ti_space inner of None \<Rightarrow> Some mm1 | Some space \<Rightarrow> space_drop space mm1);
        Some (k\<lparr>k_mm := mm2, k_tasks := (k_tasks k)(c := None)\<rparr>)
      })"

definition wait_matches :: "isize \<Rightarrow> pid \<Rightarrow> bool" where
  "wait_matches want c \<longleftrightarrow> want < 0 \<or> as_isize c = want"

text \<open>One iteration of the loop of \<^verbatim>\<open>sys_waitpid\<close>.\<close>

definition sys_waitpid :: "nat \<Rightarrow> isize \<Rightarrow> usize \<Rightarrow> kstate \<Rightarrow> (sys_out \<times> kstate) option" where
  "sys_waitpid h want status_ptr k = do {
     p \<leftarrow> current_task h k;
     inner \<leftarrow> inner_of p k;
     let any = (if want < 0 then ti_children inner \<noteq> [] else list_ex (\<lambda>c. as_isize c = want) (ti_children inner));
     case List.find (\<lambda>c. wait_matches want c \<and> state_of c k = Some Zombie) (ti_children inner) of
       Some c \<Rightarrow> do {
         let k1 = upd_inner p (\<lambda>i. i\<lparr>ti_children := remove1 c (ti_children i)\<rparr>) k;
         ci \<leftarrow> inner_of c k1;
         k2 \<leftarrow> (if status_ptr \<noteq> 0 then
                  (case ti_space inner of
                     None \<Rightarrow> Some k1
                   | Some space \<Rightarrow> do {
                       (_, mm) \<leftarrow> copy_to_user space status_ptr (to_le_bytes 4 (nat (ti_exit_code ci mod 2 ^ 32))) (k_mm k1);
                       Some (k1\<lparr>k_mm := mm\<rparr>)
                     })
                else Some k1);
         k3 \<leftarrow> drop_task c k2;
         Some (Ret (as_isize c), k3)
       }
     | None \<Rightarrow> Some (if \<not> any then Ret ECHILD else Sleep_Child, k)
   }"

text \<open>\<^verbatim>\<open>task.child_exit.wait()\<close>, up to the switch and after it.\<close>

definition child_wait :: "nat \<Rightarrow> kstate \<Rightarrow> kstate option" where
  "child_wait h k = do {
     p \<leftarrow> current_task h k;
     block_current h (upd_child_exit p (wq_enqueue p) k)
   }"

definition child_resume :: "pid \<Rightarrow> kstate \<Rightarrow> kstate" where
  "child_resume p k = upd_child_exit p (wq_forget p) k"

definition sys_sbrk :: "nat \<Rightarrow> isize \<Rightarrow> kstate \<Rightarrow> (isize \<times> kstate) option" where
  "sys_sbrk h delta k = do {
     p \<leftarrow> current_task h k;
     (r, k1) \<leftarrow> adjust_brk p delta k;
     Some (case r of Some old \<Rightarrow> as_isize old | None \<Rightarrow> ENOMEM, k1)
   }"

text \<open>\<^verbatim>\<open>scheduler::dump_tasks\<close>: the columns of the table it prints, one row for each task that still exists.\<close>

record task_row =
  row_pid :: usize
  row_ppid :: usize
  row_name :: rust_string
  row_state :: task_state
  row_level :: usize
  row_free :: usize

definition task_row_of :: "kstate \<Rightarrow> task \<Rightarrow> task_row" where
  "task_row_of k t =
     (let inner = tk_inner t
      in \<lparr>row_pid = tk_pid t,
          row_ppid = (case ti_parent inner of None \<Rightarrow> 0 | Some q \<Rightarrow> (case k_tasks k q of None \<Rightarrow> 0 | Some r \<Rightarrow> tk_pid r)),
          row_name = tk_name t, row_state = ti_state inner, row_level = ti_level inner,
          row_free = headroom (ti_kstack inner) (cx_sp (ti_ctx inner))\<rparr>)"

text \<open>The formatting the table uses: decimal numbers and padding to a number of characters.\<close>

definition bytes_of :: "string \<Rightarrow> u8 list" where
  "bytes_of s = map of_char s"

fun dec :: "nat \<Rightarrow> u8 list" where
  "dec n = (if n < 10 then [48 + word_of_nat n] else dec (n div 10) @ [48 + word_of_nat (n mod 10)])"

definition char_count :: "rust_string \<Rightarrow> nat" where
  "char_count s = length (filter (\<lambda>b. \<not> utf8_cont b) s)"

definition pad_left :: "nat \<Rightarrow> rust_string \<Rightarrow> rust_string" where
  "pad_left w s = replicate (w - char_count s) 32 @ s"

definition pad_right :: "nat \<Rightarrow> rust_string \<Rightarrow> rust_string" where
  "pad_right w s = s @ replicate (w - char_count s) 32"

fun state_name :: "task_state \<Rightarrow> rust_string" where
  "state_name Ready = bytes_of ''Ready''"
| "state_name Running = bytes_of ''Running''"
| "state_name Blocked = bytes_of ''Blocked''"
| "state_name Zombie = bytes_of ''Zombie''"

definition table_line :: "rust_string list \<Rightarrow> rust_string" where
  "table_line cols =
     pad_left 5 (cols ! 0) @ [32, 32] @ pad_left 5 (cols ! 1) @ [32, 32] @ pad_right 10 (cols ! 2) @ [32, 32] @
     pad_right 9 (cols ! 3) @ [32, 32] @ pad_left 3 (cols ! 4) @ [32, 32] @ cols ! 5 @ [10]"

definition row_text :: "task_row \<Rightarrow> rust_string" where
  "row_text r = table_line [dec (row_pid r), dec (row_ppid r), row_name r, state_name (row_state r), dec (row_level r),
     dec (row_free r) @ bytes_of '' B free'']"

definition dump_tasks :: "kstate \<Rightarrow> rust_string \<times> kstate" where
  "dump_tasks k =
     (let all = filter (\<lambda>p. k_tasks k p \<noteq> None) (k_all k);
          snapshot = List.map_filter (k_tasks k) all
      in (table_line (map bytes_of [''PID'', ''PPID'', ''NAME'', ''STATE'', ''LVL'', ''KSTACK'']) @
            concat (map (\<lambda>t. row_text (task_row_of k t)) snapshot),
          k\<lparr>k_all := all\<rparr>))"

definition sys_ps :: "'d env \<Rightarrow> 'd sys \<Rightarrow> (sys_out \<times> 'd sys) option" where
  "sys_ps E st = do {
     let (text, k) = dump_tasks (sy_k st);
     d \<leftarrow> console_write_str (en_machine E) (sy_uart st) (en_text E) text (sy_dev st);
     Some (Ret 0, st\<lparr>sy_k := k, sy_dev := d\<rparr>)
   }"

section \<open>Dispatch\<close>

definition on_k :: "('a \<Rightarrow> sys_out) \<Rightarrow> ('a \<times> kstate) option \<Rightarrow> 'd sys \<Rightarrow> (sys_out \<times> 'd sys) option" where
  "on_k f r st = map_option (\<lambda>(x, k). (f x, st\<lparr>sy_k := k\<rparr>)) r"

definition dispatch :: "'d env \<Rightarrow> usize \<Rightarrow> trap_frame \<Rightarrow> 'd sys \<Rightarrow> (sys_out \<times> 'd sys) option" where
  "dispatch E sstatus frame st =
     (let h = en_hart E; k = sy_k st; id = tf_syscall_id frame;
          a0 = tf_arg frame 0; a1 = tf_arg frame 1; a2 = tf_arg frame 2
      in if id = SYS_EXIT then on_k (\<lambda>_. Exited) (map_option (Pair ()) (exit_current h (as_i32 a0) k)) st
         else if id = SYS_WRITE then sys_write E a0 a1 a2 st
         else if id = SYS_READ then sys_read E a0 a1 a2 st
         else if id = SYS_YIELD then on_k (\<lambda>_. Switched 0) (map_option (Pair ()) (yield_now h k)) st
         else if id = SYS_GETPID then map_option (\<lambda>p. (Ret (as_isize p), st)) (current_task h k)
         else if id = SYS_GETPPID then map_option (\<lambda>v. (Ret v, st)) (sys_getppid h k)
         else if id = SYS_FORK then on_k Ret (sys_fork (en_syms E) h frame k) st
         else if id = SYS_EXEC then on_k (\<lambda>r. r) (sys_exec E sstatus a0 a1 k) st
         else if id = SYS_WAITPID then on_k (\<lambda>r. r) (sys_waitpid h (as_isize a0) a1 k) st
         else if id = SYS_SBRK then on_k Ret (sys_sbrk h (as_isize a0) k) st
         else if id = SYS_UPTIME then map_option (\<lambda>(t, d). (Ret (as_isize t), st\<lparr>sy_dev := d\<rparr>)) (uptime_ms (en_machine E) (sy_dev st))
         else if id = SYS_PS then sys_ps E st
         else map_option (\<lambda>_. (Ret ENOSYS, st)) (current_task h k))"

end
