(* ===== verification/Trap.thy ===== *)
theory Trap
  imports Syscall
begin

text \<open>
  Traps, \<^verbatim>\<open>kernel/src/trap/mod.rs\<close>: decoding of \<^verbatim>\<open>scause\<close>, the handler for traps taken in the
  kernel and the one for traps taken in user mode. The assembly entries save the registers in
  the trap frame and restore them from it; the handlers are modelled between the two. The frame a
  user trap works on is the one its task owns. The outer \<open>None\<close> is a panic; log messages are left out.
\<close>

unbundle bit_operations_syntax

section \<open>Causes\<close>

datatype fault_kind = Fetch | Load | Store

datatype cause = SoftwareInterrupt | TimerInterrupt | ExternalInterrupt | UserEcall | PageFault fault_kind
  | IllegalInstruction | Breakpoint | AccessFault fault_kind | Unknown usize

definition decode :: "usize \<Rightarrow> cause" where
  "decode scause =
     (let is_interrupt = drop_bit 63 scause \<noteq> 0;
          code = scause AND usize_not (2 ^ 63)
      in if is_interrupt then
           (if code = 1 then SoftwareInterrupt
            else if code = 5 then TimerInterrupt
            else if code = 9 then ExternalInterrupt
            else Unknown scause)
         else
           (if code = 2 then IllegalInstruction
            else if code = 3 then Breakpoint
            else if code = 5 then AccessFault Load
            else if code = 7 then AccessFault Store
            else if code = 8 then UserEcall
            else if code = 12 then PageFault Fetch
            else if code = 13 then PageFault Load
            else if code = 15 then PageFault Store
            else Unknown scause))"

definition was_user :: "usize \<Rightarrow> bool" where
  "was_user sstatus \<longleftrightarrow> sstatus AND SSTATUS_SPP = 0"

datatype address_note = Null_Dereference | Unchecked_User_Address | Non_Canonical | Kernel_Permission

definition describe_address :: "usize \<Rightarrow> address_note" where
  "describe_address addr =
     (if addr < PAGE_SIZE then Null_Dereference
      else if addr < USER_MAX_ADDR then Unchecked_User_Address
      else if addr < VIRT_OFFSET then Non_Canonical
      else Kernel_Permission)"

section \<open>Set-up\<close>

text \<open>Where the linker put the two assembly entries.\<close>

record trap_syms =
  ts_kernel_entry :: usize
  ts_user_entry :: usize

definition set_user_vector :: "trap_syms \<Rightarrow> hart_csr \<Rightarrow> hart_csr" where
  "set_user_vector T c = c\<lparr>csr_stvec := ts_user_entry T\<rparr>"

definition set_kernel_vector :: "trap_syms \<Rightarrow> hart_csr \<Rightarrow> hart_csr" where
  "set_kernel_vector T c = c\<lparr>csr_stvec := ts_kernel_entry T\<rparr>"

definition trap_init :: "trap_syms \<Rightarrow> hart_csr \<Rightarrow> hart_csr" where
  "trap_init T c = c\<lparr>csr_stvec := ts_kernel_entry T\<rparr>"

definition enable_interrupts :: "hart_csr \<Rightarrow> hart_csr" where
  "enable_interrupts c = intr_enable (c\<lparr>csr_sie := csr_set (INT_STIE OR INT_SEIE OR INT_SSIE) (csr_sie c)\<rparr>)"

section \<open>Traps in the kernel\<close>

text \<open>The three interrupts, which both handlers serve alike.\<close>

definition timer_tick :: "'d env \<Rightarrow> 'd sys \<Rightarrow> 'd sys option" where
  "timer_tick E st =
     map_option (\<lambda>(t, k, d). st\<lparr>sy_timer := t, sy_k := k, sy_dev := d\<rparr>)
       (on_tick (en_machine E) (en_hart E) (sy_timer st, sy_k st, sy_dev st))"

definition external_interrupt :: "'d env \<Rightarrow> 'd sys \<Rightarrow> 'd sys option" where
  "external_interrupt E st =
     map_option (\<lambda>(u, k, d). st\<lparr>sy_uart := u, sy_k := k, sy_dev := d\<rparr>)
       (handle_external_interrupt (en_machine E) (en_hart E) (sy_uart st) (sy_k st) (sy_dev st))"

definition ack_ipi :: "hart_csr \<Rightarrow> hart_csr" where
  "ack_ipi c = c\<lparr>csr_sip := csr_clear INT_SSIE (csr_sip c)\<rparr>"

definition resched :: "'d env \<Rightarrow> 'd sys \<Rightarrow> 'd sys option" where
  "resched E st = map_option (\<lambda>k. st\<lparr>sy_k := k\<rparr>) (resched_if_needed (en_hart E) (sy_k st))"

definition kernel_trap_handler :: "'d env \<Rightarrow> hart_csr \<Rightarrow> 'd sys \<Rightarrow> (hart_csr \<times> 'd sys) option" where
  "kernel_trap_handler E c st = do {
     (c1, st1) \<leftarrow> (case decode (csr_scause c) of
         TimerInterrupt \<Rightarrow> map_option (Pair c) (timer_tick E st)
       | ExternalInterrupt \<Rightarrow> map_option (Pair c) (external_interrupt E st)
       | SoftwareInterrupt \<Rightarrow> Some (ack_ipi c, st)
       | _ \<Rightarrow> None);
     st2 \<leftarrow> resched E st1;
     Some (c1, st2)
   }"

section \<open>Traps in user mode\<close>

text \<open>
  How the handler ends: it returns the frame to resume, another task has been
  switched in and the rest runs when this one is picked again, the system call
  waits or has switched away, or the task is gone.
\<close>

datatype trap_out = Resume trap_frame | Preempted | Pending sys_out | Dead

definition upd_frame :: "pid \<Rightarrow> (trap_frame \<Rightarrow> trap_frame) \<Rightarrow> kstate \<Rightarrow> kstate" where
  "upd_frame p f k = upd_inner p (\<lambda>i. i\<lparr>ti_frame := map_option f (ti_frame i)\<rparr>) k"

text \<open>The end of the handler, for the task \<open>p\<close>.\<close>

definition user_return :: "'d env \<Rightarrow> trap_syms \<Rightarrow> pid \<Rightarrow> hart_csr \<Rightarrow> 'd sys \<Rightarrow> (trap_out \<times> hart_csr \<times> 'd sys) option" where
  "user_return E T p c st = do {
     st1 \<leftarrow> resched E st;
     if current (en_hart E) (sy_k st1) = Some p then do {
       frame \<leftarrow> frame_ptr p (sy_k st1);
       Some (Resume frame, set_user_vector T c, st1)
     }
     else Some (Preempted, c, st1)
   }"

text \<open>A system call that returns \<open>v\<close>: \<^verbatim>\<open>set_return\<close> writes the frame the handler was called with.\<close>

definition ecall_return :: "'d env \<Rightarrow> trap_syms \<Rightarrow> pid \<Rightarrow> isize \<Rightarrow> hart_csr \<Rightarrow> 'd sys \<Rightarrow> (trap_out \<times> hart_csr \<times> 'd sys) option" where
  "ecall_return E T p v c st =
     user_return E T p (intr_disable c) (st\<lparr>sy_k := upd_frame p (tf_set_return (as_usize v)) (sy_k st)\<rparr>)"

definition kill_current :: "'d env \<Rightarrow> 'd sys \<Rightarrow> 'd sys option" where
  "kill_current E st = map_option (\<lambda>k. st\<lparr>sy_k := k\<rparr>) (exit_current (en_hart E) (-11) (sy_k st))"

text \<open>
  After a successful \<^verbatim>\<open>exec\<close> the frame the handler was called with has been freed together with the old
  image, and the write of \<^verbatim>\<open>set_return\<close> goes to freed memory of the kernel heap. The frame that is
  resumed is the new one.
\<close>

definition user_trap_handler :: "'d env \<Rightarrow> trap_syms \<Rightarrow> hart_csr \<Rightarrow> 'd sys \<Rightarrow> (trap_out \<times> hart_csr \<times> 'd sys) option" where
  "user_trap_handler E T c st = do {
     let c1 = set_kernel_vector T c;
     p \<leftarrow> current_task (en_hart E) (sy_k st);
     case decode (csr_scause c1) of
       UserEcall \<Rightarrow> do {
         frame \<leftarrow> frame_ptr p (sy_k st);
         pc \<leftarrow> checked_add (tf_sepc frame) 4;
         let frame1 = frame\<lparr>tf_sepc := pc\<rparr>;
         let st1 = st\<lparr>sy_k := upd_frame p (\<lambda>_. frame1) (sy_k st)\<rparr>;
         let c2 = intr_enable c1;
         (out, st2) \<leftarrow> dispatch E (csr_sstatus c2) frame1 st1;
         case out of
           Ret v \<Rightarrow> ecall_return E T p v c2 st2
         | Replaced v \<Rightarrow> user_return E T p (intr_disable c2) st2
         | Exited \<Rightarrow> Some (Dead, c2, st2)
         | _ \<Rightarrow> Some (Pending out, c2, st2)
       }
     | TimerInterrupt \<Rightarrow> do { st1 \<leftarrow> timer_tick E st; user_return E T p c1 st1 }
     | ExternalInterrupt \<Rightarrow> do { st1 \<leftarrow> external_interrupt E st; user_return E T p c1 st1 }
     | SoftwareInterrupt \<Rightarrow> user_return E T p (ack_ipi c1) st
     | _ \<Rightarrow> do { st1 \<leftarrow> kill_current E st; Some (Dead, c1, st1) }
   }"

text \<open>\<^verbatim>\<open>process::user_entry\<close>: the frame a new task starts from.\<close>

definition user_entry :: "'d env \<Rightarrow> trap_syms \<Rightarrow> hart_csr \<Rightarrow> 'd sys \<Rightarrow> (trap_frame \<times> hart_csr) option" where
  "user_entry E T c st = do {
     p \<leftarrow> current_task (en_hart E) (sy_k st);
     frame \<leftarrow> frame_ptr p (sy_k st);
     Some (frame, set_user_vector T c)
   }"

end
