(* ===== verification/Exit.thy ===== *)
theory Exit
  imports Process_Correct Blocking Trap
begin

text \<open>
  The end of a process: \<^verbatim>\<open>exit_current\<close> of \<^verbatim>\<open>kernel/src/task/scheduler.rs\<close>, which the exit call and
  a fault in user mode both reach, and its interplay with \<^verbatim>\<open>waitpid\<close>.
\<close>

section \<open>What wakeups and switches leave alone\<close>

lemma wake_simps [simp]: "k_mm (wake p k) = k_mm k" "k_space (wake p k) = k_space k" "k_cpus (wake p k) = k_cpus k"
  by (auto simp: wake_def Let_def upd_inner_def split: option.splits)

lemma fold_wake_simps [simp]: "k_mm (fold wake ws k) = k_mm k" "k_space (fold wake ws k) = k_space k" "k_cpus (fold wake ws k) = k_cpus k"
  by (induction ws arbitrary: k) simp_all

text \<open>A wakeup changes the scheduling fields of a task only.\<close>

definition same_core :: "task_inner option \<Rightarrow> task_inner option \<Rightarrow> bool" where
  "same_core a b \<longleftrightarrow> (case a of None \<Rightarrow> b = None | Some i \<Rightarrow> \<exists>j. b = Some j \<and> ti_exit_code j = ti_exit_code i \<and> ti_space j = ti_space i \<and>
     ti_kstack j = ti_kstack i \<and> ti_frame j = ti_frame i \<and> ti_brk j = ti_brk i \<and> ti_heap_top j = ti_heap_top i \<and>
     ti_parent j = ti_parent i \<and> ti_children j = ti_children i)"

lemma same_core_refl [simp]: "same_core a a"
  by (cases a) (auto simp: same_core_def)

lemma same_core_trans: "same_core a b \<Longrightarrow> same_core b c \<Longrightarrow> same_core a c"
  by (auto simp: same_core_def split: option.splits)

lemma wake_core: "same_core (inner_of q k) (inner_of q (wake p k))"
  by (cases "inner_of q k") (auto simp: wake_inner same_core_def split: option.split)

lemma fold_wake_core: "same_core (inner_of q k) (inner_of q (fold wake ws k))"
  by (induction ws arbitrary: k) (auto intro: same_core_trans [OF wake_core])

lemma wake_state:
  "state_of q (wake p k) \<noteq> Some Blocked \<longleftrightarrow> q = p \<or> state_of q k \<noteq> Some Blocked"
  by (cases "inner_of q k") (auto simp: state_of_def wake_inner)

lemma fold_wake_state: "q \<in> set ws \<or> state_of q k \<noteq> Some Blocked \<Longrightarrow> state_of q (fold wake ws k) \<noteq> Some Blocked"
proof (induction ws arbitrary: k)
  case (Cons a ws)
  have "q \<in> set ws \<or> state_of q (wake a k) \<noteq> Some Blocked" unfolding wake_state using Cons.prems by force
  then show ?case using Cons.IH by simp
qed simp

lemma switch_out_mm:
  assumes "switch_out h st k = Some k'"
  shows "k_mm k' = k_mm k" "k_space k' = k_space k"
proof -
  obtain k1 k2 where s: "park h st k = Some k1" "idle_prev h k1 = Some k2" "idle_pick h k2 = Some k'" using switch_outE [OF assms] .
  have "k_mm k1 = k_mm k \<and> k_space k1 = k_space k"
    using s(1) by (auto simp: park_def Let_def sched_simps split: option.splits if_splits)
  moreover have "k_mm k2 = k_mm k1 \<and> k_space k2 = k_space k1"
    using s(2) by (auto simp: idle_prev_def Let_def sched_simps split: option.splits task_state.splits)
  moreover have "k_mm k' = k_mm k2 \<and> k_space k' = k_space k2"
    using s(3) by (auto simp: idle_pick_def Let_def sched_simps split: option.splits prod.splits bind_splits)
  ultimately show "k_mm k' = k_mm k" "k_space k' = k_space k" by simp_all
qed

lemma on_exit_cases:
  obtains "on_exit p k = k" | q ws where "on_exit p k = fold wake ws (upd_child_exit q (\<lambda>_. []) k)"
proof -
  have "on_exit p k = k \<or> (\<exists>q ws. on_exit p k = fold wake ws (upd_child_exit q (\<lambda>_. []) k))"
    unfolding on_exit_def wq_wake_all_def by (auto split: option.split)
  then show thesis using that by blast
qed

lemma on_exit_simps: "k_mm (on_exit p k) = k_mm k" "k_space (on_exit p k) = k_space k" "k_cpus (on_exit p k) = k_cpus k"
  "same_core (inner_of q k) (inner_of q (on_exit p k))"
proof -
  have "k_mm (on_exit p k) = k_mm k \<and> k_space (on_exit p k) = k_space k \<and> k_cpus (on_exit p k) = k_cpus k \<and>
    same_core (inner_of q k) (inner_of q (on_exit p k))"
  proof (cases rule: on_exit_cases [of p k])
    case (2 r ws)
    then show ?thesis using fold_wake_core [of q "upd_child_exit r (\<lambda>_. []) k" ws] by (simp add: upd_child_exit_simps)
  qed simp
  then show "k_mm (on_exit p k) = k_mm k" "k_space (on_exit p k) = k_space k" "k_cpus (on_exit p k) = k_cpus k"
    "same_core (inner_of q k) (inner_of q (on_exit p k))" by simp_all
qed

text \<open>Who waits for a child of \<open>q\<close>.\<close>

lemma on_exit_wakes:
  assumes "inner_of p k = Some i" "ti_parent i = Some q" "k_tasks k q = Some tq" "w \<in> set (tk_child_exit tq)"
  shows "state_of w (on_exit p k) \<noteq> Some Blocked"
  using assms fold_wake_state [of w "tk_child_exit tq"] by (simp add: on_exit_def wq_wake_all_def)

section \<open>Exit\<close>

text \<open>The kernel stack of a task survives what happens to other frames.\<close>

lemma canary_foreign:
  assumes "canary_intact ks s" "footprint W s s'" "direct_mapped s" "fr_ppn (ks_frames ks) \<in> managed s" "fr_ppn (ks_frames ks) \<notin> allocator_frames s \<union> W"
  shows "canary_intact ks s'"
proof -
  let ?p = "fr_ppn (ks_frames ks)"
  have "?p < 2 ^ 26" using assms(3,4) by (auto simp: direct_mapped_def)
  then have b: "ks_bottom ks - VIRT_OFFSET = ?p * 4096" unfolding ks_bottom_def using ppn_as_ptr_window by simp
  have "ram s' (?p * 512) = ram s (?p * 512)"
    using assms(2,5) same_framesD [of "- (allocator_frames s \<union> W)" "ram s" "ram s'" "?p * 512"] by (auto simp: footprint_def dw_frame_def)
  then show ?thesis using assms(1) unfolding canary_intact_def b by (simp add: read_u64_def mult.commute)
qed

lemma exit_release_view:
  assumes pr: "proc_ok K kern p t sp k" and inv: "sched_inv h k" and cur: "current h k = Some p" and st: "stack_apart (ti_kstack (tk_inner t)) sp (k_mm k)"
  obtains k1 i where "exit_release h code k = Some k1" "sched_inv h k1" "current h k1 = Some p" "inner_of p k1 = Some i"
    "ti_exit_code i = code" "ti_space i = None" "canary_intact (ti_kstack i) (k_mm k1)" "k_space k1 = Some kern"
    "footprint (space_owned sp) (k_mm k) (k_mm k1)" "free_ppns (k_mm k1) = free_ppns (k_mm k) \<union> space_owned sp"
    "\<And>q tq w. ti_parent (tk_inner t) = Some q \<Longrightarrow> k_tasks k q = Some tq \<Longrightarrow> w \<in> set (tk_child_exit tq) \<Longrightarrow> state_of w k1 \<noteq> Some Blocked"
proof -
  note d = proc_okD [OF pr]
  have h: "h < length (k_cpus k)" using inv by (simp add: sched_inv_def)
  have sf: "space_frames K (as_table sp) (pages_of (as_regions sp)) (k_mm k)" using d(6) by (simp add: space_ok_def space_core_def)
  obtain s' where s': "space_drop sp (k_mm k) = Some s'" "footprint (space_owned sp) (k_mm k) s'" "free_ppns s' = free_ppns (k_mm k) \<union> space_owned sp"
    by (rule space_drop_frames [OF sf]) (use d(6) in \<open>auto simp: space_ok_def region_ok_def\<close>)
  let ?f = "\<lambda>i. i\<lparr>ti_exit_code := code, ti_space := None\<rparr>"
  define k2 where "k2 = (activate_token h (space_token kern) (upd_inner p ?f k))\<lparr>k_mm := s'\<rparr>"
  have inner: "inner_of p k = Some (tk_inner t)" using d(4) by (simp add: inner_of_def)
  have run: "exit_release h code k = Some (on_exit p k2)"
    using cur inner d(1,5) s'(1) by (simp add: exit_release_def Let_def activate_kernel_def kernel_token_def sched_simps k2_def)
  have i2: "inner_of p k2 = Some (?f (tk_inner t))" "k_space k2 = Some kern" "current h k2 = Some p"
    using inner d(1) cur h by (simp_all add: k2_def sched_simps)
  obtain i where i: "inner_of p (on_exit p k2) = Some i" "ti_exit_code i = code" "ti_space i = None" "ti_kstack i = ti_kstack (tk_inner t)"
    using on_exit_simps(4) [of p k2 p] i2(1) by (auto simp: same_core_def)
  have "canary_intact (ti_kstack i) s'"
    using canary_foreign [OF _ s'(2) d(3)] st i(4) by (simp add: stack_apart_def)
  moreover have "current h (on_exit p k2) = Some p" using i2(3) on_exit_simps(3) [of p k2] by (simp add: current_def)
  moreover have "state_of w (on_exit p k2) \<noteq> Some Blocked"
    if "ti_parent (tk_inner t) = Some q" "k_tasks k q = Some tq" "w \<in> set (tk_child_exit tq)" for q tq w
  proof -
    have "\<exists>tq'. k_tasks k2 q = Some tq' \<and> tk_child_exit tq' = tk_child_exit tq" using that(2) by (auto simp: k2_def upd_inner_def activate_token_simps)
    then show ?thesis using on_exit_wakes [OF i2(1), of q _ w] that(1,3) by auto
  qed
  ultimately show thesis
    using that [OF run sched_inv_exit_release [OF inv run] _ i(1-3)] on_exit_simps(1,2) [of p k2] i2(2) s'(2,3) by (simp add: k2_def)
qed

text \<open>
  A process that has ended: a zombie that holds its exit code and no memory. Its frames are
  free again, nobody who waited for it is blocked, and the kernel and all other spaces are as before.
\<close>

definition process_ended :: "phys_page_num set \<Rightarrow> address_space \<Rightarrow> nat \<Rightarrow> pid \<Rightarrow> task \<Rightarrow> address_space \<Rightarrow> int \<Rightarrow> kstate \<Rightarrow> kstate \<Rightarrow> bool" where
  "process_ended K kern h p t sp code k k' \<longleftrightarrow> (\<exists>i. inner_of p k' = Some i \<and> ti_state i = Zombie \<and> ti_exit_code i = code \<and> ti_space i = None) \<and>
     current h k' \<noteq> Some p \<and> sched_inv h k' \<and> k_space k' = Some kern \<and> kernel_ok K kern (k_mm k') \<and>
     free_ppns (k_mm k') = free_ppns (k_mm k) \<union> space_owned sp \<and>
     (\<forall>sp2. space_ok K sp2 (k_mm k) \<and> space_owned sp2 \<inter> space_owned sp = {} \<longrightarrow>
        space_ok K sp2 (k_mm k') \<and> umem sp2 (k_mm k') = umem sp2 (k_mm k)) \<and>
     (\<forall>q tq w. ti_parent (tk_inner t) = Some q \<and> k_tasks k q = Some tq \<and> w \<in> set (tk_child_exit tq) \<longrightarrow> state_of w k' \<noteq> Some Blocked)"

lemma exit_view:
  assumes pr: "proc_ok K kern p t sp k" and inv: "sched_inv h k" and cur: "current h k = Some p" and st: "stack_apart (ti_kstack (tk_inner t)) sp (k_mm k)"
  obtains k' where "exit_current h code k = Some k'" "process_ended K kern h p t sp code k k'"
proof -
  note d = proc_okD [OF pr]
  obtain k1 i where r: "exit_release h code k = Some k1" "sched_inv h k1" "current h k1 = Some p" "inner_of p k1 = Some i"
    "ti_exit_code i = code" "ti_space i = None" "canary_intact (ti_kstack i) (k_mm k1)" "k_space k1 = Some kern"
    "footprint (space_owned sp) (k_mm k) (k_mm k1)" "free_ppns (k_mm k1) = free_ppns (k_mm k) \<union> space_owned sp"
    and w: "\<And>q tq w. ti_parent (tk_inner t) = Some q \<Longrightarrow> k_tasks k q = Some tq \<Longrightarrow> w \<in> set (tk_child_exit tq) \<Longrightarrow> state_of w k1 \<noteq> Some Blocked"
    by (rule exit_release_view [OF assms, of code]) blast
  have z: "ti_state (parked Zombie i) = Zombie" "parked Zombie i = i\<lparr>ti_state := Zombie\<rparr>" by (simp_all add: parked_def)
  obtain k' where k': "switch_out h Zombie k1 = Some k'" "sched_inv h k'"
    and c: "current h k' = (case concat (rq_levels (k_rq k1)) of [] \<Rightarrow> None | q # _ \<Rightarrow> Some q)"
    and oth: "\<And>q. q \<noteq> p \<Longrightarrow> current h k' \<noteq> Some q \<Longrightarrow> inner_of q k' = inner_of q k1"
    and me: "current h k' \<noteq> Some p \<Longrightarrow> inner_of p k' = Some (parked Zombie i)"
    using switch_out_some [OF r(2,3,4,7), of Zombie] unfolding z(1) by auto
  have "sinv (rq_levels (k_rq k1)) (Some p) (\<lambda>p. inner_of p k1)" using r(2,3) by (simp add: sched_inv_def)
  then have "p \<notin> set (concat (rq_levels (k_rq k1)))" using sinv_queued [of _ _ _ p] by blast
  then have np: "current h k' \<noteq> Some p" using c by (cases "concat (rq_levels (k_rq k1))") auto
  note mm = switch_out_mm [OF k'(1)]
  have "state_of v k' \<noteq> Some Blocked" if "state_of v k1 \<noteq> Some Blocked" for v
  proof (cases "current h k' = Some v")
    case True
    then have "\<exists>j. inner_of v k' = Some j \<and> ti_state j = Running" using k'(2) by (fastforce simp: sched_inv_def sinv_def)
    then show ?thesis by (auto simp: state_of_def)
  next
    case False
    then show ?thesis using that oth [of v] me np z(2) by (cases "v = p") (auto simp: state_of_def)
  qed
  moreover have "kernel_ok K kern (k_mm k')" using kernel_foreign(1) [OF d(2) r(9) d(7)] mm by simp
  moreover have "space_ok K sp2 (k_mm k')" "umem sp2 (k_mm k') = umem sp2 (k_mm k)"
    if "space_ok K sp2 (k_mm k)" "space_owned sp2 \<inter> space_owned sp = {}" for sp2
    using umem_foreign [OF that(1) r(9)] that(2) space_owned_K [OF d(6)] mm by auto
  ultimately have "process_ended K kern h p t sp code k k'"
    unfolding process_ended_def using me [OF np] z(2) np k'(2) mm r(5,6,8,10) w by simp
  moreover have "exit_current h code k = Some k'" using r(1) k'(1) by (simp add: exit_current_def)
  ultimately show thesis using that by blast
qed

section \<open>Exit against waitpid\<close>

abbreviation queue_after :: "task_state \<Rightarrow> pid \<Rightarrow> task_inner \<Rightarrow> kstate \<Rightarrow> pid list" where
  "queue_after st p i k \<equiv> concat (rq_levels (if ti_state (parked st i) = Ready then rq_push p (ti_level i) (k_rq k) else k_rq k))"

text \<open>A switch with the states of all tasks after it.\<close>

lemma switch_to:
  assumes run: "sched_inv h k" "current h k = Some p" "inner_of p k = Some i" "canary_intact (ti_kstack i) (k_mm k)" "st \<noteq> Running"
    and q: "queue_after st p i k = r # rs"
  obtains k' where "switch_out h st k = Some k'" "sched_inv h k'" "current h k' = Some r" "concat (rq_levels (k_rq k')) = rs" "k_mm k' = k_mm k"
    "inner_of r k' = map_option (\<lambda>i. i\<lparr>ti_state := Running, ti_needs_resched := False\<rparr>) (if r = p then Some (parked st i) else inner_of r k)"
    "\<forall>x. x \<noteq> r \<longrightarrow> inner_of x k' = (if x = p then Some (parked st i) else inner_of x k)"
proof -
  obtain k1 k2 where k2: "park h st k = Some k1" "idle_prev h k1 = Some k2" "sched_inv h k2" "current h k2 = None"
    "inner_of p k2 = Some (parked st i)" "\<And>x. x \<noteq> p \<Longrightarrow> inner_of x k2 = inner_of x k"
    "k_rq k2 = (if ti_state (parked st i) = Ready then rq_push p (ti_level i) (k_rq k) else k_rq k)" "k_mm k2 = k_mm k"
    by (rule park_idle_prev [OF run]) blast
  have l: "concat (rq_levels (k_rq k2)) = r # rs" using q unfolding k2(7) .
  obtain k' j where k': "idle_pick h k2 = Some k'" "sched_inv h k'" "current h k' = Some r" "inner_of r k2 = Some j"
    "inner_of r k' = Some (j\<lparr>ti_state := Running, ti_needs_resched := False\<rparr>)" "\<forall>x. x \<noteq> r \<longrightarrow> inner_of x k' = inner_of x k2"
    "concat (rq_levels (k_rq k')) = rs" "k_mm k' = k_mm k2"
    using sched_pick [OF k2(3,4)] unfolding l list.case by blast
  show thesis
  proof (rule that [of k'])
    show "switch_out h st k = Some k'" by (simp add: switch_out_def k2(1,2) k'(1))
    show "inner_of r k' = map_option (\<lambda>i. i\<lparr>ti_state := Running, ti_needs_resched := False\<rparr>) (if r = p then Some (parked st i) else inner_of r k)"
      using k'(4,5) k2(5) k2(6) [of r] by (cases "r = p") simp_all
    show "\<forall>x. x \<noteq> r \<longrightarrow> inner_of x k' = (if x = p then Some (parked st i) else inner_of x k)" using k'(6) k2(5,6) by simp
  qed (use k' k2(8) in simp_all)
qed

lemma switch_idle:
  assumes run: "sched_inv h k" "current h k = Some p" "inner_of p k = Some i" "canary_intact (ti_kstack i) (k_mm k)" "st \<noteq> Running"
    and q: "queue_after st p i k = []"
  obtains k' where "switch_out h st k = Some k'" "current h k' = None" "concat (rq_levels (k_rq k')) = []"
    "\<forall>x. inner_of x k' = (if x = p then Some (parked st i) else inner_of x k)"
proof -
  obtain k1 k2 where k2: "park h st k = Some k1" "idle_prev h k1 = Some k2" "sched_inv h k2" "current h k2 = None"
    "inner_of p k2 = Some (parked st i)" "\<And>x. x \<noteq> p \<Longrightarrow> inner_of x k2 = inner_of x k"
    "k_rq k2 = (if ti_state (parked st i) = Ready then rq_push p (ti_level i) (k_rq k) else k_rq k)"
    by (rule park_idle_prev [OF run]) blast
  have l: "concat (rq_levels (k_rq k2)) = []" using q unfolding k2(7) .
  have "idle_pick h k2 = Some k2" using sched_pick [OF k2(3,4)] unfolding l list.case .
  then show thesis using that [of k2] k2(1-6) l by (simp add: switch_out_def)
qed

section \<open>A running process on the small machine\<close>

lemma stack_room:
  assumes inv: "buddy_inv s" and m: "managed s = {1024..<1152}" and n: "120 \<le> card (free_ppns s)"
  obtains stk s1 where "ks_new s = (Some stk, s1)"
proof -
  have sub: "free_ppns s \<subseteq> {1024..<1152}" using free_ppns_managed [OF inv] m by simp
  then have "card ({1024..<1152} - free_ppns s) = 128 - card (free_ppns s)" by (subst card_Diff_subset) (auto intro: finite_subset)
  then have used: "card ({1024..<1152} - free_ppns s) \<le> 8" using n by simp
  have "\<exists>b<16. {1024 + 8 * b..<1032 + 8 * b} \<subseteq> free_ppns s"
  proof (rule ccontr)
    assume "\<not> ?thesis"
    then have "\<exists>x. x \<in> {1024 + 8 * b..<1032 + 8 * b} - free_ppns s" if "b < 16" for b using that by blast
    then obtain f where f: "\<And>b. b < 16 \<Longrightarrow> f b \<in> {1024 + 8 * b..<1032 + 8 * b} - free_ppns s" by metis
    have "b = c" if "b < 16" "c < 16" "f b = f c" for b c using f [OF that(1)] f [OF that(2)] that(3) by auto
    then have "inj_on f {..<16}" by (auto simp: inj_on_def)
    then have "card (f ` {..<16}) = 16" by (simp add: card_image)
    moreover have "f ` {..<16} \<subseteq> {1024..<1152} - free_ppns s" using f by fastforce
    then have "card (f ` {..<16}) \<le> card ({1024..<1152} - free_ppns s)" by (intro card_mono) auto
    ultimately show False using used by simp
  qed
  then obtain b where b: "b < 16" "{1024 + 8 * b..<1032 + 8 * b} \<subseteq> free_ppns s" by blast
  have "1024 \<in> managed s" using m by simp
  then have "b_base (fa s) < b_base (fa s) + b_frames (fa s)" by (simp add: managed_def)
  then have "b_base (fa s) = 1024 \<and> b_base (fa s) + b_frames (fa s) = 1152"
    using m unfolding managed_def by (subst (asm) atLeastLessThan_eq_iff) simp_all
  then have "b_base (fa s) = 1024" "b_frames (fa s) = 128" by simp_all
  then have "valid_block (b_frames (fa s)) 3 (8 * b)" using b by (simp add: valid_block_def)
  moreover have "x \<in> free_idx s" if "x \<in> blk 3 (8 * b)" for x
  proof -
    have "1024 + x \<in> free_ppns s" using that b(2) by (auto simp: blk_def)
    then show ?thesis using \<open>b_base (fa s) = 1024\<close> by (auto simp: free_ppns_def)
  qed
  ultimately have "fst (buddy_alloc 3 s) \<noteq> None" using buddy_alloc_none_iff [OF inv, of 3] by auto
  then obtain q s1 where "buddy_alloc 3 s = (Some q, s1)" by (cases "buddy_alloc 3 s") auto
  then show thesis using that by (simp add: ks_new_def frame_alloc_order_def alloc_frames_def order_for_kstack [simplified] Let_def)
qed

lemma demo_user:
  obtains K kern sp t k where "proc_ok K kern 1 t sp k" "sched_inv 0 k" "current 0 k = Some 1"
    "stack_apart (ti_kstack (tk_inner t)) sp (k_mm k)"
    "umem sp (k_mm k) = (\<lambda>x. if 0x11000 \<le> x \<and> x < 0x12000 then Some (0, leaf_flags (FL_RW OR FL_USER)) else None)"
    "ti_children (tk_inner t) = []"
proof -
  obtain K kern sp s where d: "proc_ok K kern 1 (Process_Correct.demo_task sp) sp (demo_k kern sp s)" "120 \<le> card (free_ppns s)" "managed s = {1024..<1152}"
    and u: "umem sp s = (\<lambda>x. if 0x11000 \<le> x \<and> x < 0x12000 then Some (0, leaf_flags (FL_RW OR FL_USER)) else None)" by (rule demo_proc)
  have mm: "k_mm (demo_k kern sp s) = s" by (simp add: demo_k_def)
  note pd = proc_okD [OF d(1), unfolded mm]
  have inv: "buddy_inv s" using space_core_inv pd(6) by (auto simp: space_ok_def)
  obtain stk s1 where ks: "ks_new s = (Some stk, s1)" by (rule stack_room [OF inv d(3,2)])
  note n = ks_new_some [OF inv pd(3) ks]
  define t where "t = (Process_Correct.demo_task sp)\<lparr>tk_inner := (tk_inner (Process_Correct.demo_task sp))\<lparr>ti_kstack := stk, ti_state := Running\<rparr>\<rparr>"
  define k where "k = (demo_k kern sp s)\<lparr>k_mm := s1, k_tasks := [1 \<mapsto> t]\<rparr>"
  have f: "proc_ok K kern 1 (Process_Correct.demo_task sp) sp ((demo_k kern sp s)\<lparr>k_mm := s1\<rparr>)" "umem sp s1 = umem sp s"
    using proc_ok_foreign [OF d(1), of s1] n(1) mm by simp_all
  then have "proc_ok K kern 1 t sp k" by (simp add: proc_ok_def k_def t_def)
  moreover have "stack_apart stk sp s1" using n(4-7) space_owned_use(1) [OF pd(6)] by (auto simp: stack_apart_def)
  then have "stack_apart (ti_kstack (tk_inner t)) sp (k_mm k)" by (simp add: t_def k_def)
  moreover have "sched_inv 0 k" "current 0 k = Some 1"
    by (auto simp: sched_inv_def sinv_def k_def t_def demo_k_def Process_Correct.demo_task_def fresh_inner_def rq_new_def current_def inner_of_def less_Suc_eq numeral_3_eq_3)
  ultimately show thesis using that f(2) u by (simp add: k_def t_def Process_Correct.demo_task_def fresh_inner_def)
qed

definition demo_traps :: trap_syms where
  "demo_traps = \<lparr>ts_kernel_entry = 4, ts_user_entry = 8\<rparr>"

section \<open>Properties\<close>



text \<open>Task 1 waits for its only child, task 2, which runs.\<close>

definition waiting_pair :: kstate where
  "waiting_pair = (let i = fresh_inner tc_zeroed \<lparr>ks_frames = \<lparr>fr_ppn = 0x80300, fr_order = 3\<rparr>\<rparr>;
       t = \<lparr>tk_pid = 1, tk_name = [], tk_entry = 0, tk_child_exit = [1], tk_inner = i\<lparr>ti_state := Blocked, ti_children := [2]\<rparr>\<rparr>;
       c = \<lparr>tk_pid = 2, tk_name = [], tk_entry = 0, tk_child_exit = [], tk_inner = i\<lparr>ti_state := Running, ti_parent := Some 1\<rparr>\<rparr>
     in \<lparr>k_tasks = [1 \<mapsto> t, 2 \<mapsto> c], k_rq = \<lparr>rq_levels = [[], [], []], rq_spawned = 2\<rparr>,
         k_cpus = [\<lparr>cpu_current = Some 2, cpu_previous = None, cpu_satp = 0\<rparr>], k_all = [1, 2], k_next_pid = 3,
         k_mm = Sched_Props.demo_mm, k_space = Some Sched_Props.demo_space\<rparr>)"

definition woken_pair :: kstate where
  "woken_pair = the (exit_release 0 0 waiting_pair)"

lemmas pair_defs = waiting_pair_def exit_release_def on_exit_def current_def inner_of_def upd_inner_def upd_child_exit_def wq_wake_all_def wake_def
  rq_push_def fresh_inner_def Let_def

lemma woken_pair_run: "exit_release 0 0 waiting_pair = Some woken_pair"
  by (simp add: woken_pair_def pair_defs)

lemma woken_pair_facts: "current 0 woken_pair = Some 2" "rq_levels (k_rq woken_pair) = [[1], [], []]" "k_mm woken_pair = Sched_Props.demo_mm"
  "\<exists>i. inner_of 2 woken_pair = Some i \<and> ti_state i = Running" "\<exists>i. inner_of 1 woken_pair = Some i \<and> ti_state i = Ready \<and> \<not> ti_wakeup_pending i \<and> ti_children i = [2]"
  by (simp_all add: woken_pair_def pair_defs)

lemma canary_everywhere: "canary_intact ks Sched_Props.demo_mm"
  by (simp add: canary_intact_def Sched_Props.demo_mm_def read_u64_def)

lemma waiting_pair_inv: "sched_inv 0 waiting_pair"
  by (auto simp: sched_inv_def sinv_def pair_defs less_Suc_eq numeral_3_eq_3 split: if_splits)

text \<open>
  C33: \<^verbatim>\<open>exit_current\<close> wakes the parent before the child is a zombie. If the timer then preempts the
  child, the parent looks for a zombie, finds none and sleeps; nothing wakes it when the
  child becomes one. The run below ends with the parent blocked in \<^verbatim>\<open>waitpid\<close>, its only child
  a zombie, and nothing left to run.
\<close>

theorem exit_waitpid_deadlock:
  assumes "exit_release h code k = Some k1" "sched_inv h k1" "current h k1 = Some c" "rq_levels (k_rq k1) = [[q], [], []]"
    and c: "inner_of c k1 = Some ic" "canary_intact (ti_kstack ic) (k_mm k1)"
    and q: "inner_of q k1 = Some iq" "canary_intact (ti_kstack iq) (k_mm k1)" "\<not> ti_wakeup_pending iq" "ti_children iq = [c]"
  shows "\<exists>k2 k3 k4. yield_now h k1 = Some k2 \<and> current h k2 = Some q \<and> sys_waitpid h (-1) 0 k2 = Some (Sleep_Child, k2) \<and>
    child_wait h k2 = Some k3 \<and> current h k3 = Some c \<and> switch_out h Zombie k3 = Some k4 \<and>
    state_of q k4 = Some Blocked \<and> state_of c k4 = Some Zombie \<and> current h k4 = None \<and> concat (rq_levels (k_rq k4)) = []"
proof -
  have lc: "ti_level ic < 3" using sched_inv_inner(1) [OF assms(2) c(1)] by simp
  have ne: "c \<noteq> q"
  proof
    assume "c = q"
    then have "c \<in> set (concat (rq_levels (k_rq k1)))" using assms(4) by simp
    then show False using sinv_queued [of "rq_levels (k_rq k1)" "Some c" "\<lambda>p. inner_of p k1" c] assms(2,3) by (auto simp: sched_inv_def)
  qed
  have st: "Ready \<noteq> Running" "Blocked \<noteq> Running" "Zombie \<noteq> Running" by simp_all
  have p: "parked Ready ic = ic\<lparr>ti_state := Ready\<rparr>" by (simp add: parked_def)
  have "queue_after Ready c ic k1 = q # [c]"
    using lc assms(4) by (auto simp: p rq_push_def Let_def less_Suc_eq numeral_3_eq_3)
  then obtain k2 where k2: "switch_out h Ready k1 = Some k2" "sched_inv h k2" "current h k2 = Some q" "concat (rq_levels (k_rq k2)) = [c]" "k_mm k2 = k_mm k1"
    "inner_of q k2 = map_option (\<lambda>i. i\<lparr>ti_state := Running, ti_needs_resched := False\<rparr>) (if q = c then Some (parked Ready ic) else inner_of q k1)"
    "\<forall>x. x \<noteq> q \<longrightarrow> inner_of x k2 = (if x = c then Some (parked Ready ic) else inner_of x k1)"
    by (rule switch_to [OF assms(2,3) c st(1)])
  define iq2 where "iq2 = iq\<lparr>ti_state := Running, ti_needs_resched := False\<rparr>"
  have i2: "inner_of q k2 = Some iq2" "inner_of c k2 = Some (ic\<lparr>ti_state := Ready\<rparr>)" using k2(6,7) q(1) ne p by (auto simp: iq2_def)
  have scan: "sys_waitpid h (-1) 0 k2 = Some (Sleep_Child, k2)"
    using k2(3) i2 q(4) by (simp add: sys_waitpid_def current_task_def wait_matches_def state_of_def iq2_def)
  let ?k = "upd_child_exit q (wq_enqueue q) k2"
  have b: "parked Blocked iq2 = iq2\<lparr>ti_state := Blocked\<rparr>" using q(3) by (simp add: parked_def iq2_def)
  have qb: "queue_after Blocked q iq2 ?k = c # []" using k2(4) by (simp add: b upd_child_exit_simps)
  have run3: "sched_inv h ?k" "current h ?k = Some q" "inner_of q ?k = Some iq2" "canary_intact (ti_kstack iq2) (k_mm ?k)"
    using sched_inv_child_exit [OF k2(2)] k2(3,5) i2(1) q(2) by (simp_all add: upd_child_exit_simps iq2_def)
  obtain k3 where k3: "switch_out h Blocked ?k = Some k3" "sched_inv h k3" "current h k3 = Some c" "concat (rq_levels (k_rq k3)) = []" "k_mm k3 = k_mm ?k"
    "inner_of c k3 = map_option (\<lambda>i. i\<lparr>ti_state := Running, ti_needs_resched := False\<rparr>) (if c = q then Some (parked Blocked iq2) else inner_of c ?k)"
    "\<forall>x. x \<noteq> c \<longrightarrow> inner_of x k3 = (if x = q then Some (parked Blocked iq2) else inner_of x ?k)"
    by (rule switch_to [OF run3 st(2) qb])
  define ic3 where "ic3 = ic\<lparr>ti_state := Running, ti_needs_resched := False\<rparr>"
  have i3: "inner_of q k3 = Some (iq2\<lparr>ti_state := Blocked\<rparr>)" "inner_of c k3 = Some ic3"
    using k3(6,7) ne i2 b by (auto simp: upd_child_exit_simps ic3_def)
  have z: "parked Zombie ic3 = ic3\<lparr>ti_state := Zombie\<rparr>" by (simp add: parked_def)
  have qz: "queue_after Zombie c ic3 k3 = []" using k3(4) by (simp add: z)
  have can: "canary_intact (ti_kstack ic3) (k_mm k3)" using c(2) k3(5) k2(5) by (simp add: ic3_def upd_child_exit_simps)
  obtain k4 where k4: "switch_out h Zombie k3 = Some k4" "current h k4 = None" "concat (rq_levels (k_rq k4)) = []"
    "\<forall>x. inner_of x k4 = (if x = c then Some (parked Zombie ic3) else inner_of x k3)"
    by (rule switch_idle [OF k3(2,3) i3(2) can st(3) qz])
  have "state_of q k4 = Some Blocked" "state_of c k4 = Some Zombie" using k4(4) ne i3(1) z by (simp_all add: state_of_def)
  moreover have "child_wait h k2 = Some k3" using k2(3) k3(1) by (simp add: child_wait_def current_task_def block_current_def)
  ultimately show ?thesis using k2(1,3) scan k3(3) k4 unfolding yield_now_def by blast
qed

theorem exit_waitpid_deadlock_witness:
  "\<exists>k1 k4. exit_release 0 0 waiting_pair = Some k1 \<and> state_of 1 k1 = Some Ready \<and>
     state_of 1 k4 = Some Blocked \<and> state_of 2 k4 = Some Zombie \<and> current 0 k4 = None \<and> concat (rq_levels (k_rq k4)) = []"
proof -
  obtain ic iq where i: "inner_of 2 woken_pair = Some ic" "inner_of 1 woken_pair = Some iq" "ti_state iq = Ready" "\<not> ti_wakeup_pending iq" "ti_children iq = [2]"
    using woken_pair_facts(4,5) by blast
  note can = canary_everywhere [folded woken_pair_facts(3)]
  from exit_waitpid_deadlock [OF woken_pair_run sched_inv_exit_release [OF waiting_pair_inv woken_pair_run] woken_pair_facts(1,2) i(1) can i(2) can i(4,5)]
  obtain k4 where "state_of 1 k4 = Some Blocked" "state_of 2 k4 = Some Zombie" "current 0 k4 = None" "concat (rq_levels (k_rq k4)) = []" by blast
  then show ?thesis using woken_pair_run i(2,3) by (auto simp: state_of_def)
qed

end
