(* ===== verification/Syscall_Args.thy ===== *)
theory Syscall_Args
  imports Exit Uart_Correct
begin

text \<open>
  What the system calls read from user memory: \<open>is_cstr\<close> says that a NUL-terminated string is
  at an address and \<open>is_argv\<close> that an argument vector is. The two loops that copy them in
  are shown to find exactly those, whatever the pointers, and never to panic.
\<close>

section \<open>Strings\<close>

definition user_byte :: "address_space \<Rightarrow> mm_state \<Rightarrow> virt_addr \<Rightarrow> u8 option" where
  "user_byte sp s a = map_option fst (umem sp s a)"

definition is_cstr :: "address_space \<Rightarrow> mm_state \<Rightarrow> virt_addr \<Rightarrow> rust_string \<Rightarrow> bool" where
  "is_cstr sp s a str \<longleftrightarrow> (\<forall>j<length str. user_byte sp s (a + j) = Some (str ! j)) \<and> user_byte sp s (a + length str) = Some 0 \<and>
     0 \<notin> set str \<and> utf8_valid str"

lemma copy_from_user_bytes:
  assumes "space_ok K sp s" "direct_mapped s"
  shows "copy_from_user sp a n s = Some (user_bytes sp s a n)"
  using copy_from_loop_view [OF assms, of 0 n a "[]"] by (simp add: copy_from_user_def option.map_ident)

lemma user_bytes_one: "user_bytes sp s a 1 = map_option (\<lambda>b. [b]) (user_byte sp s a)"
  by (cases "umem sp s a") (auto simp: user_bytes_def user_byte_def)

lemma user_byte_high: "user_byte sp s a \<noteq> None \<Longrightarrow> a < USER_MAX_ADDR"
  by (auto simp: user_byte_def umem_def split: if_splits)

lemma user_bytes_high: "user_bytes sp s a n = Some bs \<Longrightarrow> 0 < n \<Longrightarrow> a + n \<le> USER_MAX_ADDR"
  using user_byte_high [of sp s "a + (n - 1)"] by (auto simp: user_bytes_def user_byte_def split: if_splits dest: spec [of _ "n - 1"])

lemma nth_nonzero: "0 \<notin> set xs \<Longrightarrow> i < length xs \<Longrightarrow> xs ! i \<noteq> 0"
  by (metis nth_mem)

lemma is_cstr_length:
  assumes "is_cstr sp s a str" "is_cstr sp s a str'"
  shows "length str \<le> length str'"
proof (rule ccontr)
  assume "\<not> ?thesis"
  then have "length str' < length str" by simp
  then have "user_byte sp s (a + length str') = Some (str ! length str')" "str ! length str' \<noteq> 0"
    using assms(1) nth_nonzero by (auto simp: is_cstr_def)
  then show False using assms(2) by (simp add: is_cstr_def)
qed

lemma is_cstr_unique:
  assumes "is_cstr sp s a str" "is_cstr sp s a str'"
  shows "str = str'"
proof (rule nth_equalityI)
  show "length str = length str'" using is_cstr_length assms by (simp add: le_antisym)
  then show "str ! j = str' ! j" if "j < length str" for j using assms that by (auto simp: is_cstr_def)
qed

lemma read_cstr_loop_view:
  assumes sp: "space_ok K sp s" "direct_mapped s"
  shows "length bytes = i \<Longrightarrow> (\<forall>j<i. user_byte sp s (a + j) = Some (bytes ! j)) \<Longrightarrow> 0 \<notin> set bytes \<Longrightarrow>
    \<exists>r. read_cstr_loop left sp a i bytes s = Some r \<and> (\<forall>str. r = Some str \<longleftrightarrow> is_cstr sp s a str \<and> length str < i + left)"
proof (induction left arbitrary: i bytes)
  case 0
  have "\<not> (is_cstr sp s a str \<and> length str < i)" for str
    using 0 nth_nonzero [of bytes "length str"] by (auto simp: is_cstr_def)
  then show ?case by simp
next
  case (Suc left)
  have ge: "i \<le> length str" if "is_cstr sp s a str" for str
  proof (rule ccontr)
    assume "\<not> i \<le> length str"
    then show False using Suc.prems that nth_nonzero [of bytes "length str"] by (auto simp: is_cstr_def)
  qed
  note step = copy_from_user_bytes [OF sp] user_bytes_one
  show ?case
  proof (cases "user_byte sp s (a + i)")
    case None
    have "\<not> is_cstr sp s a str" for str
      using ge [of str] None by (cases "length str = i") (auto simp: is_cstr_def)
    then show ?thesis using None step by (auto simp: checked_add_def)
  next
    case (Some b)
    then have c: "checked_add a i = Some (a + i)" using user_byte_high [of sp s "a + i"] by (simp add: checked_add_def)
    have bs: "is_cstr sp s a str \<Longrightarrow> length str = i \<Longrightarrow> str = bytes" for str
      using Suc.prems by (auto simp: is_cstr_def intro!: nth_equalityI)
    show ?thesis
    proof (cases "b = 0")
      case True
      have "is_cstr sp s a str \<longleftrightarrow> str = bytes \<and> utf8_valid bytes" for str
      proof
        assume i: "is_cstr sp s a str"
        have "\<not> i < length str" using i Some True nth_nonzero [of str i] by (auto simp: is_cstr_def)
        then show "str = bytes \<and> utf8_valid bytes" using bs [OF i] ge [OF i] i by (auto simp: is_cstr_def)
      qed (use Suc.prems Some True in \<open>auto simp: is_cstr_def\<close>)
      then show ?thesis using Some c True Suc.prems(1) step by auto
    next
      case False
      have "\<forall>j<i + 1. user_byte sp s (a + j) = Some ((bytes @ [b]) ! j)"
        using Suc.prems(1,2) Some by (auto simp: nth_append less_Suc_eq)
      with Suc.IH [of "bytes @ [b]" "i + 1"] Suc.prems False show ?thesis using Some c step by auto
    qed
  qed
qed

lemma read_cstr_view:
  assumes "space_ok K sp s" "direct_mapped s"
  obtains r where "read_cstr sp a limit s = Some r" "\<And>str. r = Some str \<longleftrightarrow> is_cstr sp s a str \<and> length str < limit"
  using read_cstr_loop_view [OF assms, of "[]" 0 a limit] by (auto simp: read_cstr_def)

section \<open>Argument vectors\<close>

definition arg_at :: "address_space \<Rightarrow> mm_state \<Rightarrow> virt_addr \<Rightarrow> rust_string \<Rightarrow> bool" where
  "arg_at sp s a str \<longleftrightarrow> (\<exists>bs. user_bytes sp s a 8 = Some bs \<and> from_le_bytes bs \<noteq> 0 \<and> is_cstr sp s (from_le_bytes bs) str \<and> length str < MAX_STR)"

definition null_at :: "address_space \<Rightarrow> mm_state \<Rightarrow> virt_addr \<Rightarrow> bool" where
  "null_at sp s a \<longleftrightarrow> (\<exists>bs. user_bytes sp s a 8 = Some bs \<and> from_le_bytes bs = 0)"

definition is_argv :: "address_space \<Rightarrow> mm_state \<Rightarrow> virt_addr \<Rightarrow> rust_string list \<Rightarrow> bool" where
  "is_argv sp s a args \<longleftrightarrow> (\<forall>j<length args. arg_at sp s (a + j * 8) (args ! j)) \<and>
     (length args = MAX_ARGS \<or> length args < MAX_ARGS \<and> null_at sp s (a + length args * 8))"

lemma arg_at_unique: "arg_at sp s a x \<Longrightarrow> arg_at sp s a y \<Longrightarrow> x = y"
  unfolding arg_at_def using is_cstr_unique by (metis option.inject)

lemma arg_not_null: "arg_at sp s a x \<Longrightarrow> \<not> null_at sp s a"
  by (auto simp: arg_at_def null_at_def)

lemma is_argv_prefix:
  assumes "is_argv sp s a args" "\<forall>j<length pre. arg_at sp s (a + j * 8) (pre ! j)" "length pre \<le> MAX_ARGS"
  shows "take (length pre) args = pre"
proof -
  have "\<not> length args < length pre"
    using assms arg_not_null [of sp s "a + length args * 8" "pre ! length args"] by (auto simp: is_argv_def)
  then have l: "length pre \<le> length args" by simp
  have "args ! j = pre ! j" if "j < length pre" for j
    using arg_at_unique [of sp s "a + j * 8"] assms(1,2) that l by (simp add: is_argv_def)
  then show ?thesis using l by (intro nth_equalityI) simp_all
qed

lemma is_argv_next:
  assumes "is_argv sp s a args" "\<forall>j<length pre. arg_at sp s (a + j * 8) (pre ! j)" "length pre < MAX_ARGS"
  shows "null_at sp s (a + length pre * 8) \<and> args = pre \<or> (\<exists>x. arg_at sp s (a + length pre * 8) x)"
proof -
  have p: "take (length pre) args = pre" using is_argv_prefix [OF assms(1,2)] assms(3) by simp
  then have "length pre \<le> length args" by (metis length_take min.cobounded1)
  then consider "args = pre" | "length pre < length args" using p by fastforce
  then show ?thesis using assms by cases (auto simp: is_argv_def)
qed

lemma read_argv_view:
  assumes sp: "space_ok K sp s" "direct_mapped s"
  shows "left + length pre = MAX_ARGS \<Longrightarrow> \<forall>j<length pre. arg_at sp s (a + j * 8) (pre ! j) \<Longrightarrow> a < 2 ^ 64 \<Longrightarrow>
    \<exists>r. read_argv left sp a (length pre) pre s = Some r \<and> (\<forall>args. r = Some args \<longleftrightarrow> is_argv sp s a args)"
proof (induction left arbitrary: pre)
  case 0
  then have "is_argv sp s a args \<longleftrightarrow> args = pre" for args
    using is_argv_prefix [of sp s a args pre] by (auto simp: is_argv_def)
  then show ?case by auto
next
  case (Suc left)
  let ?a = "a + length pre * 8"
  have c: "checked_add a (length pre * 8) = Some ?a"
  proof (cases pre rule: rev_cases)
    case (snoc xs x)
    then have "arg_at sp s (a + length xs * 8) x" using Suc.prems(2) by auto
    then show ?thesis using user_bytes_high [of sp s "a + length xs * 8" 8] snoc by (auto simp: arg_at_def checked_add_def)
  qed (use Suc.prems(3) in \<open>simp add: checked_add_def\<close>)
  have nx: "null_at sp s ?a \<and> args = pre \<or> (\<exists>x. arg_at sp s ?a x)" if "is_argv sp s a args" for args
    using is_argv_next [OF that Suc.prems(2)] Suc.prems(1) by simp
  note step = c copy_from_user_bytes [OF sp]
  show ?case
  proof (cases "user_bytes sp s ?a 8")
    case None
    then have "\<not> is_argv sp s a args" for args using nx [of args] by (auto simp: null_at_def arg_at_def)
    then show ?thesis using None step by simp
  next
    case (Some bs)
    show ?thesis
    proof (cases "from_le_bytes bs = 0")
      case True
      then have n: "null_at sp s ?a" using Some by (simp add: null_at_def)
      then have "is_argv sp s a args \<longleftrightarrow> args = pre" for args
        using nx [of args] arg_not_null Suc.prems(1,2) by (auto simp: is_argv_def)
      then show ?thesis using Some step True by auto
    next
      case False
      obtain q where q: "read_cstr sp (from_le_bytes bs) MAX_STR s = Some q"
        "\<And>str. q = Some str \<longleftrightarrow> is_cstr sp s (from_le_bytes bs) str \<and> length str < MAX_STR"
        by (rule read_cstr_view [OF sp, of "from_le_bytes bs" MAX_STR]) blast
      have at: "arg_at sp s ?a x \<longleftrightarrow> q = Some x" for x using q(2) [of x] Some False by (auto simp: arg_at_def)
      have nn: "\<not> null_at sp s ?a" using Some False by (simp add: null_at_def)
      show ?thesis
      proof (cases q)
        case None
        then have "\<not> is_argv sp s a args" for args using nx [of args] at nn by auto
        then show ?thesis using Some step False q(1) None by simp
      next
        case S: (Some x)
        then have "\<forall>j<length (pre @ [x]). arg_at sp s (a + j * 8) ((pre @ [x]) ! j)"
          using Suc.prems(2) at by (auto simp: nth_append less_Suc_eq)
        from Suc.IH [OF _ this Suc.prems(3)] Suc.prems(1) show ?thesis using Some step False q(1) S by auto
      qed
    qed
  qed
qed

lemma is_argv_size:
  assumes "is_argv sp s a args"
  shows "args_size args \<le> USER_STACK_SIZE"
proof -
  have l: "length args \<le> 32" using assms by (auto simp: is_argv_def)
  have "length x \<le> 255" if "x \<in> set args" for x using that assms by (auto simp: is_argv_def arg_at_def in_set_conv_nth)
  then have "sum_list (map (\<lambda>x. length x + 8) args) \<le> sum_list (map (\<lambda>_. 263) args)" by (intro sum_list_mono) simp
  moreover have "strings_size xs = sum_list (map (\<lambda>x. length x + 8) xs)" for xs :: "rust_string list" by (induction xs) simp_all
  ultimately have "strings_size args \<le> sum_list (map (\<lambda>_. 263) args)" by metis
  also have "\<dots> \<le> 263 * 32" using l by (simp add: sum_list_triv)
  finally show ?thesis using l by (simp add: args_size_def)
qed

end
