(* ===== verification/Syscall_Correct.thy ===== *)
theory Syscall_Correct
  imports Syscall_Args
begin

text \<open>
  The calls that work on user memory, from the registers of the caller to the state of the
  machine: \<^verbatim>\<open>write\<close>, \<^verbatim>\<open>exec\<close> and \<^verbatim>\<open>waitpid\<close>. Every outcome is covered, and bad pointers
  are answers rather than faults of the kernel.
\<close>

section \<open>Arguments of exec\<close>

definition exec_args :: "address_space \<Rightarrow> mm_state \<Rightarrow> usize \<Rightarrow> usize \<Rightarrow> rust_string \<Rightarrow> rust_string list \<Rightarrow> bool" where
  "exec_args sp s path_ptr argv_ptr path args \<longleftrightarrow> is_cstr sp s path_ptr path \<and> length path < MAX_STR \<and>
     (if argv_ptr = 0 then args = [] else is_argv sp s argv_ptr args)"

lemma argv_read:
  assumes "space_ok K sp s" "direct_mapped s" "argv_ptr < 2 ^ 64"
  obtains r where "(if argv_ptr \<noteq> 0 then read_argv MAX_ARGS sp argv_ptr 0 [] s else Some (Some [])) = Some r"
    "\<And>args. r = Some args \<longleftrightarrow> (if argv_ptr = 0 then args = [] else is_argv sp s argv_ptr args)"
proof (cases "argv_ptr = 0")
  case True
  show thesis by (rule that [of "Some []"]) (use True in auto)
next
  case False
  obtain r where r: "read_argv MAX_ARGS sp argv_ptr 0 [] s = Some r" "\<forall>args. r = Some args \<longleftrightarrow> is_argv sp s argv_ptr args"
    using read_argv_view [OF assms(1,2), of MAX_ARGS "[]" argv_ptr] assms(3) by auto
  show thesis by (rule that [of r]) (use False r in auto)
qed

lemma exec_args_unique:
  "exec_args sp s a b path args \<Longrightarrow> is_cstr sp s a path' \<Longrightarrow> path' = path"
  using is_cstr_unique by (auto simp: exec_args_def)

lemma exec_args_fit: "exec_args sp s a b path args \<Longrightarrow> args_size args \<le> USER_STACK_SIZE"
  using is_argv_size by (auto simp: exec_args_def args_size_def split: if_splits)

section \<open>Reaping a child\<close>

text \<open>A zombie the scheduler no longer holds, whose kernel stack can be released.\<close>

definition zombie_ok :: "phys_page_num set \<Rightarrow> address_space \<Rightarrow> address_space \<Rightarrow> pid \<Rightarrow> kstate \<Rightarrow> bool" where
  "zombie_ok K kern sp c k \<longleftrightarrow> \<not> arc_held c k \<and> (\<exists>i. inner_of c k = Some i \<and> ti_space i = None \<and> stack_live (ti_kstack i) (k_mm k) \<and>
     {fr_ppn (ks_frames (ti_kstack i))..<fr_ppn (ks_frames (ti_kstack i)) + 8} \<inter> (space_owned sp \<union> K \<union> table_frames (as_table kern)) = {})"

text \<open>
  The child is gone from the kernel and from the parent, the frames of its kernel stack are
  free, and its exit code is at the status pointer as far as the parent could have
  written there.
\<close>

definition reaped :: "phys_page_num set \<Rightarrow> address_space \<Rightarrow> pid \<Rightarrow> task \<Rightarrow> address_space \<Rightarrow> pid \<Rightarrow> usize \<Rightarrow> kstate \<Rightarrow> kstate \<Rightarrow> bool" where
  "reaped K kern p t sp c status_ptr k k' \<longleftrightarrow>
     (\<exists>i. inner_of c k = Some i \<and> k_tasks k' c = None \<and> (\<forall>q. q \<noteq> c \<longrightarrow> q \<noteq> p \<longrightarrow> k_tasks k' q = k_tasks k q) \<and>
        proc_ok K kern p (t\<lparr>tk_inner := (tk_inner t)\<lparr>ti_children := remove1 c (ti_children (tk_inner t))\<rparr>\<rparr>) sp k' \<and>
        free_ppns (k_mm k') = free_ppns (k_mm k) \<union> {fr_ppn (ks_frames (ti_kstack i))..<fr_ppn (ks_frames (ti_kstack i)) + 8} \<and>
        (let code = to_le_bytes 4 (nat (ti_exit_code i mod 2 ^ 32))
         in umem sp (k_mm k') = (if status_ptr = 0 then umem sp (k_mm k)
              else mem_write status_ptr (take (writable_prefix (user_writable sp (k_mm k)) status_ptr 4) code) (umem sp (k_mm k)))))"

lemma find_filter: "List.find P xs = (case filter P xs of [] \<Rightarrow> None | x # _ \<Rightarrow> Some x)"
  by (induction xs) auto

lemma stack_drop:
  assumes inv: "buddy_inv s" and st: "stack_live ks s"
  obtains s' where "frame_drop (ks_frames ks) s = Some s'" "footprint {fr_ppn (ks_frames ks)..<fr_ppn (ks_frames ks) + 8} s s'"
    "free_ppns s' = free_ppns s \<union> {fr_ppn (ks_frames ks)..<fr_ppn (ks_frames ks) + 8}"
proof -
  let ?p = "fr_ppn (ks_frames ks)"
  have d: "3 \<le> (MAX_ORDER :: nat)" "(2::nat) ^ 3 dvd ?p" "{?p..<?p + 2 ^ 3} \<subseteq> managed s - free_ppns s" using st by (simp_all add: stack_live_def)
  obtain s' where s': "free_frames ?p 3 s = Some s'" "buddy_inv s'" "free_ppns s' = free_ppns s \<union> {?p..<?p + 2 ^ 3}" "managed s' = managed s"
    "meta_frames (fa s') = meta_frames (fa s)" "same_frames (- (allocator_frames s \<union> {?p..<?p + 2 ^ 3})) (ram s) (ram s')"
    using free_frames_block [OF inv d] by blast
  have "footprint {?p..<?p + 8} s s'" using s' by (auto simp: footprint_def allocator_frames_def)
  then show thesis using that s'(1,3) st by (simp add: frame_drop_def stack_live_def)
qed

text \<open>The write of the exit code, which may stop early, leaves everything but the caller's memory.\<close>

lemma status_written:
  assumes pr: "proc_ok K kern p t sp k"
  obtains r s' where "copy_to_user sp a bs (k_mm k) = Some (r, s')" "proc_ok K kern p t sp (k\<lparr>k_mm := s'\<rparr>)"
    "managed s' = managed (k_mm k)" "free_ppns s' = free_ppns (k_mm k)"
    "umem sp s' = mem_write a (take (writable_prefix (user_writable sp (k_mm k)) a (length bs)) bs) (umem sp (k_mm k))"
proof -
  note d = proc_okD [OF pr]
  obtain r s' where c: "copy_to_user sp a bs (k_mm k) = Some (r, s')" "copied_to K sp a bs (k_mm k) r s'"
    using copy_to_loop_view [OF d(6,3), of 0 bs a] by (auto simp: copy_to_user_def)
  have fp: "footprint (page_ppn ` set (pages_of (as_regions sp))) (k_mm k) s'" using c(2) by (simp add: copied_to_def)
  have "page_ppn ` set (pages_of (as_regions sp)) \<inter> table_frames (as_table kern) = {}" using d(7) by (auto simp: space_owned_def owned_def)
  then have "proc_ok K kern p t sp (k\<lparr>k_mm := s'\<rparr>)"
    using kernel_foreign(1) [OF d(2) fp] d c(2) fp by (auto simp: proc_ok_def copied_to_def footprint_def direct_mapped_def)
  then show thesis using that c fp by (auto simp: copied_to_def Let_def footprint_def)
qed

lemma task_dropped:
  assumes pr: "proc_ok K kern p t sp k" and z: "zombie_ok K kern sp c k" and ne: "c \<noteq> p" and i: "inner_of c k = Some i"
  obtains k' where "drop_task c k = Some k'" "k_tasks k' = (k_tasks k)(c := None)" "proc_ok K kern p t sp k'" "umem sp (k_mm k') = umem sp (k_mm k)"
    "free_ppns (k_mm k') = free_ppns (k_mm k) \<union> {fr_ppn (ks_frames (ti_kstack i))..<fr_ppn (ks_frames (ti_kstack i)) + 8}"
proof -
  note d = proc_okD [OF pr]
  let ?B = "{fr_ppn (ks_frames (ti_kstack i))..<fr_ppn (ks_frames (ti_kstack i)) + 8}"
  have zi: "\<not> arc_held c k" "ti_space i = None" "stack_live (ti_kstack i) (k_mm k)" "?B \<inter> (space_owned sp \<union> K \<union> table_frames (as_table kern)) = {}"
    using z i by (auto simp: zombie_ok_def)
  have inv: "buddy_inv (k_mm k)" using space_core_inv d(6) by (auto simp: space_ok_def)
  obtain s' where s': "frame_drop (ks_frames (ti_kstack i)) (k_mm k) = Some s'" "footprint ?B (k_mm k) s'" "free_ppns s' = free_ppns (k_mm k) \<union> ?B"
    by (rule stack_drop [OF inv zi(3)])
  have w: "?B \<inter> (space_owned sp \<union> K) = {}" "?B \<inter> table_frames (as_table kern) = {}" using zi(4) by blast+
  note u = umem_foreign [OF d(6) s'(2) w(1)]
  define k' where "k' = k\<lparr>k_mm := s', k_tasks := (k_tasks k)(c := None)\<rparr>"
  have "drop_task c k = Some k'" using zi(1,2) i s'(1) by (simp add: drop_task_def k'_def)
  moreover have "proc_ok K kern p t sp k'"
    using d u kernel_foreign(1) [OF d(2) s'(2) w(2)] s'(2) ne by (simp add: proc_ok_def k'_def footprint_def direct_mapped_def)
  ultimately show thesis using that u(2) s'(3) by (simp add: k'_def)
qed

lemma reap_child:
  assumes pr: "proc_ok K kern p t sp k" and cur: "current h k = Some p" and z: "zombie_ok K kern sp c k" and ne: "c \<noteq> p"
    and f: "List.find (\<lambda>c. wait_matches want c \<and> state_of c k = Some Zombie) (ti_children (tk_inner t)) = Some c"
  obtains k' where "sys_waitpid h want status_ptr k = Some (Ret (as_isize c), k')" "reaped K kern p t sp c status_ptr k k'"
proof -
  note d = proc_okD [OF pr]
  obtain i where i: "inner_of c k = Some i" using z by (auto simp: zombie_ok_def)
  let ?code = "to_le_bytes 4 (nat (ti_exit_code i mod 2 ^ 32))"
  define k1 where "k1 = upd_inner p (\<lambda>i. i\<lparr>ti_children := remove1 c (ti_children i)\<rparr>) k"
  define t1 where "t1 = t\<lparr>tk_inner := (tk_inner t)\<lparr>ti_children := remove1 c (ti_children (tk_inner t))\<rparr>\<rparr>"
  have p1: "proc_ok K kern p t1 sp k1" "inner_of c k1 = Some i" "k_mm k1 = k_mm k" "k_rq k1 = k_rq k" "k_cpus k1 = k_cpus k"
    "k_tasks k1 = (k_tasks k)(p \<mapsto> t1)"
    using d i ne by (simp_all add: k1_def t1_def proc_ok_def upd_inner_def inner_of_def)
  obtain s2 where s2: "(if status_ptr \<noteq> 0 then copy_to_user sp status_ptr ?code (k_mm k1) \<bind> (\<lambda>(_, mm). Some (k1\<lparr>k_mm := mm\<rparr>)) else Some k1) =
      Some (k1\<lparr>k_mm := s2\<rparr>)" "proc_ok K kern p t1 sp (k1\<lparr>k_mm := s2\<rparr>)" "managed s2 = managed (k_mm k)" "free_ppns s2 = free_ppns (k_mm k)"
    "umem sp s2 = (if status_ptr = 0 then umem sp (k_mm k)
       else mem_write status_ptr (take (writable_prefix (user_writable sp (k_mm k)) status_ptr 4) ?code) (umem sp (k_mm k)))"
  proof (cases "status_ptr = 0")
    case True
    have "k1\<lparr>k_mm := k_mm k\<rparr> = k1" using p1(3) by (metis kstate.surjective kstate.update_convs(6))
    then show thesis using that [of "k_mm k"] p1(1) True by simp
  next
    case False
    obtain r s' where "copy_to_user sp status_ptr ?code (k_mm k1) = Some (r, s')" "proc_ok K kern p t1 sp (k1\<lparr>k_mm := s'\<rparr>)"
      "managed s' = managed (k_mm k1)" "free_ppns s' = free_ppns (k_mm k1)"
      "umem sp s' = mem_write status_ptr (take (writable_prefix (user_writable sp (k_mm k1)) status_ptr (length ?code)) ?code) (umem sp (k_mm k1))"
      by (rule status_written [OF p1(1)])
    then show thesis using that [of s'] False p1(3) by simp
  qed
  have i2: "inner_of c (k1\<lparr>k_mm := s2\<rparr>) = Some i" using p1(2) by (simp add: inner_of_def)
  then have "zombie_ok K kern sp c (k1\<lparr>k_mm := s2\<rparr>)"
    using z i p1(4,5) s2(3,4) by (simp add: zombie_ok_def arc_held_def stack_live_def)
  then obtain k' where k': "drop_task c (k1\<lparr>k_mm := s2\<rparr>) = Some k'" "k_tasks k' = (k_tasks (k1\<lparr>k_mm := s2\<rparr>))(c := None)"
    "proc_ok K kern p t1 sp k'" "umem sp (k_mm k') = umem sp (k_mm (k1\<lparr>k_mm := s2\<rparr>))"
    "free_ppns (k_mm k') = free_ppns (k_mm (k1\<lparr>k_mm := s2\<rparr>)) \<union> {fr_ppn (ks_frames (ti_kstack i))..<fr_ppn (ks_frames (ti_kstack i)) + 8}"
    by (rule task_dropped [OF s2(2) _ ne i2])
  have "inner_of p k = Some (tk_inner t)" using d(4) by (simp add: inner_of_def)
  then have "sys_waitpid h want status_ptr k = Some (Ret (as_isize c), k')"
    using k'(1) s2(1) by (simp only: sys_waitpid_def current_task_def cur f d(5) p1(2) k1_def [symmetric] Let_def Option.bind.simps option.simps)
  moreover have "reaped K kern p t sp c status_ptr k k'"
    unfolding reaped_def Let_def t1_def [symmetric] using i k' s2(4,5) p1(6) by (intro exI [of _ i]) simp
  ultimately show thesis using that by blast
qed

text \<open>The process and all memory are as before.\<close>

definition process_kept :: "phys_page_num set \<Rightarrow> address_space \<Rightarrow> pid \<Rightarrow> task \<Rightarrow> address_space \<Rightarrow> kstate \<Rightarrow> kstate \<Rightarrow> bool" where
  "process_kept K kern p t sp k k' \<longleftrightarrow> k' = k\<lparr>k_mm := k_mm k'\<rparr> \<and> proc_ok K kern p t sp k' \<and> umem sp (k_mm k') = umem sp (k_mm k) \<and>
     free_ppns (k_mm k') = free_ppns (k_mm k)"

lemma process_kept_refl: "proc_ok K kern p t sp k \<Longrightarrow> process_kept K kern p t sp k k"
  by (simp add: process_kept_def)

lemma programs_find_in: "programs_find ps name = Some img \<Longrightarrow> \<exists>n. (n, img) \<in> set ps"
  by (force simp: programs_find_def find_Some_iff in_set_conv_nth)

text \<open>What \<^verbatim>\<open>sys_exec\<close> does once it has read its arguments.\<close>

lemma exec_run:
  assumes pr: "proc_ok K kern p t sp k" and ks: "ks_top (ti_kstack (tk_inner t)) = Some ksp" and h: "h < length (k_cpus k)"
    and img: "length img < 2 ^ 63" and args: "args_size args \<le> USER_STACK_SIZE"
  obtains r k' where "exec_current h sstatus hart p name img args k = Some (r, k')"
    "case r of Inr _ \<Rightarrow> exec_installed K kern h p img args sp k k' | Inl _ \<Rightarrow> process_kept K kern p t sp k k'"
proof (rule exec_view [OF assms, of sstatus hart name], goal_cases)
  case (1 e s')
  have "process_kept K kern p t sp k (k\<lparr>k_mm := s'\<rparr>)" using proc_ok_foreign [OF pr 1(3)] 1(4) by (simp add: process_kept_def)
  then show ?case using 1(1) [of "Inl e"] 1(2) by simp
next
  case (2 k')
  then show ?case using 2(1) [of "Inr ()"] by simp
qed

lemma sys_exec_view:
  assumes pr: "proc_ok K kern p t sp k" and cur: "current (en_hart E) k = Some p" and ks: "ks_top (ti_kstack (tk_inner t)) = Some ksp"
    and h: "en_hart E < length (k_cpus k)" and a: "argv_ptr < 2 ^ 64" and imgs: "\<forall>(n, img) \<in> set (en_programs E). length img < 2 ^ 63"
  shows "\<exists>out k'. sys_exec E sstatus path_ptr argv_ptr k = Some (out, k') \<and>
    (case out of
       Replaced v \<Rightarrow> v = 0 \<and> (\<exists>path args img. exec_args sp (k_mm k) path_ptr argv_ptr path args \<and> programs_find (en_programs E) path = Some img \<and>
         exec_installed K kern (en_hart E) p img args sp k k')
     | Ret e \<Rightarrow> e \<in> {EFAULT, ENOENT, EINVAL, ENOMEM} \<and> process_kept K kern p t sp k k' \<and>
         (e = EFAULT \<longleftrightarrow> \<not> (\<exists>path args. exec_args sp (k_mm k) path_ptr argv_ptr path args)) \<and>
         (e = ENOENT \<longleftrightarrow> (\<exists>path args. exec_args sp (k_mm k) path_ptr argv_ptr path args \<and> programs_find (en_programs E) path = None))
     | _ \<Rightarrow> False)"
proof -
  note d = proc_okD [OF pr] and kept = process_kept_refl [OF pr]
  obtain pr' where pth: "read_cstr sp path_ptr MAX_STR (k_mm k) = Some pr'"
    "\<And>str. pr' = Some str \<longleftrightarrow> is_cstr sp (k_mm k) path_ptr str \<and> length str < MAX_STR"
    by (rule read_cstr_view [OF d(6,3), of path_ptr MAX_STR]) blast
  obtain ar where arg: "(if argv_ptr \<noteq> 0 then read_argv MAX_ARGS sp argv_ptr 0 [] (k_mm k) else Some (Some [])) = Some ar"
    "\<And>args. ar = Some args \<longleftrightarrow> (if argv_ptr = 0 then args = [] else is_argv sp (k_mm k) argv_ptr args)"
    by (rule argv_read [OF d(6,3) a]) blast
  have ex: "exec_args sp (k_mm k) path_ptr argv_ptr path args \<longleftrightarrow> pr' = Some path \<and> ar = Some args" for path args
    unfolding exec_args_def using pth(2) [of path] arg(2) [of args] by blast
  have run: "sys_exec E sstatus path_ptr argv_ptr k = (case pr' of None \<Rightarrow> Some (Ret EFAULT, k) | Some path \<Rightarrow>
      (case ar of None \<Rightarrow> Some (Ret EFAULT, k) | Some args \<Rightarrow>
      (case programs_find (en_programs E) path of None \<Rightarrow> Some (Ret ENOENT, k) | Some img \<Rightarrow>
         exec_current (en_hart E) sstatus (en_hart E) p path img args k \<bind>
         (\<lambda>(r, k1). Some (case r of Inr _ \<Rightarrow> Replaced 0 | Inl ExecOutOfMemory \<Rightarrow> Ret ENOMEM | Inl (BadImage _) \<Rightarrow> Ret EINVAL, k1)))))"
    by (simp only: sys_exec_def current_task_def inner_of_def cur d(4,5) pth(1) arg(1) Option.bind.simps option.simps)
  consider "pr' = None \<or> ar = None" | path args where "pr' = Some path" "ar = Some args" "programs_find (en_programs E) path = None"
    | path args img where "pr' = Some path" "ar = Some args" "programs_find (en_programs E) path = Some img"
    by (metis not_None_eq)
  then show ?thesis
  proof cases
    case 1
    then have "sys_exec E sstatus path_ptr argv_ptr k = Some (Ret EFAULT, k)" unfolding run by (cases pr') auto
    then show ?thesis using 1 kept unfolding ex by auto
  next
    case 2
    then show ?thesis using kept unfolding run ex by auto
  next
    case (3 path args img)
    have "length img < 2 ^ 63" using programs_find_in [OF 3(3)] imgs by blast
    moreover have "args_size args \<le> USER_STACK_SIZE" using exec_args_fit ex [of path args] 3 by blast
    ultimately obtain r k' where r: "exec_current (en_hart E) sstatus (en_hart E) p path img args k = Some (r, k')"
      "case r of Inr _ \<Rightarrow> exec_installed K kern (en_hart E) p img args sp k k' | Inl _ \<Rightarrow> process_kept K kern p t sp k k'"
      by (rule exec_run [OF pr ks h])
    then show ?thesis using 3 unfolding run ex by (cases r) (auto split: exec_error.split)
  qed
qed

section \<open>Properties\<close>


definition demo_env :: "programs \<Rightarrow> uart_obs env" where
  "demo_env ps = \<lparr>en_machine = demo_uart, en_syms = \<lparr>sym_task_entry = 0, sym_enter_user_mode = 0\<rparr>, en_programs = ps, en_hart = 0, en_text = 0\<rparr>"

lemma demo_strings:
  assumes "umem sp s = (\<lambda>x. if 0x11000 \<le> x \<and> x < 0x12000 then Some (0, fl) else None)"
  shows "is_cstr sp s 0x11000 str \<longleftrightarrow> str = []" "\<not> is_cstr sp s 0 str"
proof -
  have b: "user_byte sp s x = (if 0x11000 \<le> x \<and> x < 0x12000 then Some 0 else None)" for x by (simp add: user_byte_def assms)
  show "\<not> is_cstr sp s 0 str"
  proof
    assume "is_cstr sp s 0 str"
    then have "user_byte sp s 0 \<noteq> None" by (cases "length str") (simp_all add: is_cstr_def)
    then show False using b [of 0] by simp
  qed
  have e: "is_cstr sp s 0x11000 []" by (simp add: is_cstr_def b)
  then show "is_cstr sp s 0x11000 str \<longleftrightarrow> str = []" using is_cstr_unique by blast
qed


lemma sys_write_view:
  assumes pr: "proc_ok K kern p t sp (sy_k st)" and cur: "current (en_hart E) (sy_k st) = Some p"
    and dev: "ns16550 (en_machine E) (us_uart (sy_uart st)) obs" "\<not> dlab (obs (sy_dev st))"
  shows "\<exists>d'. sys_write E fd ptr len st =
      Some (if fd \<noteq> STDOUT \<and> fd \<noteq> STDERR then Ret EBADF
            else if MAX_IO < len \<or> USER_MAX_ADDR < ptr + len \<or> user_bytes sp (k_mm (sy_k st)) ptr len = None then Ret EFAULT
            else Ret (int len), st\<lparr>sy_dev := d'\<rparr>) \<and>
    o_lcr (obs d') = o_lcr (obs (sy_dev st)) \<and> o_sent (obs d') = o_sent (obs (sy_dev st)) @
      (if (fd = STDOUT \<or> fd = STDERR) \<and> len \<le> MAX_IO \<and> ptr + len \<le> USER_MAX_ADDR
       then case user_bytes sp (k_mm (sy_k st)) ptr len of Some bs \<Rightarrow> crlf bs | None \<Rightarrow> [] else [])"
proof -
  note d = proc_okD [OF pr]
  let ?b = "user_bytes sp (k_mm (sy_k st)) ptr len"
  have buf: "read_user_buf (en_hart E) ptr len (sy_k st) = Some (if MAX_IO < len \<or> USER_MAX_ADDR < ptr + len then None else ?b)"
    using copy_from_user_bytes [OF d(6,3)] d(4,5) cur
    by (auto simp: read_user_buf_def checked_add_def current_task_def inner_of_def)
  have ret: "as_isize len = int len" if "len \<le> MAX_IO" using that by (simp add: as_isize_def)
  have same: "st\<lparr>sy_dev := sy_dev st\<rparr> = st" by simp
  show ?thesis
  proof (cases "(fd = STDOUT \<or> fd = STDERR) \<and> len \<le> MAX_IO \<and> ptr + len \<le> USER_MAX_ADDR \<and> ?b \<noteq> None")
    case True
    then obtain bs where bs: "?b = Some bs" by blast
    obtain d' where "write_bytes (en_machine E) (sy_uart st) bs (sy_dev st) = Some d'" "o_sent (obs d') = o_sent (obs (sy_dev st)) @ crlf bs"
      "o_lcr (obs d') = o_lcr (obs (sy_dev st))" using write_bytes_sends [OF dev] by blast
    then show ?thesis using True buf bs ret by (intro exI [of _ d']) (simp add: sys_write_def; blast)
  next
    case False
    then consider "fd \<noteq> STDOUT \<and> fd \<noteq> STDERR" | "fd = STDOUT \<or> fd = STDERR" "MAX_IO < len \<or> USER_MAX_ADDR < ptr + len"
      | "fd = STDOUT \<or> fd = STDERR" "\<not> (MAX_IO < len \<or> USER_MAX_ADDR < ptr + len)" "?b = None" by linarith
    then show ?thesis by cases (rule exI [of _ "sy_dev st"], simp add: sys_write_def buf; linarith)+
  qed
qed





end
