(* ===== verification/Syscall_Io.thy ===== *)
theory Syscall_Io
  imports Syscall_Correct
begin

text \<open>
  Input from the terminal: \<^verbatim>\<open>read\<close> moves bytes from the receive ring into the memory of the caller.
\<close>

lemma read_byte_items:
  assumes "rx_ok (us_rx u)" "rx_items (us_rx u) = x # xs"
  obtains r where "read_byte u = (Some x, u\<lparr>us_rx := r\<rparr>)" "rx_ok r" "rx_items r = xs"
  using rx.pop_nonempty [OF assms] that by (auto simp: read_byte_def)

lemma read_byte_empty: "rx_ok (us_rx u) \<Longrightarrow> rx_items (us_rx u) = [] \<Longrightarrow> read_byte u = (None, u)"
  using rx.pop_empty [of "us_rx u"] by (simp add: read_byte_def)

lemma take_input_items:
  "rx_ok (us_rx u) \<Longrightarrow>
    \<exists>r. take_input n buf u = (buf @ take n (rx_items (us_rx u)), u\<lparr>us_rx := r\<rparr>) \<and> rx_ok r \<and> rx_items r = drop n (rx_items (us_rx u))"
proof (induction n arbitrary: buf u)
  case 0
  then show ?case by (intro exI [of _ "us_rx u"]) simp
next
  case (Suc n)
  show ?case
  proof (cases "rx_items (us_rx u)")
    case Nil
    then show ?thesis using Suc.prems read_byte_empty [OF Suc.prems Nil] by (intro exI [of _ "us_rx u"]) simp
  next
    case (Cons x xs)
    obtain r where r: "read_byte u = (Some x, u\<lparr>us_rx := r\<rparr>)" "rx_ok r" "rx_items r = xs" by (rule read_byte_items [OF Suc.prems Cons])
    then show ?thesis using Suc.IH [of "u\<lparr>us_rx := r\<rparr>" "buf @ [x]"] Cons by auto
  qed
qed

lemma has_input_items: "rx_ok (us_rx u) \<Longrightarrow> has_input u \<longleftrightarrow> rx_items (us_rx u) \<noteq> []"
  using rx_empty_iff [of "us_rx u"] by (auto simp: has_input_def rx_is_empty_def rx_items_def)

text \<open>What a call with a valid buffer and some input does.\<close>

definition input_read :: "phys_page_num set \<Rightarrow> address_space \<Rightarrow> pid \<Rightarrow> task \<Rightarrow> address_space \<Rightarrow> usize \<Rightarrow> usize \<Rightarrow> 'd sys \<Rightarrow> sys_out \<Rightarrow> 'd sys \<Rightarrow> bool" where
  "input_read K kern p t sp ptr len st out st' \<longleftrightarrow>
     (let data = take len (rx_items (us_rx (sy_uart st)));
          n = writable_prefix (user_writable sp (k_mm (sy_k st))) ptr (length data)
      in out = (if n = length data then Ret (int n) else Ret EFAULT) \<and>
         umem sp (k_mm (sy_k st')) = mem_write ptr (take n data) (umem sp (k_mm (sy_k st))) \<and>
         proc_ok K kern p t sp (sy_k st') \<and> (\<exists>mm r. st' = st\<lparr>sy_k := (sy_k st)\<lparr>k_mm := mm\<rparr>, sy_uart := (sy_uart st)\<lparr>us_rx := r\<rparr>\<rparr> \<and>
           rx_ok r \<and> rx_items r = drop len (rx_items (us_rx (sy_uart st)))))"

lemma sys_read_input:
  assumes pr: "proc_ok K kern p t sp (sy_k st)" and cur: "current (en_hart E) (sy_k st) = Some p" and rx: "rx_ok (us_rx (sy_uart st))"
    and len: "0 < len" "len \<le> MAX_IO" "ptr + len \<le> USER_MAX_ADDR" and inp: "rx_items (us_rx (sy_uart st)) \<noteq> []"
  obtains out st' where "sys_read E STDIN ptr len st = Some (out, st')" "input_read K kern p t sp ptr len st out st'"
proof -
  note d = proc_okD [OF pr]
  let ?data = "take len (rx_items (us_rx (sy_uart st)))"
  let ?n = "writable_prefix (user_writable sp (k_mm (sy_k st))) ptr (length ?data)"
  obtain r where r: "take_input len [] (sy_uart st) = (?data, (sy_uart st)\<lparr>us_rx := r\<rparr>)" "rx_ok r" "rx_items r = drop len (rx_items (us_rx (sy_uart st)))"
    using take_input_items [OF rx, of len "[]"] by auto
  obtain q mm where c: "copy_to_user sp ptr ?data (k_mm (sy_k st)) = Some (q, mm)" "copied_to K sp ptr ?data (k_mm (sy_k st)) q mm"
    using copy_to_loop_view [OF d(6,3), of 0 ?data ptr] by (auto simp: copy_to_user_def)
  obtain q' s' where w: "copy_to_user sp ptr ?data (k_mm (sy_k st)) = Some (q', s')" "proc_ok K kern p t sp ((sy_k st)\<lparr>k_mm := s'\<rparr>)"
    "umem sp s' = mem_write ptr (take ?n ?data) (umem sp (k_mm (sy_k st)))" by (rule status_written [OF pr])
  have q: "q = (if ?n = length ?data then Some () else None)" using c(2) by (simp add: copied_to_def Let_def)
  have "length ?data \<le> MAX_IO" using len(2) by simp
  then have ret: "as_isize (length ?data) = int (length ?data)" by (simp add: as_isize_def)
  define st' where "st' = st\<lparr>sy_k := (sy_k st)\<lparr>k_mm := mm\<rparr>, sy_uart := (sy_uart st)\<lparr>us_rx := r\<rparr>\<rparr>"
  have "sys_read E STDIN ptr len st = Some (if ?n = length ?data then Ret (int (length ?data)) else Ret EFAULT, st')"
    using len has_input_items [OF rx] inp r(1) c(1) q ret d(4,5) cur
    by (auto simp: sys_read_def checked_add_def current_task_def inner_of_def st'_def)
  moreover have "input_read K kern p t sp ptr len st (if ?n = length ?data then Ret (int (length ?data)) else Ret EFAULT) st'"
    unfolding input_read_def Let_def using w c(1) r(2,3) by (auto simp: st'_def)
  ultimately show thesis by (rule that)
qed

text \<open>
  C37: \<^verbatim>\<open>read\<close> never panics. It refuses other descriptors with EBADF and buffers that are too large or
  beyond the user limit with EFAULT, and sleeps when nothing has been typed. Otherwise it takes the oldest bytes,
  as many as there are and fit, stores them in order as far as the caller could have written there, and returns
  their number, or EFAULT if it could not store all of them; the bytes are gone from the ring in both cases.
\<close>

theorem sys_read_correct:
  assumes pr: "proc_ok K kern p t sp (sy_k st)" and cur: "current (en_hart E) (sy_k st) = Some p" and rx: "rx_ok (us_rx (sy_uart st))"
  shows "\<exists>out st'. sys_read E fd ptr len st = Some (out, st') \<and>
    (if fd \<noteq> STDIN then out = Ret EBADF \<and> st' = st
     else if len = 0 then out = Ret 0 \<and> st' = st
     else if MAX_IO < len \<or> USER_MAX_ADDR < ptr + len then out = Ret EFAULT \<and> st' = st
     else if rx_items (us_rx (sy_uart st)) = [] then out = Sleep_Input \<and> st' = st
     else input_read K kern p t sp ptr len st out st')"
proof (cases "fd \<noteq> STDIN \<or> len = 0 \<or> MAX_IO < len \<or> USER_MAX_ADDR < ptr + len \<or> rx_items (us_rx (sy_uart st)) = []")
  case True
  then show ?thesis using has_input_items [OF rx] by (auto simp: sys_read_def checked_add_def)
next
  case False
  then obtain out st' where "sys_read E STDIN ptr len st = Some (out, st')" "input_read K kern p t sp ptr len st out st'"
    using sys_read_input [OF pr cur rx, of len ptr] by auto
  then show ?thesis using False by auto
qed

theorem sys_read_correct_witness:
  "\<exists>K kern sp k r st st'. proc_ok K kern 1 (Process_Correct.demo_task sp) sp k \<and> rx_items r = [65] \<and>
     st = \<lparr>sy_k = k, sy_uart = uart_statics_new\<lparr>us_rx := r\<rparr>, sy_timer = \<lparr>tm_ticks = 0, tm_next = 0\<rparr>, sy_dev = demo_obs\<rparr> \<and>
     sys_read (demo_env []) STDIN 0x11000 4 st = Some (Ret 1, st') \<and> rx_items (us_rx (sy_uart st')) = [] \<and>
     umem sp (k_mm (sy_k st')) 0x11000 = Some (65, leaf_flags (FL_RW OR FL_USER))"
proof -
  obtain K kern sp s where d: "proc_ok K kern 1 (Process_Correct.demo_task sp) sp (demo_k kern sp s)"
    and u: "umem sp s = (\<lambda>x. if 0x11000 \<le> x \<and> x < 0x12000 then Some (0, leaf_flags (FL_RW OR FL_USER)) else None)" by (rule demo_proc)
  obtain r where r: "rx_ok r" "rx_items r = [65]" using rx.push_room [of rx_new 65] rx_new_ok by auto
  define st where "st = \<lparr>sy_k = demo_k kern sp s, sy_uart = uart_statics_new\<lparr>us_rx := r\<rparr>, sy_timer = \<lparr>tm_ticks = 0, tm_next = 0\<rparr>, sy_dev = demo_obs\<rparr>"
  have e: "sy_k st = demo_k kern sp s" "k_mm (demo_k kern sp s) = s" "current (en_hart (demo_env [])) (demo_k kern sp s) = Some 1" "us_rx (sy_uart st) = r"
    by (simp_all add: st_def demo_k_def current_def demo_env_def)
  have h: "proc_ok K kern 1 (Process_Correct.demo_task sp) sp (sy_k st)" "current (en_hart (demo_env [])) (sy_k st) = Some 1" "rx_ok (us_rx (sy_uart st))"
    using d e r by simp_all
  have "user_writable sp s 0x11000" by (simp add: user_writable_def u fl_contains_def)
  then have n: "writable_prefix (user_writable sp s) 0x11000 1 = 1" unfolding One_nat_def by simp
  from sys_read_correct [OF h, of STDIN "0x11000" 4] obtain out st' where
    w: "sys_read (demo_env []) STDIN 0x11000 4 st = Some (out, st')" "input_read K kern 1 (Process_Correct.demo_task sp) sp 0x11000 4 st out st'"
    using r by (auto simp: e)
  then have "out = Ret 1 \<and> rx_items (us_rx (sy_uart st')) = [] \<and> umem sp (k_mm (sy_k st')) 0x11000 = Some (65, leaf_flags (FL_RW OR FL_USER))"
    using r n by (auto simp: input_read_def Let_def e mem_write_def u)
  then show ?thesis using d w(1) r(2) st_def by blast
qed

end
