(* ===== verification/Userland.thy ===== *)
theory Userland
  imports Syscall
begin

text \<open>
  The user library (\<^verbatim>\<open>user/src/lib.rs\<close>) and the programs written on it: the shell, init and echo
  (\<^verbatim>\<open>user/src/bin/\<close>). What a program can do is a parameter: it loads and stores single bytes of
  its own memory, and \<^verbatim>\<open>ecall\<close> enters the kernel. A result of \<open>None\<close> means that the program
  does not go on: it has ended, or an access has faulted. A slice is a pointer and a length.
\<close>

section \<open>The parameter\<close>

text \<open>\<open>um_text\<close> says where the bytes of a literal or of formatted text are.\<close>

record 'u user_machine =
  um_ecall :: "usize \<Rightarrow> usize \<Rightarrow> usize \<Rightarrow> usize \<Rightarrow> 'u \<Rightarrow> (isize \<times> 'u) option"
  um_load :: "virt_addr \<Rightarrow> 'u \<Rightarrow> u8 option"
  um_store :: "virt_addr \<Rightarrow> u8 \<Rightarrow> 'u \<Rightarrow> 'u option"
  um_text :: "u8 list \<Rightarrow> virt_addr"

primrec load_bytes :: "'u user_machine \<Rightarrow> virt_addr \<Rightarrow> nat \<Rightarrow> 'u \<Rightarrow> u8 list option" where
  "load_bytes M a 0 u = Some []"
| "load_bytes M a (Suc n) u = do {
     bs \<leftarrow> load_bytes M a n u;
     b \<leftarrow> um_load M (a + n) u;
     Some (bs @ [b])
   }"

fun store_bytes :: "'u user_machine \<Rightarrow> virt_addr \<Rightarrow> u8 list \<Rightarrow> 'u \<Rightarrow> 'u option" where
  "store_bytes M a [] u = Some u"
| "store_bytes M a (b # bs) u = do {
     u1 \<leftarrow> um_store M a b u;
     store_bytes M (a + 1) bs u1
   }"

definition load_usize :: "'u user_machine \<Rightarrow> virt_addr \<Rightarrow> 'u \<Rightarrow> usize option" where
  "load_usize M a u = map_option from_le_bytes (load_bytes M a 8 u)"

definition store_usize :: "'u user_machine \<Rightarrow> virt_addr \<Rightarrow> usize \<Rightarrow> 'u \<Rightarrow> 'u option" where
  "store_usize M a n u = store_bytes M a (to_le_bytes 8 n) u"

section \<open>System calls\<close>

definition syscall :: "'u user_machine \<Rightarrow> usize \<Rightarrow> usize \<Rightarrow> usize \<Rightarrow> usize \<Rightarrow> 'u \<Rightarrow> (isize \<times> 'u) option" where
  "syscall M nr a0 a1 a2 u = um_ecall M nr a0 a1 a2 u"

text \<open>\<^verbatim>\<open>exit\<close> does not return; what would follow is \<^verbatim>\<open>unreachable!\<close>.\<close>

definition exit_user :: "'u user_machine \<Rightarrow> int \<Rightarrow> 'u \<Rightarrow> 'a option" where
  "exit_user M code u = syscall M SYS_EXIT (as_usize code) 0 0 u \<bind> (\<lambda>_. None)"

definition write_user :: "'u user_machine \<Rightarrow> usize \<Rightarrow> virt_addr \<times> usize \<Rightarrow> 'u \<Rightarrow> (isize \<times> 'u) option" where
  "write_user M fd buf u = syscall M SYS_WRITE fd (fst buf) (snd buf) u"

definition read_user :: "'u user_machine \<Rightarrow> usize \<Rightarrow> virt_addr \<times> usize \<Rightarrow> 'u \<Rightarrow> (isize \<times> 'u) option" where
  "read_user M fd buf u = syscall M SYS_READ fd (fst buf) (snd buf) u"

definition sched_yield :: "'u user_machine \<Rightarrow> 'u \<Rightarrow> 'u option" where
  "sched_yield M u = map_option snd (syscall M SYS_YIELD 0 0 0 u)"

definition getpid :: "'u user_machine \<Rightarrow> 'u \<Rightarrow> (usize \<times> 'u) option" where
  "getpid M u = map_option (map_prod as_usize id) (syscall M SYS_GETPID 0 0 0 u)"

definition getppid :: "'u user_machine \<Rightarrow> 'u \<Rightarrow> (usize \<times> 'u) option" where
  "getppid M u = map_option (map_prod as_usize id) (syscall M SYS_GETPPID 0 0 0 u)"

definition fork_user :: "'u user_machine \<Rightarrow> 'u \<Rightarrow> (isize \<times> 'u) option" where
  "fork_user M u = syscall M SYS_FORK 0 0 0 u"

definition exec_raw :: "'u user_machine \<Rightarrow> virt_addr \<times> usize \<Rightarrow> virt_addr \<Rightarrow> 'u \<Rightarrow> (isize \<times> 'u) option" where
  "exec_raw M path argv u = syscall M SYS_EXEC (fst path) argv 0 u"

text \<open>\<open>slot\<close> is the stack slot of the local array \<^verbatim>\<open>argv\<close>.\<close>

definition exec_user :: "'u user_machine \<Rightarrow> virt_addr \<Rightarrow> virt_addr \<times> usize \<Rightarrow> 'u \<Rightarrow> (isize \<times> 'u) option" where
  "exec_user M slot path u = do {
     u1 \<leftarrow> store_usize M slot (fst path) u;
     u2 \<leftarrow> store_usize M (slot + 8) 0 u1;
     exec_raw M path slot u2
   }"

definition waitpid :: "'u user_machine \<Rightarrow> isize \<Rightarrow> virt_addr \<Rightarrow> 'u \<Rightarrow> (isize \<times> 'u) option" where
  "waitpid M pid status u = syscall M SYS_WAITPID (as_usize pid) status 0 u"

definition wait_user :: "'u user_machine \<Rightarrow> virt_addr \<Rightarrow> 'u \<Rightarrow> (isize \<times> 'u) option" where
  "wait_user M status u = waitpid M (-1) status u"

definition sbrk :: "'u user_machine \<Rightarrow> isize \<Rightarrow> 'u \<Rightarrow> (isize \<times> 'u) option" where
  "sbrk M delta u = syscall M SYS_SBRK (as_usize delta) 0 0 u"

definition uptime_user :: "'u user_machine \<Rightarrow> 'u \<Rightarrow> (usize \<times> 'u) option" where
  "uptime_user M u = map_option (map_prod as_usize id) (syscall M SYS_UPTIME 0 0 0 u)"

definition ps :: "'u user_machine \<Rightarrow> 'u \<Rightarrow> 'u option" where
  "ps M u = map_option snd (syscall M SYS_PS 0 0 0 u)"

section \<open>Input and output\<close>

abbreviation text_slice :: "'u user_machine \<Rightarrow> u8 list \<Rightarrow> virt_addr \<times> usize" where
  "text_slice M bs \<equiv> (um_text M bs, length bs)"

definition is_ascii_graphic :: "u8 \<Rightarrow> bool" where
  "is_ascii_graphic c \<longleftrightarrow> 0x21 \<le> c \<and> c \<le> 0x7e"

text \<open>The loop of \<^verbatim>\<open>read_line\<close>; \<open>byte\<close> is the stack slot of the local buffer, \<open>buf\<close> the slice to fill.\<close>

partial_function (option) read_line_loop :: "'u user_machine \<Rightarrow> virt_addr \<Rightarrow> virt_addr \<times> usize \<Rightarrow> usize \<Rightarrow> 'u \<Rightarrow> (usize \<times> 'u) option" where
  "read_line_loop M byte buf len u = do {
     u0 \<leftarrow> um_store M byte 0 u;
     (r, u1) \<leftarrow> read_user M STDIN (byte, 1) u0;
     if r \<le> 0 then read_line_loop M byte buf len u1
     else do {
       c \<leftarrow> um_load M byte u1;
       if c = 13 \<or> c = 10 then do {
         (_, u2) \<leftarrow> write_user M STDOUT (text_slice M [10]) u1;
         Some (len, u2)
       }
       else if c = 0x7f \<or> c = 0x08 then
         (if 0 < len then do {
            (_, u2) \<leftarrow> write_user M STDOUT (text_slice M [8, 32, 8]) u1;
            read_line_loop M byte buf (len - 1) u2
          }
          else read_line_loop M byte buf len u1)
       else if (is_ascii_graphic c \<or> c = 32) \<and> len < snd buf then do {
         u2 \<leftarrow> um_store M (fst buf + len) c u1;
         (_, u3) \<leftarrow> write_user M STDOUT (byte, 1) u2;
         read_line_loop M byte buf (len + 1) u3
       }
       else read_line_loop M byte buf len u1
     }
   }"

definition read_line :: "'u user_machine \<Rightarrow> virt_addr \<Rightarrow> virt_addr \<times> usize \<Rightarrow> 'u \<Rightarrow> (usize \<times> 'u) option" where
  "read_line M byte buf u = read_line_loop M byte buf 0 u"

text \<open>\<^verbatim>\<open>_print\<close> and \<^verbatim>\<open>Stdout::write_str\<close>. The formatter may hand its text over in pieces; here it is one piece.\<close>

definition print_user :: "'u user_machine \<Rightarrow> u8 list \<Rightarrow> 'u \<Rightarrow> 'u option" where
  "print_user M s u = map_option snd (write_user M STDOUT (text_slice M s) u)"

definition println_user :: "'u user_machine \<Rightarrow> u8 list \<Rightarrow> 'u \<Rightarrow> 'u option" where
  "println_user M s u = print_user M (s @ [10]) u"

section \<open>Arguments and entry\<close>

record args =
  ar_argc :: usize
  ar_argv :: virt_addr
  ar_index :: usize

definition args_new :: "usize \<Rightarrow> virt_addr \<Rightarrow> args" where
  "args_new argc argv = \<lparr>ar_argc = argc, ar_argv = argv, ar_index = 0\<rparr>"

definition args_len :: "args \<Rightarrow> usize" where
  "args_len a = ar_argc a"

definition args_is_empty :: "args \<Rightarrow> bool" where
  "args_is_empty a \<longleftrightarrow> ar_argc a = 0"

text \<open>The search for the terminating NUL.\<close>

partial_function (option) str_len :: "'u user_machine \<Rightarrow> virt_addr \<Rightarrow> usize \<Rightarrow> 'u \<Rightarrow> usize option" where
  "str_len M p len u = do {
     b \<leftarrow> um_load M (p + len) u;
     if b \<noteq> 0 then str_len M p (len + 1) u else Some len
   }"

definition args_get :: "'u user_machine \<Rightarrow> args \<Rightarrow> usize \<Rightarrow> 'u \<Rightarrow> (virt_addr \<times> usize) option option" where
  "args_get M a n u =
     (if ar_argc a \<le> n then Some None
      else do {
        p \<leftarrow> load_usize M (ar_argv a + n * 8) u;
        len \<leftarrow> str_len M p 0 u;
        Some (Some (p, len))
      })"

definition args_next :: "'u user_machine \<Rightarrow> args \<Rightarrow> 'u \<Rightarrow> ((virt_addr \<times> usize) option \<times> args) option" where
  "args_next M a u = do {
     item \<leftarrow> args_get M a (ar_index a) u;
     Some (case item of None \<Rightarrow> (None, a) | Some s \<Rightarrow> (Some s, a\<lparr>ar_index := ar_index a + 1\<rparr>))
   }"

text \<open>\<^verbatim>\<open>_start\<close> and the function that \<^verbatim>\<open>entry!\<close> generates, for a program \<open>main\<close>.\<close>

definition start_user :: "'u user_machine \<Rightarrow> (args \<Rightarrow> 'u \<Rightarrow> (int \<times> 'u) option) \<Rightarrow> usize \<Rightarrow> virt_addr \<Rightarrow> 'u \<Rightarrow> 'a option" where
  "start_user M main argc argv u = do {
     (code, u1) \<leftarrow> main (args_new argc argv) u;
     exit_user M code u1
   }"

end
