(* ===== verification/Shell.thy ===== *)
theory Shell
  imports Userland
begin

text \<open>
  The programs: the shell with its in-place argument splitter, init, echo, forktest and hello.
  Local variables whose address is taken are stack slots, which are parameters.
\<close>

section \<open>The shell\<close>

abbreviation (input) LINE_MAX :: usize where "LINE_MAX \<equiv> 256"
abbreviation (input) ARGS_MAX :: usize where "ARGS_MAX \<equiv> 16"

text \<open>The two inner loops of \<^verbatim>\<open>split\<close>, and the outer one, which yields \<open>None\<close> for too many arguments.\<close>

partial_function (option) skip_spaces :: "'u user_machine \<Rightarrow> virt_addr \<times> usize \<Rightarrow> usize \<Rightarrow> 'u \<Rightarrow> (usize \<times> 'u) option" where
  "skip_spaces M line i u =
     (if i < snd line then do {
        c \<leftarrow> um_load M (fst line + i) u;
        if c = 32 then do {
          u1 \<leftarrow> um_store M (fst line + i) 0 u;
          skip_spaces M line (i + 1) u1
        }
        else Some (i, u)
      }
      else Some (i, u))"

partial_function (option) skip_word :: "'u user_machine \<Rightarrow> virt_addr \<times> usize \<Rightarrow> usize \<Rightarrow> 'u \<Rightarrow> usize option" where
  "skip_word M line i u =
     (if i < snd line then do {
        c \<leftarrow> um_load M (fst line + i) u;
        if c \<noteq> 32 then skip_word M line (i + 1) u else Some i
      }
      else Some i)"

partial_function (option) split_loop :: "'u user_machine \<Rightarrow> virt_addr \<times> usize \<Rightarrow> virt_addr \<Rightarrow> usize \<Rightarrow> usize \<Rightarrow> 'u \<Rightarrow> (usize option \<times> 'u) option" where
  "split_loop M line argv argc i u =
     (if i < snd line then do {
        (i1, u1) \<leftarrow> skip_spaces M line i u;
        if snd line \<le> i1 then Some (Some argc, u1)
        else if argc = ARGS_MAX then Some (None, u1)
        else do {
          u2 \<leftarrow> store_usize M (argv + argc * 8) (fst line + i1) u1;
          i2 \<leftarrow> skip_word M line i1 u2;
          split_loop M line argv (argc + 1) i2 u2
        }
      }
      else Some (Some argc, u))"

definition split :: "'u user_machine \<Rightarrow> virt_addr \<times> usize \<Rightarrow> virt_addr \<Rightarrow> 'u \<Rightarrow> (usize option \<times> 'u) option" where
  "split M line argv u = do {
     (r, u1) \<leftarrow> split_loop M line argv 0 0 u;
     case r of
       None \<Rightarrow> Some (None, u1)
     | Some argc \<Rightarrow> do {
         u2 \<leftarrow> (if 0 < argc \<and> snd line < LINE_MAX then um_store M (fst line + snd line) 0 u1 else Some u1);
         u3 \<leftarrow> store_usize M (argv + argc * 8) 0 u2;
         Some (Some argc, u3)
       }
   }"

definition cstr_at :: "'u user_machine \<Rightarrow> virt_addr \<Rightarrow> 'u \<Rightarrow> (virt_addr \<times> usize) option" where
  "cstr_at M ptr u = map_option (Pair ptr) (str_len M ptr 0 u)"

definition dec_int :: "int \<Rightarrow> u8 list" where
  "dec_int n = (if n < 0 then 45 # dec (nat (- n)) else dec (nat n))"

definition load_i32 :: "'u user_machine \<Rightarrow> virt_addr \<Rightarrow> 'u \<Rightarrow> int option" where
  "load_i32 M a u = map_option (\<lambda>bs. as_i32 (from_le_bytes bs)) (load_bytes M a 4 u)"

definition run_external :: "'u user_machine \<Rightarrow> virt_addr \<Rightarrow> virt_addr \<times> usize \<Rightarrow> virt_addr \<Rightarrow> 'u \<Rightarrow> 'u option" where
  "run_external M slot line argv u = do {
     (r, u1) \<leftarrow> fork_user M u;
     if r = 0 then do {
       (err, u2) \<leftarrow> exec_raw M line argv u1;
       u3 \<leftarrow> println_user M (bytes_of ''sh: command not found (error '' @ dec_int err @ bytes_of '')'') u2;
       exit_user M 127 u3
     }
     else if 0 < r then do {
       u2 \<leftarrow> store_bytes M slot (to_le_bytes 4 0) u1;
       (_, u3) \<leftarrow> waitpid M r slot u2;
       status \<leftarrow> load_i32 M slot u3;
       if status \<noteq> 0 then println_user M (bytes_of ''sh: exited with status '' @ dec_int status) u3 else Some u3
     }
     else println_user M (bytes_of ''sh: fork failed with '' @ dec_int r) u1
   }"

definition help_lines :: "string list" where
  "help_lines =
     [''builtins:'',
      ''  help          this message'',
      ''  exit          leave the shell'',
      ''  uptime        milliseconds since boot'',
      ''  ps            list tasks'',
      '''',
      ''anything else is looked up as a program, for example:'',
      ''  hello         print a greeting'',
      ''  forktest      exercise fork and wait'',
      ''  echo a b c    print the arguments back'']"

fun println_all :: "'u user_machine \<Rightarrow> string list \<Rightarrow> 'u \<Rightarrow> 'u option" where
  "println_all M [] u = Some u"
| "println_all M (s # ss) u = println_user M (bytes_of s) u \<bind> println_all M ss"

definition builtin_help :: "'u user_machine \<Rightarrow> 'u \<Rightarrow> 'u option" where
  "builtin_help M u = println_all M help_lines u"

text \<open>\<^verbatim>\<open>{:03}\<close> pads with zeros.\<close>

definition dec3 :: "nat \<Rightarrow> u8 list" where
  "dec3 n = replicate (3 - length (dec n)) 48 @ dec n"

record sh_slots =
  sl_byte :: virt_addr
  sl_line :: virt_addr
  sl_argv :: virt_addr
  sl_status :: virt_addr

partial_function (option) sh_loop :: "'u user_machine \<Rightarrow> sh_slots \<Rightarrow> 'u \<Rightarrow> (int \<times> 'u) option" where
  "sh_loop M S u = do {
     u1 \<leftarrow> print_user M (bytes_of ''$ '') u;
     (len, u2) \<leftarrow> read_line M (sl_byte S) (sl_line S, LINE_MAX) u1;
     if len = 0 then sh_loop M S u2
     else do {
       u3 \<leftarrow> store_bytes M (sl_argv S) (replicate ((ARGS_MAX + 1) * 8) 0) u2;
       (r, u4) \<leftarrow> split M (sl_line S, len) (sl_argv S) u3;
       case r of
         None \<Rightarrow> println_user M (bytes_of ''sh: too many arguments (limit 16)'') u4 \<bind> sh_loop M S
       | Some argc \<Rightarrow>
           if argc = 0 then sh_loop M S u4
           else do {
             a0 \<leftarrow> load_usize M (sl_argv S) u4;
             (p, n) \<leftarrow> cstr_at M a0 u4;
             name \<leftarrow> load_bytes M p n u4;
             if name = bytes_of ''exit'' then do {
               u5 \<leftarrow> println_user M (bytes_of ''sh: goodbye'') u4;
               Some (0, u5)
             }
             else if name = bytes_of ''help'' then builtin_help M u4 \<bind> sh_loop M S
             else if name = bytes_of ''uptime'' then do {
               (ms, u5) \<leftarrow> uptime_user M u4;
               u6 \<leftarrow> println_user M (bytes_of ''up '' @ dec (ms div 1000) @ bytes_of ''.'' @ dec3 (ms mod 1000) @ bytes_of ''s'') u5;
               sh_loop M S u6
             }
             else if name = bytes_of ''ps'' then ps M u4 \<bind> sh_loop M S
             else run_external M (sl_status S) (sl_line S, len) (sl_argv S) u4 \<bind> sh_loop M S
           }
     }
   }"

definition sh_main :: "'u user_machine \<Rightarrow> sh_slots \<Rightarrow> args \<Rightarrow> 'u \<Rightarrow> (int \<times> 'u) option" where
  "sh_main M S _ u = do {
     u1 \<leftarrow> println_user M [] u;
     u2 \<leftarrow> println_user M (bytes_of ''AlexOS shell. Type `help` for the command list.'') u1;
     u3 \<leftarrow> store_bytes M (sl_line S) (replicate LINE_MAX 0) u2;
     sh_loop M S u3
   }"

section \<open>The other programs\<close>

text \<open>\<open>init_reap\<close> is the inner loop of init, \<open>slot\<close> its status variable and \<open>argv\<close> the array in \<^verbatim>\<open>exec\<close>.\<close>

partial_function (option) init_reap :: "'u user_machine \<Rightarrow> virt_addr \<Rightarrow> isize \<Rightarrow> 'u \<Rightarrow> 'u option" where
  "init_reap M slot pid u = do {
     u1 \<leftarrow> store_bytes M slot (to_le_bytes 4 0) u;
     (reaped, u2) \<leftarrow> wait_user M slot u1;
     if reaped < 0 then Some u2
     else if reaped = pid then do {
       status \<leftarrow> load_i32 M slot u2;
       println_user M (bytes_of ''init: shell exited with '' @ dec_int status @ bytes_of '', restarting'') u2
     }
     else init_reap M slot pid u2
   }"

partial_function (option) init_loop :: "'u user_machine \<Rightarrow> virt_addr \<Rightarrow> virt_addr \<Rightarrow> 'u \<Rightarrow> (int \<times> 'u) option" where
  "init_loop M slot argv u = do {
     (r, u1) \<leftarrow> fork_user M u;
     if r = 0 then do {
       (_, u2) \<leftarrow> exec_user M argv (text_slice M (bytes_of ''sh'' @ [0])) u1;
       u3 \<leftarrow> println_user M (bytes_of ''init: could not exec sh'') u2;
       Some (1, u3)
     }
     else if 0 < r then init_reap M slot r u1 \<bind> init_loop M slot argv
     else do {
       u2 \<leftarrow> println_user M (bytes_of ''init: fork failed with '' @ dec_int r) u1;
       Some (1, u2)
     }
   }"

definition init_main :: "'u user_machine \<Rightarrow> virt_addr \<Rightarrow> virt_addr \<Rightarrow> args \<Rightarrow> 'u \<Rightarrow> (int \<times> 'u) option" where
  "init_main M slot argv _ u = do {
     u1 \<leftarrow> println_user M (bytes_of ''init: starting'') u;
     init_loop M slot argv u1
   }"

text \<open>\<open>n\<close> arguments of echo remain, \<open>i\<close> have been printed.\<close>

primrec echo_loop :: "nat \<Rightarrow> 'u user_machine \<Rightarrow> nat \<Rightarrow> args \<Rightarrow> 'u \<Rightarrow> 'u option" where
  "echo_loop 0 M i a u = Some u"
| "echo_loop (Suc n) M i a u = do {
     (item, a1) \<leftarrow> args_next M a u;
     case item of
       None \<Rightarrow> Some u
     | Some arg \<Rightarrow> do {
         u1 \<leftarrow> (if 0 < i then print_user M [32] u else Some u);
         (_, u2) \<leftarrow> write_user M STDOUT arg u1;
         echo_loop n M (i + 1) a1 u2
       }
   }"

definition echo_main :: "'u user_machine \<Rightarrow> args \<Rightarrow> 'u \<Rightarrow> (int \<times> 'u) option" where
  "echo_main M a u = do {
     (_, a1) \<leftarrow> args_next M a u;
     u1 \<leftarrow> echo_loop (ar_argc a) M 0 a1 u;
     u2 \<leftarrow> println_user M [] u1;
     Some (0, u2)
   }"

end
