(* ===== verification/User_Memory.thy ===== *)
theory User_Memory
  imports Shell Uart_Correct
begin

text \<open>
  What user programs rely on, as two interfaces: memory that reads back what was stored,
  and a terminal behind the \<^verbatim>\<open>read\<close> and \<^verbatim>\<open>write\<close> calls. The results on the library and the
  programs are proved from these laws.
\<close>

section \<open>Memory\<close>

text \<open>\<open>ok\<close> is an invariant, \<open>wr\<close> the addresses the program can read and write.\<close>

locale user_memory =
  fixes M :: "'u user_machine" and ok :: "'u \<Rightarrow> bool" and wr :: "'u \<Rightarrow> virt_addr \<Rightarrow> bool"
  assumes store: "ok u \<Longrightarrow> wr u a \<Longrightarrow> \<exists>u'. um_store M a b u = Some u' \<and> ok u' \<and> wr u' = wr u \<and>
      (\<forall>x. um_load M x u' = (if x = a then Some b else um_load M x u))"
    and readable: "ok u \<Longrightarrow> wr u a \<Longrightarrow> um_load M a u \<noteq> None"

text \<open>\<open>holds M a bs u\<close>: the bytes are at the address.\<close>

definition holds :: "'u user_machine \<Rightarrow> virt_addr \<Rightarrow> u8 list \<Rightarrow> 'u \<Rightarrow> bool" where
  "holds M a bs u \<longleftrightarrow> (\<forall>i<length bs. um_load M (a + i) u = Some (bs ! i))"

definition within :: "virt_addr \<Rightarrow> nat \<Rightarrow> virt_addr \<Rightarrow> bool" where
  "within a n x \<longleftrightarrow> a \<le> x \<and> x < a + n"

lemma holds_Nil [simp]: "holds M a [] u"
  by (simp add: holds_def)

lemma holds_Cons: "holds M a (b # bs) u \<longleftrightarrow> um_load M a u = Some b \<and> holds M (a + 1) bs u"
  by (auto simp: holds_def nth_Cons split: nat.splits)

lemma holds_append: "holds M a (bs @ cs) u \<longleftrightarrow> holds M a bs u \<and> holds M (a + length bs) cs u"
  by (induction bs arbitrary: a) (simp_all add: holds_Cons add.assoc)

lemma holds_cong: "(\<And>x. within a (length bs) x \<Longrightarrow> um_load M x u' = um_load M x u) \<Longrightarrow> holds M a bs u' \<longleftrightarrow> holds M a bs u"
  by (simp add: holds_def within_def)

lemma load_bytes_holds: "load_bytes M a n u = Some bs \<longleftrightarrow> length bs = n \<and> holds M a bs u"
proof (induction n arbitrary: bs)
  case (Suc n)
  show ?case
  proof (cases bs rule: rev_cases)
    case (snoc cs c)
    then show ?thesis using Suc.IH [of cs] by (auto simp: holds_append holds_Cons bind_eq_Some_conv Suc.IH)
  qed (auto simp: bind_eq_Some_conv)
qed auto

lemma str_len_holds: "holds M (p + k) (drop k w @ [0]) u \<Longrightarrow> 0 \<notin> set w \<Longrightarrow> k \<le> length w \<Longrightarrow> str_len M p k u = Some (length w)"
proof (induction "length w - k" arbitrary: k)
  case 0
  then show ?case by (subst str_len.simps) (simp add: holds_Cons)
next
  case (Suc n)
  then have k: "k < length w" by simp
  then have d: "drop k w = w ! k # drop (Suc k) w" by (simp add: Cons_nth_drop_Suc)
  have "w ! k \<noteq> 0" using k Suc.prems(2) by (metis nth_mem)
  then show ?case using Suc.hyps(1) [of "Suc k"] Suc.hyps(2) Suc.prems k by (subst str_len.simps) (simp add: d holds_Cons)
qed

context user_memory
begin

lemma store_bytes_ok:
  "ok u \<Longrightarrow> (\<And>x. within a (length bs) x \<Longrightarrow> wr u x) \<Longrightarrow>
    \<exists>u'. store_bytes M a bs u = Some u' \<and> ok u' \<and> wr u' = wr u \<and> holds M a bs u' \<and>
      (\<forall>x. \<not> within a (length bs) x \<longrightarrow> um_load M x u' = um_load M x u)"
proof (induction bs arbitrary: a u)
  case (Cons b bs)
  have "wr u a" using Cons.prems(2) by (simp add: within_def)
  then obtain u1 where u1: "um_store M a b u = Some u1" "ok u1" "wr u1 = wr u" "\<forall>x. um_load M x u1 = (if x = a then Some b else um_load M x u)"
    using store [OF Cons.prems(1)] by blast
  have "wr u1 x" if "within (a + 1) (length bs) x" for x using that Cons.prems(2) u1(3) by (simp add: within_def)
  from Cons.IH [OF u1(2) this] obtain u2 where u2: "store_bytes M (a + 1) bs u1 = Some u2" "ok u2" "wr u2 = wr u1" "holds M (a + 1) bs u2"
    "\<forall>x. \<not> within (a + 1) (length bs) x \<longrightarrow> um_load M x u2 = um_load M x u1" by blast
  have "um_load M a u2 = Some b" using u1(4) u2(5) by (simp add: within_def)
  moreover have "um_load M x u2 = um_load M x u" if "\<not> within a (length (b # bs)) x" for x
  proof -
    have "\<not> within (a + 1) (length bs) x" "x \<noteq> a" using that by (auto simp: within_def)
    then show ?thesis using u1(4) u2(5) by simp
  qed
  ultimately show ?case using u1(1,3) u2 by (simp add: holds_Cons)
qed simp

end

end
