(* ===== verification/Terminal.thy ===== *)
theory Terminal
  imports User_Memory Process_Args
begin

text \<open>
  The terminal as programs see it: \<open>inp\<close> is what has been typed and not yet read, \<open>out\<close>
  what has gone over the line. \<^verbatim>\<open>read_line\<close> is shown to implement line editing, given by a fold
  over the typed bytes, and echo to print its arguments.
\<close>

section \<open>The interface\<close>

locale user_terminal = user_memory M ok wr for M :: "'u user_machine" and ok and wr +
  fixes inp :: "'u \<Rightarrow> u8 list" and out :: "'u \<Rightarrow> u8 list"
  assumes store_io: "ok u \<Longrightarrow> wr u a \<Longrightarrow> um_store M a b u = Some u' \<Longrightarrow> inp u' = inp u \<and> out u' = out u"
    and read_call: "ok u \<Longrightarrow> wr u a \<Longrightarrow> inp u = b # bs \<Longrightarrow>
      \<exists>u'. um_ecall M SYS_READ STDIN a 1 u = Some (1, u') \<and> ok u' \<and> wr u' = wr u \<and> inp u' = bs \<and> out u' = out u \<and>
        (\<forall>x. um_load M x u' = (if x = a then Some b else um_load M x u))"
    and write_call: "ok u \<Longrightarrow> holds M a cs u \<Longrightarrow> length cs \<le> MAX_IO \<Longrightarrow> a + length cs \<le> USER_MAX_ADDR \<Longrightarrow>
      \<exists>u'. um_ecall M SYS_WRITE STDOUT a (length cs) u = Some (int (length cs), u') \<and> ok u' \<and> wr u' = wr u \<and> inp u' = inp u \<and>
        out u' = out u @ crlf cs \<and> (\<forall>x. um_load M x u' = um_load M x u)"
    and user_range: "ok u \<Longrightarrow> um_load M a u \<noteq> None \<Longrightarrow> a < USER_MAX_ADDR"

section \<open>Line editing\<close>

definition is_newline :: "u8 \<Rightarrow> bool" where
  "is_newline c \<longleftrightarrow> c = 13 \<or> c = 10"

definition is_erase :: "u8 \<Rightarrow> bool" where
  "is_erase c \<longleftrightarrow> c = 0x7f \<or> c = 8"

text \<open>The line after a byte has been typed, and what the terminal shows for it.\<close>

definition edit :: "nat \<Rightarrow> u8 list \<Rightarrow> u8 \<Rightarrow> u8 list" where
  "edit cap line c =
     (if is_erase c then butlast line
      else if (is_ascii_graphic c \<or> c = 32) \<and> length line < cap then line @ [c] else line)"

definition echoed :: "nat \<Rightarrow> u8 list \<Rightarrow> u8 \<Rightarrow> u8 list" where
  "echoed cap line c =
     (if is_erase c then if line = [] then [] else [8, 32, 8]
      else if (is_ascii_graphic c \<or> c = 32) \<and> length line < cap then [c] else [])"

fun edit_line :: "nat \<Rightarrow> u8 list \<Rightarrow> u8 list \<Rightarrow> u8 list \<times> u8 list" where
  "edit_line cap line [] = (line, [])"
| "edit_line cap line (c # cs) = (case edit_line cap (edit cap line c) cs of (l, e) \<Rightarrow> (l, echoed cap line c @ e))"

lemma crlf_append [simp]: "crlf (xs @ ys) = crlf xs @ crlf ys"
  by (simp add: crlf_def)

lemma crlf_plain: "10 \<notin> set xs \<Longrightarrow> crlf xs = xs"
  by (induction xs) (auto simp: crlf_def)

lemma echoed_plain: "crlf (echoed cap line c) = echoed cap line c"
  by (rule crlf_plain) (auto simp: echoed_def is_ascii_graphic_def)

lemma edit_length: "length line \<le> cap \<Longrightarrow> length (edit cap line c) \<le> cap"
  by (auto simp: edit_def)

text \<open>Nothing that is not printable gets into the line.\<close>

lemma edit_printable: "\<forall>b \<in> set line. is_ascii_graphic b \<or> b = 32 \<Longrightarrow> \<forall>b \<in> set (edit cap line c). is_ascii_graphic b \<or> b = 32"
  by (auto simp: edit_def dest: in_set_butlastD)

lemma edit_line_printable:
  "\<forall>b \<in> set line. is_ascii_graphic b \<or> b = 32 \<Longrightarrow> length line \<le> cap \<Longrightarrow>
    (\<forall>b \<in> set (fst (edit_line cap line cs)). is_ascii_graphic b \<or> b = 32) \<and> length (fst (edit_line cap line cs)) \<le> cap"
proof (induction cs arbitrary: line)
  case (Cons c cs)
  show ?case using Cons.IH [OF edit_printable [OF Cons.prems(1)] edit_length [OF Cons.prems(2)]] by (simp add: case_prod_beta)
qed simp

section \<open>Arguments\<close>

text \<open>A vector of pointers to NUL-terminated strings.\<close>

definition args_at :: "'u user_machine \<Rightarrow> virt_addr \<Rightarrow> u8 list list \<Rightarrow> 'u \<Rightarrow> bool" where
  "args_at M argv args u \<longleftrightarrow> (\<forall>n<length args. \<exists>p<2 ^ 64. holds M (argv + n * 8) (to_le_bytes 8 p) u \<and> holds M p (args ! n @ [0]) u \<and> 0 \<notin> set (args ! n))"

lemma args_at_cong: "\<forall>x. um_load M x u' = um_load M x u \<Longrightarrow> args_at M argv args u' \<longleftrightarrow> args_at M argv args u"
  by (simp add: args_at_def holds_def)

lemma args_get_at:
  assumes a: "args_at M argv args u" and n: "n < length args"
  obtains p where "args_get M \<lparr>ar_argc = length args, ar_argv = argv, ar_index = i\<rparr> n u = Some (Some (p, length (args ! n)))" "holds M p (args ! n @ [0]) u"
proof -
  obtain p where p: "p < 2 ^ 64" "holds M (argv + n * 8) (to_le_bytes 8 p) u" "holds M p (args ! n @ [0]) u" "0 \<notin> set (args ! n)"
    using a n unfolding args_at_def by blast
  have "load_usize M (argv + n * 8) u = Some p"
    using p(1,2) load_bytes_holds [of M "argv + n * 8" 8 u "to_le_bytes 8 p"] from_to_le_bytes [of p 8] by (simp add: load_usize_def)
  moreover have "str_len M p 0 u = Some (length (args ! n))" using str_len_holds [of M p 0 "args ! n" u] p(3,4) by simp
  ultimately show thesis using that p(3) n by (simp add: args_get_def)
qed

text \<open>The output of echo for the arguments after the name.\<close>

fun spaced :: "u8 list list \<Rightarrow> u8 list" where
  "spaced [] = []"
| "spaced [x] = x"
| "spaced (x # y # xs) = x @ [32] @ spaced (y # xs)"

definition spaced_from :: "nat \<Rightarrow> u8 list list \<Rightarrow> u8 list" where
  "spaced_from i xs = (if 0 < i \<and> xs \<noteq> [] then 32 # spaced xs else spaced xs)"

lemma spaced_from_Cons: "spaced_from i (x # xs) = (if 0 < i then [32] else []) @ x @ spaced_from (i + 1) xs"
  by (cases xs) (simp_all add: spaced_from_def)

section \<open>Reading a line\<close>

text \<open>A literal is in memory, apart from what the loop writes.\<close>

definition text_ok :: "'u user_machine \<Rightarrow> virt_addr \<Rightarrow> virt_addr \<times> nat \<Rightarrow> 'u \<Rightarrow> u8 list \<Rightarrow> bool" where
  "text_ok M byte buf u bs \<longleftrightarrow> holds M (um_text M bs) bs u \<and>
     (\<forall>x. within (um_text M bs) (length bs) x \<longrightarrow> x \<noteq> byte \<and> \<not> within (fst buf) (snd buf) x)"

text \<open>What the loop keeps: the line so far is in the buffer, and only the buffer and the slot change.\<close>

definition line_state :: "'u user_machine \<Rightarrow> ('u \<Rightarrow> bool) \<Rightarrow> ('u \<Rightarrow> virt_addr \<Rightarrow> bool) \<Rightarrow> virt_addr \<Rightarrow> virt_addr \<times> nat \<Rightarrow> u8 list \<Rightarrow> 'u \<Rightarrow> 'u \<Rightarrow> bool" where
  "line_state M ok wr byte buf line u0 u \<longleftrightarrow> ok u \<and> wr u = wr u0 \<and> holds M (fst buf) line u \<and> length line \<le> snd buf \<and>
     (\<forall>x. x \<noteq> byte \<and> \<not> within (fst buf) (snd buf) x \<longrightarrow> um_load M x u = um_load M x u0)"

text \<open>The slot and the buffer are writable and apart, also from the literals the loop prints.\<close>

definition line_setup :: "'u user_machine \<Rightarrow> ('u \<Rightarrow> virt_addr \<Rightarrow> bool) \<Rightarrow> virt_addr \<Rightarrow> virt_addr \<times> nat \<Rightarrow> 'u \<Rightarrow> bool" where
  "line_setup M wr byte buf u \<longleftrightarrow> wr u byte \<and> (\<forall>x. within (fst buf) (snd buf) x \<longrightarrow> wr u x) \<and> \<not> within (fst buf) (snd buf) byte \<and>
     text_ok M byte buf u [10] \<and> text_ok M byte buf u [8, 32, 8]"

context user_terminal
begin

lemma holds_range: "ok u \<Longrightarrow> holds M a cs u \<Longrightarrow> cs \<noteq> [] \<Longrightarrow> a + length cs \<le> USER_MAX_ADDR"
  using user_range [of u "a + (length cs - 1)"] by (auto simp: holds_def dest!: spec [of _ "length cs - 1"])

lemma write_ok:
  assumes "ok u" "holds M a cs u" "cs \<noteq> []" "length cs \<le> MAX_IO"
  obtains u' where "write_user M STDOUT (a, length cs) u = Some (int (length cs), u')" "ok u'" "wr u' = wr u" "inp u' = inp u" "out u' = out u @ crlf cs"
    "\<forall>x. um_load M x u' = um_load M x u"
  using write_call [OF assms(1,2,4) holds_range [OF assms(1-3)]] that by (auto simp: write_user_def syscall_def)

text \<open>Reading one byte into the slot.\<close>

lemma byte_ok:
  assumes u: "ok u" "wr u byte" "inp u = c # cs"
  obtains u0 u1 where "um_store M byte 0 u = Some u0" "read_user M STDIN (byte, 1) u0 = Some (1, u1)" "ok u1" "wr u1 = wr u" "inp u1 = cs" "out u1 = out u"
    "\<forall>x. um_load M x u1 = (if x = byte then Some c else um_load M x u)"
proof -
  obtain u0 where u0: "um_store M byte 0 u = Some u0" "ok u0" "wr u0 = wr u" "\<forall>x. um_load M x u0 = (if x = byte then Some 0 else um_load M x u)"
    using store [OF u(1,2)] by blast
  have io: "inp u0 = c # cs" "out u0 = out u" using store_io [OF u(1,2) u0(1)] u(3) by simp_all
  have "wr u0 byte" using u0(3) u(2) by simp
  from read_call [OF u0(2) this io(1)] show thesis using that u0 io(2) by (auto simp: read_user_def syscall_def)
qed

lemma text_kept:
  assumes l: "line_state M ok wr byte buf line u0 u" and t: "text_ok M byte buf u0 bs"
  shows "holds M (um_text M bs) bs u"
proof -
  have "um_load M x u = um_load M x u0" if "within (um_text M bs) (length bs) x" for x
    using that l t by (simp add: text_ok_def line_state_def)
  from holds_cong [OF this] show ?thesis using t by (simp add: text_ok_def)
qed

lemma line_byte:
  assumes l: "line_state M ok wr byte buf line u0 u" and st: "line_setup M wr byte buf u0" and i: "inp u = c # cs"
  obtains v u1 where "um_store M byte 0 u = Some v" "read_user M STDIN (byte, 1) v = Some (1, u1)" "line_state M ok wr byte buf line u0 u1"
    "inp u1 = cs" "out u1 = out u" "um_load M byte u1 = Some c"
proof -
  have u: "ok u" "wr u byte" using l st by (simp_all add: line_state_def line_setup_def)
  obtain v u1 where b: "um_store M byte 0 u = Some v" "read_user M STDIN (byte, 1) v = Some (1, u1)" "ok u1" "wr u1 = wr u" "inp u1 = cs" "out u1 = out u"
    "\<forall>x. um_load M x u1 = (if x = byte then Some c else um_load M x u)" by (rule byte_ok [OF u i])
  have "um_load M x u1 = um_load M x u" if "within (fst buf) (length line) x" for x
    using that b(7) st l by (auto simp: line_setup_def line_state_def within_def)
  from holds_cong [OF this] have "holds M (fst buf) line u1" using l by (simp add: line_state_def)
  then have "line_state M ok wr byte buf line u0 u1" using l b(3,4,7) by (simp add: line_state_def)
  then show thesis using that b by simp
qed

text \<open>One typed byte that does not end the line.\<close>

lemma line_step:
  assumes l: "line_state M ok wr byte buf line u0 u" and st: "line_setup M wr byte buf u0" and i: "inp u = c # cs" and n: "\<not> is_newline c"
  obtains u' where "read_line_loop M byte buf (length line) u = read_line_loop M byte buf (length (edit (snd buf) line c)) u'"
    "line_state M ok wr byte buf (edit (snd buf) line c) u0 u'" "inp u' = cs" "out u' = out u @ echoed (snd buf) line c"
proof -
  obtain v u1 where u1: "um_store M byte 0 u = Some v" "read_user M STDIN (byte, 1) v = Some (1, u1)" "line_state M ok wr byte buf line u0 u1"
    "inp u1 = cs" "out u1 = out u" "um_load M byte u1 = Some c" by (rule line_byte [OF l st i])
  have loop: "read_line_loop M byte buf (length line) u =
      (if is_erase c then if 0 < length line then write_user M STDOUT (text_slice M [8, 32, 8]) u1 \<bind> (\<lambda>(_, u2). read_line_loop M byte buf (length line - 1) u2)
         else read_line_loop M byte buf (length line) u1
       else if (is_ascii_graphic c \<or> c = 32) \<and> length line < snd buf
         then um_store M (fst buf + length line) c u1 \<bind> (\<lambda>u2. write_user M STDOUT (byte, 1) u2 \<bind> (\<lambda>(_, u3). read_line_loop M byte buf (length line + 1) u3))
         else read_line_loop M byte buf (length line) u1)"
    using u1(1,2,6) n by (subst read_line_loop.simps) (simp add: is_erase_def is_newline_def)
  have ok1: "ok u1" "wr u1 = wr u0" using u1(3) by (simp_all add: line_state_def)
  consider (erase) "is_erase c" "line \<noteq> []" | (add) "\<not> is_erase c" "(is_ascii_graphic c \<or> c = 32) \<and> length line < snd buf"
    | (skip) "edit (snd buf) line c = line" "echoed (snd buf) line c = []" "is_erase c \<Longrightarrow> line = []"
      "\<not> is_erase c \<Longrightarrow> \<not> ((is_ascii_graphic c \<or> c = 32) \<and> length line < snd buf)"
    by (cases "is_erase c"; cases "line = []") (auto simp: edit_def echoed_def)
  then show thesis
  proof cases
    case skip
    then have "read_line_loop M byte buf (length line) u = read_line_loop M byte buf (length line) u1" unfolding loop by (cases "is_erase c") auto
    then show thesis using that [of u1] u1(3-5) skip(1,2) by simp
  next
    case erase
    have "holds M (um_text M [8, 32, 8]) [8, 32, 8] u1" using text_kept [OF u1(3)] st by (simp add: line_setup_def)
    then obtain u2 where u2: "write_user M STDOUT (um_text M [8, 32, 8], length [8, 32, 8 :: u8]) u1 = Some (int (length [8, 32, 8 :: u8]), u2)" "ok u2" "wr u2 = wr u1"
      "inp u2 = inp u1" "out u2 = out u1 @ crlf [8, 32, 8]" "\<forall>x. um_load M x u2 = um_load M x u1"
      by (rule write_ok [OF ok1(1)]) simp_all
    have b: "edit (snd buf) line c = butlast line" "echoed (snd buf) line c = [8, 32, 8]" using erase by (simp_all add: edit_def echoed_def)
    have "holds M (fst buf) (butlast line @ [last line]) u2" using u1(3) u2(6) erase(2) holds_cong [of "fst buf" line M u2 u1] by (simp add: line_state_def)
    then have "line_state M ok wr byte buf (butlast line) u0 u2" using u1(3) u2(2,3,6) by (auto simp: line_state_def holds_append)
    moreover have "read_line_loop M byte buf (length line) u = read_line_loop M byte buf (length (butlast line)) u2"
      using loop erase u2(1) by simp
    ultimately show thesis using that [of u2] b u2(4,5) u1(4,5) by (simp add: crlf_def)
  next
    case add
    have b: "edit (snd buf) line c = line @ [c]" "echoed (snd buf) line c = [c]" using add by (simp_all add: edit_def echoed_def)
    have w: "wr u1 (fst buf + length line)" "fst buf + length line \<noteq> byte" using st add(2) ok1(2) by (auto simp: line_setup_def within_def)
    obtain u2 where u2: "um_store M (fst buf + length line) c u1 = Some u2" "ok u2" "wr u2 = wr u1"
      "\<forall>x. um_load M x u2 = (if x = fst buf + length line then Some c else um_load M x u1)" using store [OF ok1(1) w(1)] by blast
    have io: "inp u2 = inp u1" "out u2 = out u1" using store_io [OF ok1(1) w(1) u2(1)] by simp_all
    have "holds M byte [c] u2" using u2(4) w(2) u1(6) by (simp add: holds_Cons)
    then obtain u3 where u3: "write_user M STDOUT (byte, length [c]) u2 = Some (int (length [c]), u3)" "ok u3" "wr u3 = wr u2"
      "inp u3 = inp u2" "out u3 = out u2 @ crlf [c]" "\<forall>x. um_load M x u3 = um_load M x u2" by (rule write_ok [OF u2(2)]) simp_all
    have "holds M (fst buf) (line @ [c]) u3"
      using u1(3) u2(4) u3(6) holds_cong [of "fst buf" line M u3 u1] by (simp add: line_state_def holds_append holds_Cons within_def)
    then have "line_state M ok wr byte buf (line @ [c]) u0 u3" using u1(3) u2(3,4) u3(2,3,6) add(2) by (auto simp: line_state_def within_def)
    moreover have "read_line_loop M byte buf (length line) u = read_line_loop M byte buf (length (line @ [c])) u3"
      using loop add u2(1) u3(1) by simp
    ultimately show thesis using that [of u3] b u3(4,5) io u1(4,5) echoed_plain [of "snd buf" line c] by simp
  qed
qed

lemma line_loop:
  assumes st: "line_setup M wr byte buf u0" and nl: "is_newline nl"
  shows "line_state M ok wr byte buf line u0 u \<Longrightarrow> inp u = cs @ nl # rest \<Longrightarrow> \<forall>c \<in> set cs. \<not> is_newline c \<Longrightarrow>
    \<exists>u'. read_line_loop M byte buf (length line) u = Some (length (fst (edit_line (snd buf) line cs)), u') \<and>
      line_state M ok wr byte buf (fst (edit_line (snd buf) line cs)) u0 u' \<and> inp u' = rest \<and>
      out u' = out u @ snd (edit_line (snd buf) line cs) @ [13, 10]"
proof (induction cs arbitrary: line u)
  case Nil
  have i: "inp u = nl # rest" using Nil.prems(2) by simp
  obtain v u1 where u1: "um_store M byte 0 u = Some v" "read_user M STDIN (byte, 1) v = Some (1, u1)" "line_state M ok wr byte buf line u0 u1"
    "inp u1 = rest" "out u1 = out u" "um_load M byte u1 = Some nl" by (rule line_byte [OF Nil.prems(1) st i])
  have "ok u1" "holds M (um_text M [10]) [10] u1" using u1(3) text_kept [OF u1(3)] st by (simp_all add: line_state_def line_setup_def)
  then obtain u2 where u2: "write_user M STDOUT (um_text M [10], length [10 :: u8]) u1 = Some (int (length [10 :: u8]), u2)" "ok u2" "wr u2 = wr u1"
    "inp u2 = inp u1" "out u2 = out u1 @ crlf [10]" "\<forall>x. um_load M x u2 = um_load M x u1" by (rule write_ok) simp_all
  have "line_state M ok wr byte buf line u0 u2"
    using u1(3) u2(2,3,6) holds_cong [of "fst buf" line M u2 u1] by (simp add: line_state_def)
  moreover have "read_line_loop M byte buf (length line) u = Some (length line, u2)"
    using u1(1,2,6) u2(1) nl by (subst read_line_loop.simps) (simp add: is_newline_def)
  ultimately show ?case using u1(4,5) u2(4,5) by (simp add: crlf_def)
next
  case (Cons c cs)
  then have "inp u = c # (cs @ nl # rest)" "\<not> is_newline c" by simp_all
  then obtain u1 where u1: "read_line_loop M byte buf (length line) u = read_line_loop M byte buf (length (edit (snd buf) line c)) u1"
    "line_state M ok wr byte buf (edit (snd buf) line c) u0 u1" "inp u1 = cs @ nl # rest" "out u1 = out u @ echoed (snd buf) line c"
    by (rule line_step [OF Cons.prems(1) st])
  then show ?case using Cons.IH [OF u1(2,3)] Cons.prems(3) by (simp add: case_prod_beta)
qed

lemma read_line_ok:
  assumes "ok u" "line_setup M wr byte buf u" "is_newline nl" "inp u = cs @ nl # rest" "\<forall>c \<in> set cs. \<not> is_newline c"
  shows "\<exists>u'. read_line M byte buf u = Some (length (fst (edit_line (snd buf) [] cs)), u') \<and>
    line_state M ok wr byte buf (fst (edit_line (snd buf) [] cs)) u u' \<and> inp u' = rest \<and>
    out u' = out u @ snd (edit_line (snd buf) [] cs) @ [13, 10]"
proof -
  have "line_state M ok wr byte buf [] u u" using assms(1) by (simp add: line_state_def)
  from line_loop [OF assms(2,3) this assms(4,5)] show ?thesis by (simp add: read_line_def)
qed

text \<open>A write leaves the memory, so that what echo reads stays in place.\<close>

lemma arg_written:
  assumes u: "ok u" "holds M p (arg @ [0]) u" "length arg \<le> MAX_IO"
  obtains u' where "write_user M STDOUT (p, length arg) u = Some (int (length arg), u')" "ok u'" "inp u' = inp u" "out u' = out u @ crlf arg"
    "\<forall>x. um_load M x u' = um_load M x u"
proof -
  have "p + length arg \<le> USER_MAX_ADDR" using holds_range [OF u(1,2)] by simp
  with write_call [OF u(1) _ u(3), of p] u(2) that show thesis by (auto simp: write_user_def syscall_def holds_append)
qed

lemma text_written:
  assumes u: "ok u" "holds M (um_text M bs) bs u" "bs \<noteq> []" "length bs \<le> MAX_IO"
  obtains u' where "print_user M bs u = Some u'" "ok u'" "inp u' = inp u" "out u' = out u @ crlf bs" "\<forall>x. um_load M x u' = um_load M x u"
  by (rule write_ok [OF u]) (use that in \<open>simp add: print_user_def\<close>)

lemma echo_loop_ok:
  assumes len: "\<forall>x \<in> set args. length x \<le> MAX_IO"
  shows "ok u \<Longrightarrow> args_at M argv args u \<Longrightarrow> holds M (um_text M [32]) [32] u \<Longrightarrow> length args \<le> k + n \<Longrightarrow>
    \<exists>u'. echo_loop n M i \<lparr>ar_argc = length args, ar_argv = argv, ar_index = k\<rparr> u = Some u' \<and> ok u' \<and> inp u' = inp u \<and>
      out u' = out u @ crlf (spaced_from i (drop k args)) \<and> (\<forall>x. um_load M x u' = um_load M x u)"
proof (induction n arbitrary: i k u)
  case 0
  then show ?case by (simp add: spaced_from_def crlf_def)
next
  case (Suc n)
  show ?case
  proof (cases "k < length args")
    case False
    then show ?thesis using Suc.prems(1) by (simp add: args_next_def args_get_def spaced_from_def crlf_def)
  next
    case True
    obtain p where p: "args_get M \<lparr>ar_argc = length args, ar_argv = argv, ar_index = k\<rparr> k u = Some (Some (p, length (args ! k)))" "holds M p (args ! k @ [0]) u"
      by (rule args_get_at [OF Suc.prems(2) True])
    obtain u1 where u1: "(if 0 < i then print_user M [32] u else Some u) = Some u1" "ok u1" "inp u1 = inp u"
      "out u1 = out u @ crlf (if 0 < i then [32] else [])" "\<forall>x. um_load M x u1 = um_load M x u"
    proof (cases "0 < i")
      case True
      obtain v where "print_user M [32] u = Some v" "ok v" "inp v = inp u" "out v = out u @ crlf [32]" "\<forall>x. um_load M x v = um_load M x u"
        by (rule text_written [OF Suc.prems(1,3)]) simp_all
      then show thesis using that [of v] True by simp
    qed (use that Suc.prems(1) in \<open>simp add: crlf_def\<close>)
    have "holds M p (args ! k @ [0]) u1" using p(2) u1(5) holds_cong [of p _ M u1 u] by blast
    moreover have "length (args ! k) \<le> MAX_IO" using len True by simp
    ultimately obtain u2 where u2: "write_user M STDOUT (p, length (args ! k)) u1 = Some (int (length (args ! k)), u2)" "ok u2" "inp u2 = inp u1"
      "out u2 = out u1 @ crlf (args ! k)" "\<forall>x. um_load M x u2 = um_load M x u1" by (rule arg_written [OF u1(2)])
    have "args_at M argv args u2" "holds M (um_text M [32]) [32] u2" "length args \<le> k + 1 + n"
      using Suc.prems(2-4) u1(5) u2(5) args_at_cong [of M u2 u] by (simp_all add: holds_def)
    from Suc.IH [OF u2(2) this, of "i + 1"] obtain u' where
      "echo_loop n M (i + 1) \<lparr>ar_argc = length args, ar_argv = argv, ar_index = k + 1\<rparr> u2 = Some u'" "ok u'" "inp u' = inp u2"
      "out u' = out u2 @ crlf (spaced_from (i + 1) (drop (k + 1) args))" "\<forall>x. um_load M x u' = um_load M x u2" by blast
    moreover have "spaced_from i (drop k args) = (if 0 < i then [32] else []) @ args ! k @ spaced_from (i + 1) (drop (k + 1) args)"
      using spaced_from_Cons [of i "args ! k"] True by (metis Cons_nth_drop_Suc Suc_eq_plus1)
    ultimately show ?thesis using p(1) u1 u2 by (simp add: args_next_def)
  qed
qed

lemma echo_ok:
  assumes u: "ok u" "args_at M argv args u" "holds M (um_text M [32]) [32] u" "holds M (um_text M [10]) [10] u" and len: "\<forall>x \<in> set args. length x \<le> MAX_IO"
  shows "\<exists>u'. echo_main M (args_new (length args) argv) u = Some (0, u') \<and> ok u' \<and> inp u' = inp u \<and> out u' = out u @ crlf (spaced (tl args)) @ [13, 10]"
proof -
  have nx: "\<exists>item. args_next M (args_new (length args) argv) u = Some (item, \<lparr>ar_argc = length args, ar_argv = argv, ar_index = (if args = [] then 0 else 1)\<rparr>)"
  proof (cases "args = []")
    case False
    then have "0 < length args" by simp
    then obtain p where "args_get M \<lparr>ar_argc = length args, ar_argv = argv, ar_index = 0\<rparr> 0 u = Some (Some (p, length (args ! 0)))"
      by (rule args_get_at [OF u(2)])
    then show ?thesis using False by (simp add: args_next_def args_new_def)
  qed (simp add: args_next_def args_new_def args_get_def)
  have d: "spaced_from 0 (drop (if args = [] then 0 else 1) args) = spaced (tl args)" by (simp add: spaced_from_def drop_Suc)
  obtain u1 where u1: "echo_loop (length args) M 0 \<lparr>ar_argc = length args, ar_argv = argv, ar_index = (if args = [] then 0 else 1)\<rparr> u = Some u1" "ok u1" "inp u1 = inp u"
    "out u1 = out u @ crlf (spaced (tl args))" "\<forall>x. um_load M x u1 = um_load M x u"
    using echo_loop_ok [OF len u(1-3), of "if args = [] then 0 else 1" "length args" 0] unfolding d by auto
  have "holds M (um_text M [10]) [10] u1" using u(4) u1(5) by (simp add: holds_def)
  then obtain u2 where "print_user M [10] u1 = Some u2" "ok u2" "inp u2 = inp u1" "out u2 = out u1 @ crlf [10]"
    by (rule text_written [OF u1(2)]) simp_all
  then show ?thesis using nx u1 by (auto simp: echo_main_def println_user_def args_new_def crlf_def)
qed

end

end
