(* ===== verification/Split_Correct.thy ===== *)
theory Split_Correct
  imports User_Memory Process_Args
begin

text \<open>
  The argument splitter of the shell against a reference definition. \<open>line_fields\<close> lists the words of a
  line with their offsets; \<^verbatim>\<open>split\<close> overwrites the separators in place and leaves pointers
  to exactly these words, each followed by a NUL.
\<close>

section \<open>Reference\<close>

function line_fields :: "nat \<Rightarrow> u8 list \<Rightarrow> (nat \<times> u8 list) list" where
  "line_fields i [] = []"
| "line_fields i (c # cs) =
     (if c = 32 then line_fields (i + 1) cs
      else (i, takeWhile (\<lambda>x. x \<noteq> 32) (c # cs)) # line_fields (i + length (takeWhile (\<lambda>x. x \<noteq> 32) (c # cs))) (dropWhile (\<lambda>x. x \<noteq> 32) (c # cs)))"
  by pat_completeness auto
termination
  by (relation "measure (\<lambda>(i, cs). length cs)") (auto simp: le_imp_less_Suc length_dropWhile_le)

definition line_words :: "u8 list \<Rightarrow> u8 list list" where
  "line_words str = map snd (line_fields 0 str)"

definition zeroed :: "u8 list \<Rightarrow> u8 list" where
  "zeroed str = map (\<lambda>c. if c = 32 then 0 else c) str"

lemma zeroed_simps [simp]: "zeroed [] = []" "zeroed (c # cs) = (if c = 32 then 0 else c) # zeroed cs" "zeroed (xs @ ys) = zeroed xs @ zeroed ys"
  "length (zeroed xs) = length xs"
  by (simp_all add: zeroed_def)

lemma zeroed_word: "32 \<notin> set w \<Longrightarrow> zeroed w = w"
  by (induction w) auto

lemma zeroed_spaces: "\<forall>c \<in> set sp. c = 32 \<Longrightarrow> zeroed sp = replicate (length sp) 0"
  by (induction sp) auto

lemma takeWhile_word: "32 \<notin> set (takeWhile (\<lambda>x. x \<noteq> (32::u8)) cs)"
  by (auto dest: set_takeWhileD)

lemma fields_spaces: "\<forall>c \<in> set sp. c = 32 \<Longrightarrow> line_fields i (sp @ r) = line_fields (i + length sp) r"
  by (induction sp arbitrary: i) auto

lemma fields_word:
  assumes "w \<noteq> []" "32 \<notin> set w" "r = [] \<or> hd r = 32"
  shows "line_fields i (w @ r) = (i, w) # line_fields (i + length w) r"
proof -
  have t: "takeWhile (\<lambda>x. x \<noteq> 32) (w @ r) = w" "dropWhile (\<lambda>x. x \<noteq> 32) (w @ r) = r"
    using assms by (cases r; simp add: takeWhile_append dropWhile_append; fastforce)+
  obtain c cs where c: "w = c # cs" "c \<noteq> 32" using assms(1,2) by (cases w) auto
  then have "line_fields i (w @ r) = (i, takeWhile (\<lambda>x. x \<noteq> 32) (w @ r)) # line_fields (i + length (takeWhile (\<lambda>x. x \<noteq> 32) (w @ r))) (dropWhile (\<lambda>x. x \<noteq> 32) (w @ r))"
    by simp
  then show ?thesis unfolding t .
qed

text \<open>A line is spaces, then a word, then the rest.\<close>

lemma line_cases:
  obtains (blank) "\<forall>c \<in> set str. c = (32::u8)"
  | (word) sp w r where "str = sp @ w @ r" "\<forall>c \<in> set sp. c = 32" "w \<noteq> []" "32 \<notin> set w" "r = [] \<or> hd r = 32"
proof (cases "\<forall>c \<in> set str. c = 32")
  case False
  let ?t = "dropWhile (\<lambda>x. x = 32) str"
  have ne: "?t \<noteq> []" "hd ?t \<noteq> 32" using False hd_dropWhile [of "\<lambda>x. x = 32" str] by auto
  show thesis
  proof (rule word [of "takeWhile (\<lambda>x. x = 32) str" "takeWhile (\<lambda>x. x \<noteq> 32) ?t" "dropWhile (\<lambda>x. x \<noteq> 32) ?t"])
    show "takeWhile (\<lambda>x. x \<noteq> 32) ?t \<noteq> []" using ne by (cases ?t) auto
    show "dropWhile (\<lambda>x. x \<noteq> 32) ?t = [] \<or> hd (dropWhile (\<lambda>x. x \<noteq> 32) ?t) = 32" using hd_dropWhile [of "\<lambda>x. x \<noteq> 32" ?t] by blast
  qed (auto dest: set_takeWhileD)
qed

lemma fields_shift: "line_fields (k + i) cs = map (\<lambda>(q, w). (k + q, w)) (line_fields i cs)"
proof (induction i cs rule: line_fields.induct)
  case (2 i c cs)
  then show ?case by (cases "c = 32") (simp_all add: add.assoc del: takeWhile.simps dropWhile.simps)
qed simp

text \<open>Every word stands in the overwritten line with a NUL behind it.\<close>

lemma field_at: "(p, w) \<in> set (line_fields 0 str) \<Longrightarrow> \<exists>pre post. zeroed str @ [0] = pre @ w @ 0 # post \<and> length pre = p"
proof (induction "length str" arbitrary: p str rule: less_induct)
  case less
  show ?case
  proof (cases str)
    case Nil
    then show ?thesis using less.prems by simp
  next
    case (Cons c cs)
    show ?thesis
    proof (cases "c = 32")
      case True
      then obtain q where q: "p = 1 + q" "(q, w) \<in> set (line_fields 0 cs)" using less.prems Cons fields_shift [of 1 0 cs] by auto
      then obtain pre post where "zeroed cs @ [0] = pre @ w @ 0 # post" "length pre = q" using less.hyps Cons by fastforce
      then show ?thesis using q(1) Cons True by (intro exI [of _ "0 # pre"] exI [of _ post]) simp
    next
      case False
      let ?w = "takeWhile (\<lambda>x. x \<noteq> 32) str" and ?r = "dropWhile (\<lambda>x. x \<noteq> 32) str"
      have f: "line_fields 0 str = (0, ?w) # map (\<lambda>(q, v). (length ?w + q, v)) (line_fields 0 ?r)"
        using fields_shift [of "length ?w" 0 ?r] Cons False by simp
      have z: "zeroed str = ?w @ zeroed ?r" using zeroed_word [OF takeWhile_word] by (metis takeWhile_dropWhile_id zeroed_simps(3))
      consider "p = 0" "w = ?w" | q where "p = length ?w + q" "(q, w) \<in> set (line_fields 0 ?r)" using less.prems f by auto
      then show ?thesis
      proof cases
        case 1
        have "\<exists>post. zeroed ?r @ [0] = 0 # post" using hd_dropWhile [of "\<lambda>x. x \<noteq> 32" str] by (cases ?r) (simp_all del: dropWhile_eq_Nil_conv)
        then show ?thesis using 1 z by (auto intro: exI [of _ "[]"])
      next
        case 2
        have "length ?r < length str" using Cons False by (simp add: le_imp_less_Suc length_dropWhile_le)
        with 2 obtain pre post where "zeroed ?r @ [0] = pre @ w @ 0 # post" "length pre = q" using less.hyps by blast
        then show ?thesis using 2(1) z by (intro exI [of _ "?w @ pre"] exI [of _ post]) simp
      qed
    qed
  qed
qed

section \<open>The splitter\<close>

context user_memory
begin

lemma skip_spaces_ok:
  assumes "ok u" "holds M (p + i) (sp @ r) u" "i + length (sp @ r) = len" "\<forall>c \<in> set sp. c = 32" "r = [] \<or> hd r \<noteq> 32"
    "\<And>x. within (p + i) (length sp) x \<Longrightarrow> wr u x"
  shows "\<exists>u'. skip_spaces M (p, len) i u = Some (i + length sp, u') \<and> ok u' \<and> wr u' = wr u \<and> holds M (p + i) (replicate (length sp) 0 @ r) u' \<and>
    (\<forall>x. \<not> within (p + i) (length sp) x \<longrightarrow> um_load M x u' = um_load M x u)"
  using assms
proof (induction sp arbitrary: i u)
  case Nil
  then show ?case by (subst skip_spaces.simps) (cases r; auto simp: holds_Cons)
next
  case (Cons c sp)
  have c: "um_load M (p + i) u = Some 32" "holds M (p + (i + 1)) (sp @ r) u" "i < len" "c = 32" using Cons.prems(2-4) by (simp_all add: holds_Cons add.assoc)
  have "wr u (p + i)" using Cons.prems(6) by (simp add: within_def)
  then obtain u1 where u1: "um_store M (p + i) 0 u = Some u1" "ok u1" "wr u1 = wr u" "\<forall>x. um_load M x u1 = (if x = p + i then Some 0 else um_load M x u)"
    using store [OF Cons.prems(1)] by blast
  have "holds M (p + (i + 1)) (sp @ r) u1" using c(2) holds_cong [of "p + (i + 1)" "sp @ r" M u1 u] u1(4) by (simp add: within_def)
  moreover have "wr u1 x" if "within (p + (i + 1)) (length sp) x" for x using that Cons.prems(6) u1(3) by (simp add: within_def)
  ultimately obtain u2 where u2: "skip_spaces M (p, len) (i + 1) u1 = Some (i + 1 + length sp, u2)" "ok u2" "wr u2 = wr u1"
    "holds M (p + (i + 1)) (replicate (length sp) 0 @ r) u2" "\<forall>x. \<not> within (p + (i + 1)) (length sp) x \<longrightarrow> um_load M x u2 = um_load M x u1"
    using Cons.IH [of u1 "i + 1"] u1(2) Cons.prems(3-5) by auto
  have "um_load M (p + i) u2 = Some 0" using u1(4) u2(5) by (simp add: within_def)
  moreover have "um_load M x u2 = um_load M x u" if "\<not> within (p + i) (length (c # sp)) x" for x
    using that u1(4) u2(5) by (auto simp: within_def)
  ultimately show ?case using c u1 u2 by (subst skip_spaces.simps) (simp add: holds_Cons)
qed

lemma skip_word_ok:
  "holds M (p + i) (w @ r) u \<Longrightarrow> i + length (w @ r) = len \<Longrightarrow> 32 \<notin> set w \<Longrightarrow> r = [] \<or> hd r = 32 \<Longrightarrow> skip_word M (p, len) i u = Some (i + length w)"
proof (induction w arbitrary: i)
  case Nil
  then show ?case by (subst skip_word.simps) (cases r; auto simp: holds_Cons)
next
  case (Cons c w)
  then show ?case using Cons.IH [of "i + 1"] by (subst skip_word.simps) (simp add: holds_Cons)
qed

lemma store_usize_ok:
  assumes "ok u" "\<And>x. within a 8 x \<Longrightarrow> wr u x"
  obtains u' where "store_usize M a n u = Some u'" "ok u'" "wr u' = wr u" "holds M a (to_le_bytes 8 n) u'"
    "\<forall>x. \<not> within a 8 x \<longrightarrow> um_load M x u' = um_load M x u"
  using store_bytes_ok [OF assms(1), of a "to_le_bytes 8 n"] assms(2) by (auto simp: store_usize_def)

text \<open>One round of the loop, on spaces, a word and the rest.\<close>

lemma split_spaces:
  assumes u: "ok u" "holds M (p + i) (sp @ w @ r) u" "i + length (sp @ w @ r) = len" "\<forall>c \<in> set sp. c = 32" "w \<noteq> []" "32 \<notin> set w"
    and wr: "\<And>x. within p len x \<Longrightarrow> wr u x"
  obtains u1 where "skip_spaces M (p, len) i u = Some (i + length sp, u1)" "ok u1" "wr u1 = wr u" "holds M (p + i) (replicate (length sp) 0 @ w @ r) u1"
    "\<forall>x. \<not> within (p + i) (length sp) x \<longrightarrow> um_load M x u1 = um_load M x u" "i < len" "\<not> len \<le> i + length sp"
proof -
  have il: "i < len" "\<not> len \<le> i + length sp" using u(3,5) by (cases w; simp)+
  have "wr u x" if "within (p + i) (length sp) x" for x using that u(3) wr(1) by (simp add: within_def)
  with skip_spaces_ok [of u p i sp "w @ r" len] u il that show thesis by (cases w) auto
qed

lemma split_step:
  assumes u: "ok u" "holds M (p + i) (sp @ w @ r) u" "i + length (sp @ w @ r) = len" "\<forall>c \<in> set sp. c = 32" "w \<noteq> []" "32 \<notin> set w"
    and r: "r = [] \<or> hd r = 32" and a: "argc < ARGS_MAX"
    and wr: "\<And>x. within p len x \<Longrightarrow> wr u x" "\<And>x. within argv 136 x \<Longrightarrow> wr u x" and apart: "\<And>x. within p len x \<Longrightarrow> \<not> within argv 136 x"
  obtains u2 where "ok u2" "wr u2 = wr u" "split_loop M (p, len) argv argc i u = split_loop M (p, len) argv (argc + 1) (i + length sp + length w) u2"
    "holds M (p + i) (replicate (length sp) 0 @ w @ r) u2" "holds M (argv + argc * 8) (to_le_bytes 8 (p + (i + length sp))) u2"
    "\<forall>x. \<not> within (p + i) (length sp) x \<and> \<not> within (argv + argc * 8) 8 x \<longrightarrow> um_load M x u2 = um_load M x u"
proof -
  obtain u1 where u1: "skip_spaces M (p, len) i u = Some (i + length sp, u1)" "ok u1" "wr u1 = wr u" "holds M (p + i) (replicate (length sp) 0 @ w @ r) u1"
    "\<forall>x. \<not> within (p + i) (length sp) x \<longrightarrow> um_load M x u1 = um_load M x u" "i < len" "\<not> len \<le> i + length sp"
    by (rule split_spaces [OF u wr(1)])
  have slot: "within argv 136 x" if "within (argv + argc * 8) 8 x" for x using that a by (simp add: within_def)
  then have "wr u1 x" if "within (argv + argc * 8) 8 x" for x using that wr(2) u1(3) by simp
  then obtain u2 where u2: "store_usize M (argv + argc * 8) (p + (i + length sp)) u1 = Some u2" "ok u2" "wr u2 = wr u1"
    "holds M (argv + argc * 8) (to_le_bytes 8 (p + (i + length sp))) u2" "\<forall>x. \<not> within (argv + argc * 8) 8 x \<longrightarrow> um_load M x u2 = um_load M x u1"
    by (rule store_usize_ok [OF u1(2)])
  have eq: "um_load M x u2 = um_load M x u1" if "within (p + i) (length (replicate (length sp) 0 @ w @ r)) x" for x
    using u2(5) apart [of x] slot that u(3) by (force simp: within_def)
  have h: "holds M (p + i) (replicate (length sp) 0 @ w @ r) u2" by (rule iffD2 [OF holds_cong u1(4)]) (rule eq)
  then have "holds M (p + (i + length sp)) (w @ r) u2" by (simp add: holds_append add.assoc)
  then have "skip_word M (p, len) (i + length sp) u2 = Some (i + length sp + length w)" using skip_word_ok u r by simp
  then have "split_loop M (p, len) argv argc i u = split_loop M (p, len) argv (argc + 1) (i + length sp + length w) u2"
    using u1(1,6,7) u2(1) a by (subst split_loop.simps) simp
  then show thesis using that [of u2] h u2 u1(3,5) by simp
qed

lemma split_loop_ok:
  assumes "ok u" "holds M (p + i) rest u" "i + length rest = len" "argc \<le> ARGS_MAX"
    and wr: "\<And>x. within p len x \<Longrightarrow> wr u x" "\<And>x. within argv 136 x \<Longrightarrow> wr u x"
    and apart: "\<And>x. within p len x \<Longrightarrow> \<not> within argv 136 x"
  shows "\<exists>r u'. split_loop M (p, len) argv argc i u = Some (r, u') \<and> ok u' \<and> wr u' = wr u \<and>
    (\<forall>x. \<not> within (p + i) (length rest) x \<and> \<not> within (argv + argc * 8) (136 - argc * 8) x \<longrightarrow> um_load M x u' = um_load M x u) \<and>
    (if argc + length (line_fields i rest) \<le> ARGS_MAX then r = Some (argc + length (line_fields i rest)) \<and> holds M (p + i) (zeroed rest) u' \<and>
       (\<forall>j<length (line_fields i rest). holds M (argv + (argc + j) * 8) (to_le_bytes 8 (p + fst (line_fields i rest ! j))) u')
     else r = None)"
  using assms
proof (induction "length rest" arbitrary: rest argc i u rule: less_induct)
  case less
  show ?case
  proof (cases "rest = []")
    case True
    then show ?thesis using less.prems(1,3,4) by (subst split_loop.simps) simp
  next
    case False
    then have il: "i < len" using less.prems(3) by (cases rest) auto
    show ?thesis
    proof (cases rest rule: line_cases)
      case blank
      have "wr u x" if "within (p + i) (length rest) x" for x using that less.prems(3,5) by (simp add: within_def)
      with skip_spaces_ok [of u p i rest "[]" len] less.prems(1-3) blank obtain u1 where
        u1: "skip_spaces M (p, len) i u = Some (len, u1)" "ok u1" "wr u1 = wr u" "holds M (p + i) (replicate (length rest) 0) u1"
        "\<forall>x. \<not> within (p + i) (length rest) x \<longrightarrow> um_load M x u1 = um_load M x u" by auto
      have "line_fields i rest = []" using fields_spaces [OF blank, of i "[]"] by simp
      then show ?thesis using u1 il less.prems(4) zeroed_spaces [OF blank] by (subst split_loop.simps) simp
    next
      case (word sp w r)
      let ?i2 = "i + length sp + length w"
      have f: "line_fields i rest = (i + length sp, w) # line_fields ?i2 r" "zeroed rest = replicate (length sp) 0 @ w @ zeroed r"
        unfolding word(1) using fields_spaces [OF word(2)] fields_word [OF word(3-5)] zeroed_spaces [OF word(2)] zeroed_word [OF word(4)] by simp_all
      note h = less.prems(2,3) [unfolded word(1)]
      show ?thesis
      proof (cases "argc = ARGS_MAX")
        case True
        obtain u1 where "skip_spaces M (p, len) i u = Some (i + length sp, u1)" "ok u1" "wr u1 = wr u"
          "\<forall>x. \<not> within (p + i) (length sp) x \<longrightarrow> um_load M x u1 = um_load M x u" "\<not> len \<le> i + length sp"
          by (rule split_spaces [OF less.prems(1) h word(2-4) less.prems(5)]) blast
        moreover have "within (p + i) (length rest) x" if "within (p + i) (length sp) x" for x using that word(1) by (simp add: within_def)
        ultimately show ?thesis using il f(1) True by (subst split_loop.simps) auto
      next
        case False
        then have a: "argc < ARGS_MAX" using less.prems(4) by simp
        obtain u2 where u2: "ok u2" "wr u2 = wr u" "split_loop M (p, len) argv argc i u = split_loop M (p, len) argv (argc + 1) ?i2 u2"
          "holds M (p + i) (replicate (length sp) 0 @ w @ r) u2" "holds M (argv + argc * 8) (to_le_bytes 8 (p + (i + length sp))) u2"
          "\<forall>x. \<not> within (p + i) (length sp) x \<and> \<not> within (argv + argc * 8) 8 x \<longrightarrow> um_load M x u2 = um_load M x u"
          by (rule split_step [OF less.prems(1) h word(2-5) a less.prems(5-7)])
        have n: "length r < length rest" "holds M (p + ?i2) r u2" "?i2 + length r = len" "argc + 1 \<le> ARGS_MAX"
          using u2(4) word(1,3) h(2) a by (simp_all add: holds_append add.assoc)
        have wr2: "within p len x \<Longrightarrow> wr u2 x" "within argv 136 x \<Longrightarrow> wr u2 x" for x using less.prems(5,6) u2(2) by simp_all
        from less.hyps [OF n(1) u2(1) n(2-4) wr2 less.prems(7)] obtain q u' where
          q: "split_loop M (p, len) argv (argc + 1) ?i2 u2 = Some (q, u')" "ok u'" "wr u' = wr u2"
          "\<forall>x. \<not> within (p + ?i2) (length r) x \<and> \<not> within (argv + (argc + 1) * 8) (136 - (argc + 1) * 8) x \<longrightarrow> um_load M x u' = um_load M x u2"
          "if argc + 1 + length (line_fields ?i2 r) \<le> ARGS_MAX then q = Some (argc + 1 + length (line_fields ?i2 r)) \<and> holds M (p + ?i2) (zeroed r) u' \<and>
             (\<forall>j<length (line_fields ?i2 r). holds M (argv + (argc + 1 + j) * 8) (to_le_bytes 8 (p + fst (line_fields ?i2 r ! j))) u') else q = None"
          by blast
        have k1: "um_load M x u' = um_load M x u2" if "within (p + i) (length sp + length w) x \<or> within argv (argc * 8 + 8) x" for x
        proof -
          have "within p len x" if "within (p + ?i2) (length r) x \<or> within (p + i) (length sp + length w) x" using that h(2) by (auto simp: within_def)
          moreover have "within argv 136 x" if "within (argv + (argc + 1) * 8) (136 - (argc + 1) * 8) x \<or> within argv (argc * 8 + 8) x"
            using that a by (auto simp: within_def)
          moreover have "\<not> (within (p + ?i2) (length r) x \<and> within (p + i) (length sp + length w) x)"
            "\<not> (within (argv + (argc + 1) * 8) (136 - (argc + 1) * 8) x \<and> within argv (argc * 8 + 8) x)" by (auto simp: within_def)
          ultimately show ?thesis using q(4) that less.prems(7) [of x] by blast
        qed
        have k2: "um_load M x u' = um_load M x u" if "\<not> within (p + i) (length rest) x \<and> \<not> within (argv + argc * 8) (136 - argc * 8) x" for x
          using q(4) u2(6) that word(1) a by (auto simp: within_def)
        have z0: "holds M (p + i) (replicate (length sp) 0 @ w) u2" using u2(4) by (simp add: holds_append add.assoc)
        have z: "holds M (p + i) (replicate (length sp) 0 @ w) u'"
          by (rule iffD2 [OF holds_cong z0]) (use k1 in \<open>simp add: within_def\<close>)
        have s0: "holds M (argv + argc * 8) (to_le_bytes 8 (p + (i + length sp))) u'"
          by (rule iffD2 [OF holds_cong u2(5)]) (use k1 in \<open>simp add: within_def\<close>)
        show ?thesis unfolding u2(3) q(1) f using q(2,3,5) u2(2) k2 z s0
          by (intro exI [of _ q] exI [of _ u']) (auto simp: holds_append add.assoc add.left_commute nth_Cons split: nat.splits if_splits)
      qed
    qed
  qed
qed

lemma split_ok:
  assumes u: "ok u" "holds M p str u" "length str < LINE_MAX"
    and wr: "\<And>x. within p (length str + 1) x \<Longrightarrow> wr u x" "\<And>x. within argv 136 x \<Longrightarrow> wr u x"
    and apart: "\<And>x. within p (length str + 1) x \<Longrightarrow> \<not> within argv 136 x"
  shows "\<exists>r u'. split M (p, length str) argv u = Some (r, u') \<and> ok u' \<and> wr u' = wr u \<and>
    r = (if length (line_words str) \<le> ARGS_MAX then Some (length (line_words str)) else None) \<and>
    (\<forall>x. \<not> within p (length str + 1) x \<and> \<not> within argv 136 x \<longrightarrow> um_load M x u' = um_load M x u) \<and>
    (r \<noteq> None \<longrightarrow> (\<exists>ptrs. length ptrs = length (line_words str) \<and> holds M (argv + length ptrs * 8) (to_le_bytes 8 0) u' \<and>
       (\<forall>j<length ptrs. holds M (argv + j * 8) (to_le_bytes 8 (ptrs ! j)) u' \<and> within p (length str + 1) (ptrs ! j) \<and>
          holds M (ptrs ! j) (line_words str ! j @ [0]) u')))"
proof -
  let ?fs = "line_fields 0 str" and ?n = "length (line_words str)"
  have n: "?n = length ?fs" by (simp add: line_words_def)
  have p: "within p (length str) x \<Longrightarrow> within p (length str + 1) x" for x by (simp add: within_def)
  have w: "within p (length str) x \<Longrightarrow> wr u x" "within p (length str) x \<Longrightarrow> \<not> within argv 136 x" for x using wr(1) apart p by blast+
  have "holds M (p + 0) str u" "0 + length str = length str" using u(2) by simp_all
  from split_loop_ok [OF u(1) this _ w(1) wr(2) w(2), of 0, simplified, unfolded add_0 add_0_right] obtain r u1 where
    u1: "split_loop M (p, length str) argv 0 0 u = Some (r, u1)" "ok u1" "wr u1 = wr u"
      "\<forall>x. \<not> within p (length str) x \<and> \<not> within argv 136 x \<longrightarrow> um_load M x u1 = um_load M x u"
    and r: "if ?n \<le> ARGS_MAX then r = Some ?n \<and> holds M p (zeroed str) u1 \<and> (\<forall>j<?n. holds M (argv + j * 8) (to_le_bytes 8 (p + fst (?fs ! j))) u1) else r = None"
    unfolding n by blast
  show ?thesis
  proof (cases "?n \<le> ARGS_MAX")
    case False
    then show ?thesis using u1 r p by (auto simp: split_def)
  next
    case True
    have "within p (length str + 1) (p + length str)" by (simp add: within_def)
    then have "wr u1 (p + length str)" using wr(1) u1(3) by simp
    from store [OF u1(2) this, of 0] obtain v where v: "um_store M (p + length str) 0 u1 = Some v" "ok v" "wr v = wr u1"
      "\<forall>x. um_load M x v = (if x = p + length str then Some 0 else um_load M x u1)" by blast
    define u2 where "u2 = (if 0 < ?n then v else u1)"
    have u2: "(if 0 < ?n \<and> length str < LINE_MAX then um_store M (p + length str) 0 u1 else Some u1) = Some u2" "ok u2" "wr u2 = wr u"
      "0 < ?n \<Longrightarrow> um_load M (p + length str) u2 = Some 0" "\<forall>x. x \<noteq> p + length str \<longrightarrow> um_load M x u2 = um_load M x u1"
      using v u(3) u1(2,3) by (simp_all add: u2_def)
    have slot: "within argv 136 x" if "within (argv + ?n * 8) 8 x" for x using that True by (simp add: within_def)
    then have "wr u2 x" if "within (argv + ?n * 8) 8 x" for x using that wr(2) u2(3) by simp
    then obtain u3 where u3: "store_usize M (argv + ?n * 8) 0 u2 = Some u3" "ok u3" "wr u3 = wr u2" "holds M (argv + ?n * 8) (to_le_bytes 8 0) u3"
      "\<forall>x. \<not> within (argv + ?n * 8) 8 x \<longrightarrow> um_load M x u3 = um_load M x u2"
      by (rule store_usize_ok [OF u2(2)])
    have keep: "um_load M x u3 = um_load M x u1" if "within p (length str) x \<or> within argv (?n * 8) x" for x
    proof -
      have "x \<noteq> p + length str" "\<not> within (argv + ?n * 8) 8 x"
        using that apart [of x] apart [of "p + length str"] True by (auto simp: within_def)
      then show ?thesis using u2(5) u3(5) by simp
    qed
    have r1: "r = Some ?n" "holds M p (zeroed str) u1" "\<And>j. j < ?n \<Longrightarrow> holds M (argv + j * 8) (to_le_bytes 8 (p + fst (?fs ! j))) u1" using r True by auto
    have z: "holds M p (zeroed str) u3" by (rule iffD2 [OF holds_cong r1(2)]) (use keep in simp)
    have str: "holds M (p + q) (w @ [0]) u3" "q \<le> length str" if qw: "(q, w) \<in> set ?fs" for q w
    proof -
      have "0 < ?n" using qw n by (metis length_pos_if_in_set)
      moreover have "\<not> within (argv + ?n * 8) 8 (p + length str)" using apart [of "p + length str"] slot by (auto simp: within_def)
      ultimately have "holds M p (zeroed str @ [0]) u3" using z u2(4) u3(5) by (simp add: holds_append holds_Cons)
      moreover obtain pre post where f: "zeroed str @ [0] = pre @ w @ 0 # post" "length pre = q" using field_at [OF qw] by blast
      ultimately show "holds M (p + q) (w @ [0]) u3" by (auto simp: holds_append holds_Cons)
      show "q \<le> length str" using arg_cong [OF f(1), of length] f(2) by simp
    qed
    have "\<forall>j<?n. holds M (argv + j * 8) (to_le_bytes 8 (p + fst (?fs ! j))) u3 \<and> within p (length str + 1) (p + fst (?fs ! j)) \<and>
        holds M (p + fst (?fs ! j)) (line_words str ! j @ [0]) u3"
    proof (intro allI impI conjI)
      fix j assume j: "j < ?n"
      then have m: "(fst (?fs ! j), line_words str ! j) \<in> set ?fs" using n by (simp add: line_words_def)
      show "holds M (argv + j * 8) (to_le_bytes 8 (p + fst (?fs ! j))) u3"
        by (rule iffD2 [OF holds_cong r1(3) [OF j]]) (use keep j in \<open>auto simp: within_def\<close>)
      show "within p (length str + 1) (p + fst (?fs ! j))" "holds M (p + fst (?fs ! j)) (line_words str ! j @ [0]) u3"
        using str [OF m] by (simp_all add: within_def)
    qed
    moreover have "um_load M x u3 = um_load M x u" if "\<not> within p (length str + 1) x \<and> \<not> within argv 136 x" for x
    proof -
      have "\<not> within (argv + ?n * 8) 8 x" "x \<noteq> p + length str" "\<not> within p (length str) x" using that slot p by (auto simp: within_def)
      then show ?thesis using that u1(4) u2(5) u3(5) by simp
    qed
    moreover have "split M (p, length str) argv u = Some (Some ?n, u3)"
      by (simp only: split_def u1(1) r1(1) u2(1) u3(1) Option.bind.simps option.simps prod.case fst_conv snd_conv)
    ultimately show ?thesis using True u3 u2(3) n
      by (intro exI [of _ "Some ?n"] exI [of _ u3]) (auto intro!: exI [of _ "map (\<lambda>(q, w). p + q) ?fs"] simp: case_prod_beta)
  qed
qed

end

end
