(* ===== verification/Kernel_User.thy ===== *)
theory Kernel_User
  imports Syscall_Io Terminal Split_Correct
begin

text \<open>
  User programs on the kernel. \<open>kernel_user\<close> is the machine a process runs on: loads and stores go through its page
  table with the permissions of the page, and \<^verbatim>\<open>ecall\<close> enters \<^verbatim>\<open>user_trap_handler\<close> with the registers in the trap
  frame, as \<^verbatim>\<open>user.S\<close> saves them. It is shown to satisfy what the library relies on, so the results on
  line input, the splitter and echo hold for processes of this kernel.
\<close>

section \<open>The machine of a process\<close>

definition user_loads :: "address_space \<Rightarrow> mm_state \<Rightarrow> virt_addr \<Rightarrow> u8 option" where
  "user_loads sp s a = (case umem sp s a of Some (b, fl) \<Rightarrow> if fl_contains fl (FL_READ OR FL_USER) then Some b else None | None \<Rightarrow> None)"

definition user_stores :: "address_space \<Rightarrow> virt_addr \<Rightarrow> u8 \<Rightarrow> mm_state \<Rightarrow> mm_state option" where
  "user_stores sp a b s =
     (if user_writable sp s a
      then map_option (\<lambda>e. s\<lparr>ram := write_u8 (pte_ppn e * 4096 + a mod 4096) b (ram s)\<rparr>) (pt_translate (as_table sp) (a div 4096) s)
      else None)"

definition save_regs :: "usize \<Rightarrow> usize \<Rightarrow> usize \<Rightarrow> usize \<Rightarrow> usize \<Rightarrow> trap_frame \<Rightarrow> trap_frame" where
  "save_regs pc nr a0 a1 a2 f = f\<lparr>tf_x := (tf_x f)[10 := a0, 11 := a1, 12 := a2, 17 := nr], tf_sepc := pc\<rparr>"

definition user_ecall :: "'d env \<Rightarrow> trap_syms \<Rightarrow> hart_csr \<Rightarrow> usize \<Rightarrow> usize \<Rightarrow> usize \<Rightarrow> usize \<Rightarrow> usize \<Rightarrow> 'd sys \<Rightarrow> (isize \<times> 'd sys) option" where
  "user_ecall E T c pc nr a0 a1 a2 st = do {
     p \<leftarrow> current (en_hart E) (sy_k st);
     (out, _, st1) \<leftarrow> user_trap_handler E T (c\<lparr>csr_scause := 8\<rparr>) (st\<lparr>sy_k := upd_frame p (save_regs pc nr a0 a1 a2) (sy_k st)\<rparr>);
     case out of Resume f \<Rightarrow> Some (as_isize (tf_arg f 0), st1) | _ \<Rightarrow> None
   }"

definition kernel_user :: "'d env \<Rightarrow> trap_syms \<Rightarrow> hart_csr \<Rightarrow> usize \<Rightarrow> address_space \<Rightarrow> (u8 list \<Rightarrow> virt_addr) \<Rightarrow> 'd sys user_machine" where
  "kernel_user E T c pc sp lit =
     \<lparr>um_ecall = user_ecall E T c pc, um_load = (\<lambda>a st. user_loads sp (k_mm (sy_k st)) a),
      um_store = (\<lambda>a b st. map_option (\<lambda>mm. st\<lparr>sy_k := (sy_k st)\<lparr>k_mm := mm\<rparr>\<rparr>) (user_stores sp a b (k_mm (sy_k st)))), um_text = lit\<rparr>"

section \<open>The state of a running process\<close>

definition running :: "usize \<Rightarrow> phys_page_num set \<Rightarrow> address_space \<Rightarrow> nat \<Rightarrow> pid \<Rightarrow> task \<Rightarrow> address_space \<Rightarrow> kstate \<Rightarrow> bool" where
  "running pc K kern h p t sp k \<longleftrightarrow> proc_ok K kern p t sp k \<and> current h k = Some p \<and> \<not> ti_needs_resched (tk_inner t) \<and>
     (\<exists>f. ti_frame (tk_inner t) = Some f \<and> length (tf_x f) = 32) \<and> pc + 4 < 2 ^ 64"

definition ku_ok :: "'d env \<Rightarrow> ('d \<Rightarrow> uart_obs) \<Rightarrow> usize \<Rightarrow> phys_page_num set \<Rightarrow> address_space \<Rightarrow> pid \<Rightarrow> address_space \<Rightarrow> 'd sys \<Rightarrow> bool" where
  "ku_ok E obs pc K kern p sp st \<longleftrightarrow> (\<exists>t. running pc K kern (en_hart E) p t sp (sy_k st)) \<and>
     ns16550 (en_machine E) (us_uart (sy_uart st)) obs \<and> \<not> dlab (obs (sy_dev st)) \<and> rx_ok (us_rx (sy_uart st))"

definition ku_wr :: "address_space \<Rightarrow> 'd sys \<Rightarrow> virt_addr \<Rightarrow> bool" where
  "ku_wr sp st a \<longleftrightarrow> user_writable sp (k_mm (sy_k st)) a \<and> user_loads sp (k_mm (sy_k st)) a \<noteq> None"

definition ku_inp :: "'d sys \<Rightarrow> u8 list" where
  "ku_inp st = rx_items (us_rx (sy_uart st))"

definition ku_out :: "('d \<Rightarrow> uart_obs) \<Rightarrow> 'd sys \<Rightarrow> u8 list" where
  "ku_out obs st = o_sent (obs (sy_dev st))"

section \<open>Memory\<close>

text \<open>A store, by the program or by the kernel, that replaces the byte at one address.\<close>

definition byte_set :: "address_space \<Rightarrow> virt_addr \<Rightarrow> u8 \<Rightarrow> mm_state \<Rightarrow> mm_state \<Rightarrow> bool" where
  "byte_set sp a b s s' \<longleftrightarrow> umem sp s' = mem_write a [b] (umem sp s)"

lemma byte_set_view:
  assumes "byte_set sp a b s s'" "user_loads sp s a \<noteq> None"
  shows "user_loads sp s' x = (if x = a then Some b else user_loads sp s x)" "user_writable sp s' = user_writable sp s"
  using assms by (auto simp: byte_set_def user_loads_def user_writable_def mem_write_def fun_eq_iff split: option.splits)

lemma user_store_ok:
  assumes pr: "proc_ok K kern p t sp k" and w: "user_writable sp (k_mm k) a"
  obtains s' where "user_stores sp a b (k_mm k) = Some s'" "proc_ok K kern p t sp (k\<lparr>k_mm := s'\<rparr>)" "byte_set sp a b (k_mm k) s'"
proof -
  note d = proc_okD [OF pr]
  obtain e where e: "a < USER_MAX_ADDR" "pt_translate (as_table sp) (a div 4096) (k_mm k) = Some e"
    using w by (auto simp: user_writable_def umem_def split: option.splits if_splits)
  define s' where "s' = set_ram (write_buf (pte_ppn e * 4096 + a mod 4096) [b] (ram (k_mm k))) (k_mm k)"
  have "a mod 4096 + length [b] \<le> 4096" by (simp add: Suc_leI)
  note c = write_chunk [OF d(6) e this, folded s'_def]
  have "user_stores sp a b (k_mm k) = Some s'" using w e(2) by (simp add: user_stores_def s'_def set_ram_def)
  moreover have "byte_set sp a b (k_mm k) s'" using c(4) by (auto simp: byte_set_def mem_write_def fun_eq_iff)
  moreover have "page_ppn ` set (pages_of (as_regions sp)) \<inter> table_frames (as_table kern) = {}" using d(7) by (auto simp: space_owned_def owned_def)
  then have "proc_ok K kern p t sp (k\<lparr>k_mm := s'\<rparr>)"
    using kernel_foreign(1) [OF d(2) c(2)] d c(1,2) by (auto simp: proc_ok_def footprint_def direct_mapped_def)
  ultimately show thesis using that by blast
qed

section \<open>System calls\<close>

lemma as_isize_usize: "- (2 ^ 63) \<le> v \<Longrightarrow> v < 2 ^ 63 \<Longrightarrow> as_isize (as_usize v) = v"
proof (cases "0 \<le> v")
  case False
  assume "- (2 ^ 63) \<le> v"
  then have "(v + 2 ^ 64) mod 2 ^ 64 = v + 2 ^ 64" using False by (intro mod_pos_pos_trivial) simp_all
  then have "v mod 2 ^ 64 = v + 2 ^ 64" by (simp only: mod_add_self2)
  then show ?thesis using False \<open>- (2 ^ 63) \<le> v\<close> by (simp add: as_isize_def as_usize_def)
qed (simp add: as_isize_def as_usize_def mod_pos_pos_trivial)

lemma save_regs_fields:
  assumes "length (tf_x f) = 32" "g = (save_regs pc nr a0 a1 a2 f)\<lparr>tf_sepc := pc'\<rparr>"
  shows "tf_syscall_id g = nr" "tf_arg g 0 = a0" "tf_arg g 1 = a1" "tf_arg g 2 = a2" "length (tf_x g) = 32"
  using assms by (simp_all add: save_regs_def tf_syscall_id_def tf_arg_def)

lemma running_frame:
  assumes "running pc K kern h p t sp k" "length (tf_x f) = 32"
  shows "running pc K kern h p (t\<lparr>tk_inner := (tk_inner t)\<lparr>ti_frame := Some f\<rparr>\<rparr>) sp (upd_frame p (\<lambda>_. f) k)" "k_mm (upd_frame p (\<lambda>_. f) k) = k_mm k"
  using assms by (auto simp: running_def proc_ok_def upd_frame_def upd_inner_def current_def)

lemma running_resched:
  assumes "running pc K kern h p t sp k"
  shows "resched_if_needed h k = Some (upd_inner p (\<lambda>i. i\<lparr>ti_needs_resched := False\<rparr>) k)"
    "running pc K kern h p (t\<lparr>tk_inner := (tk_inner t)\<lparr>ti_needs_resched := False\<rparr>\<rparr>) sp (upd_inner p (\<lambda>i. i\<lparr>ti_needs_resched := False\<rparr>) k)"
  using assms by (auto simp: running_def proc_ok_def upd_inner_def current_def resched_if_needed_def inner_of_def)

lemma upd_frame_twice: "upd_frame p g (upd_frame p f k) = upd_frame p (g \<circ> f) k"
  by (simp add: upd_frame_def upd_inner_def option.map_comp comp_def)

text \<open>A call that is answered without a switch comes back with its result in \<^verbatim>\<open>a0\<close>.\<close>

lemma ecall_answered:
  assumes r: "running pc K kern (en_hart E) p t sp (sy_k st)" and f: "ti_frame (tk_inner t) = Some f" "length (tf_x f) = 32"
    and g: "g = (save_regs pc nr a0 a1 a2 f)\<lparr>tf_sepc := pc + 4\<rparr>"
    and disp: "\<And>ss. dispatch E ss g (st\<lparr>sy_k := upd_frame p (\<lambda>_. g) (sy_k st)\<rparr>) = Some (Ret v, st2)" and v: "- (2 ^ 63) \<le> v" "v < 2 ^ 63"
    and r2: "running pc K kern (en_hart E) p t2 sp (sy_k st2)"
  shows "\<exists>t3 k3. user_ecall E T c pc nr a0 a1 a2 st = Some (v, st2\<lparr>sy_k := k3\<rparr>) \<and> running pc K kern (en_hart E) p t3 sp k3 \<and> k_mm k3 = k_mm (sy_k st2)"
proof -
  have cur: "current (en_hart E) (sy_k st) = Some p" "k_tasks (sy_k st) p = Some t" "pc + 4 < 2 ^ 64" using r by (simp_all add: running_def proc_ok_def)
  obtain f2 where f2: "ti_frame (tk_inner t2) = Some f2" "length (tf_x f2) = 32" "k_tasks (sy_k st2) p = Some t2" using r2 by (auto simp: running_def proc_ok_def)
  define f3 where "f3 = tf_set_return (as_usize v) f2"
  have f3: "length (tf_x f3) = 32" "tf_arg f3 0 = as_usize v" using f2(2) by (simp_all add: f3_def tf_set_return_def tf_set_x_def tf_arg_def)
  define k2 where "k2 = upd_frame p (\<lambda>_. f3) (sy_k st2)"
  have k2: "upd_frame p (tf_set_return (as_usize v)) (sy_k st2) = k2" using f2 by (simp add: k2_def f3_def upd_frame_def upd_inner_def)
  note a = running_frame [OF r2 f3(1), folded k2_def]
  note b = running_resched [OF a(1)]
  define k3 where "k3 = upd_inner p (\<lambda>i. i\<lparr>ti_needs_resched := False\<rparr>) k2"
  have fp: "frame_ptr p k3 = Some f3" "current (en_hart E) k3 = Some p"
    using b(2) f2 by (auto simp: k3_def k2_def frame_ptr_def inner_of_def upd_frame_def upd_inner_def running_def)
  have st1: "upd_frame p (\<lambda>_. g) (upd_frame p (save_regs pc nr a0 a1 a2) (sy_k st)) = upd_frame p (\<lambda>_. g) (sy_k st)" by (simp add: upd_frame_twice comp_def)
  have fr: "frame_ptr p (upd_frame p (save_regs pc nr a0 a1 a2) (sy_k st)) = Some (save_regs pc nr a0 a1 a2 f)"
    "current (en_hart E) (upd_frame p (save_regs pc nr a0 a1 a2) (sy_k st)) = Some p" "tf_sepc (save_regs pc nr a0 a1 a2 f) = pc"
    using cur f by (simp_all add: frame_ptr_def inner_of_def upd_frame_def upd_inner_def current_def save_regs_def)
  have dec: "decode 8 = UserEcall" by (simp add: decode_def usize_not_def drop_bit_eq_div)
  have ret: "user_return E T p x (st2\<lparr>sy_k := k2\<rparr>) = Some (Resume f3, set_user_vector T x, st2\<lparr>sy_k := k3\<rparr>)" for x
    using b(1) fp by (simp add: user_return_def resched_def k3_def)
  have "user_ecall E T c pc nr a0 a1 a2 st = Some (as_isize (tf_arg f3 0), st2\<lparr>sy_k := k3\<rparr>)"
    using cur fr dec st1 g disp ret k2 by (simp add: user_ecall_def user_trap_handler_def current_task_def set_kernel_vector_def checked_add_def ecall_return_def)
  then have "user_ecall E T c pc nr a0 a1 a2 st = Some (v, st2\<lparr>sy_k := k3\<rparr>)" using f3(2) as_isize_usize [OF v] by simp
  moreover have "k_mm k3 = k_mm (sy_k st2)" using a(2) by (simp add: k3_def upd_inner_def)
  ultimately show ?thesis using b(2) [folded k3_def] by blast
qed

lemma kernel_user_simps [simp]:
  "um_ecall (kernel_user E T c pc sp lit) = user_ecall E T c pc" "um_load (kernel_user E T c pc sp lit) a st = user_loads sp (k_mm (sy_k st)) a"
  "um_text (kernel_user E T c pc sp lit) = lit"
  by (simp_all add: kernel_user_def)

text \<open>The frame that \<^verbatim>\<open>dispatch\<close> sees, and the state it runs in.\<close>

lemma entered:
  assumes "ku_ok E obs pc K kern p sp st"
  obtains t f g st1 t1 where "running pc K kern (en_hart E) p t sp (sy_k st)" "ti_frame (tk_inner t) = Some f" "length (tf_x f) = 32"
    "g = (save_regs pc nr a0 a1 a2 f)\<lparr>tf_sepc := pc + 4\<rparr>" "tf_syscall_id g = nr" "tf_arg g 0 = a0" "tf_arg g 1 = a1" "tf_arg g 2 = a2"
    "st1 = st\<lparr>sy_k := upd_frame p (\<lambda>_. g) (sy_k st)\<rparr>" "running pc K kern (en_hart E) p t1 sp (sy_k st1)" "k_mm (sy_k st1) = k_mm (sy_k st)"
proof -
  obtain t f where t: "running pc K kern (en_hart E) p t sp (sy_k st)" "ti_frame (tk_inner t) = Some f" "length (tf_x f) = 32"
    using assms by (auto simp: ku_ok_def running_def)
  define g where "g = (save_regs pc nr a0 a1 a2 f)\<lparr>tf_sepc := pc + 4\<rparr>"
  note r = save_regs_fields [OF t(3) g_def]
  show thesis by (rule that [OF t g_def r(1-4) refl]) (use running_frame [OF t(1) r(5)] in simp_all)
qed

lemma ku_read:
  assumes ok: "ku_ok E obs pc K kern p sp st" and w: "ku_wr sp st a" and i: "ku_inp st = b # bs"
  shows "\<exists>st'. user_ecall E T c pc SYS_READ STDIN a 1 st = Some (1, st') \<and> ku_ok E obs pc K kern p sp st' \<and>
    byte_set sp a b (k_mm (sy_k st)) (k_mm (sy_k st')) \<and> ku_inp st' = bs \<and> ku_out obs st' = ku_out obs st"
proof (rule entered [OF ok, where nr = SYS_READ and ?a0.0 = STDIN and ?a1.0 = a and ?a2.0 = 1], goal_cases)
  case (1 t f g st1 t1)
  have io: "sy_uart st1 = sy_uart st" "sy_dev st1 = sy_dev st" using 1(9) by simp_all
  have wr: "user_writable sp (k_mm (sy_k st1)) a" using w 1(11) by (simp add: ku_wr_def)
  then have "a + 1 \<le> USER_MAX_ADDR" by (auto simp: user_writable_def umem_def split: option.splits if_splits)
  moreover have run: "proc_ok K kern p t1 sp (sy_k st1)" "current (en_hart E) (sy_k st1) = Some p" using 1(10) by (simp_all add: running_def)
  moreover have rx: "rx_ok (us_rx (sy_uart st1))" "rx_items (us_rx (sy_uart st1)) = b # bs" using ok i io by (simp_all add: ku_ok_def ku_inp_def)
  ultimately obtain out st2 where r: "sys_read E STDIN a 1 st1 = Some (out, st2)" "input_read K kern p t1 sp a 1 st1 out st2"
    using sys_read_input [OF run rx(1), of 1 a] by auto
  have n: "writable_prefix (user_writable sp (k_mm (sy_k st1))) a (length [b]) = 1" using wr by simp
  have d: "take 1 (b # bs) = [b]" "drop 1 (b # bs) = bs" by simp_all
  from r(2) obtain mm q where st2: "out = Ret 1" "umem sp (k_mm (sy_k st2)) = mem_write a [b] (umem sp (k_mm (sy_k st1)))" "proc_ok K kern p t1 sp (sy_k st2)"
    "st2 = st1\<lparr>sy_k := (sy_k st1)\<lparr>k_mm := mm\<rparr>, sy_uart := (sy_uart st1)\<lparr>us_rx := q\<rparr>\<rparr>" "rx_ok q" "rx_items q = bs"
    unfolding input_read_def Let_def rx(2) d n by auto
  have "running pc K kern (en_hart E) p t1 sp (sy_k st2)" using 1(10) st2(3,4) by (simp add: running_def current_def)
  moreover have disp: "dispatch E ss g (st\<lparr>sy_k := upd_frame p (\<lambda>_. g) (sy_k st)\<rparr>) = Some (Ret 1, st2)" for ss
    using r(1) st2(1) 1(5-9) by (simp add: dispatch_def)
  ultimately obtain t3 k3 where "user_ecall E T c pc SYS_READ STDIN a 1 st = Some (1, st2\<lparr>sy_k := k3\<rparr>)" "running pc K kern (en_hart E) p t3 sp k3"
    "k_mm k3 = k_mm (sy_k st2)" using ecall_answered [OF 1(1-4) disp] by fastforce
  then show ?case using ok io st2 1(11) by (auto simp: ku_ok_def ku_inp_def ku_out_def byte_set_def)
qed

lemma ku_write:
  assumes ok: "ku_ok E obs pc K kern p sp st" and h: "\<forall>i<length cs. user_loads sp (k_mm (sy_k st)) (a + i) = Some (cs ! i)"
    and len: "length cs \<le> MAX_IO" "a + length cs \<le> USER_MAX_ADDR"
  shows "\<exists>st'. user_ecall E T c pc SYS_WRITE STDOUT a (length cs) st = Some (int (length cs), st') \<and> ku_ok E obs pc K kern p sp st' \<and>
    k_mm (sy_k st') = k_mm (sy_k st) \<and> ku_inp st' = ku_inp st \<and> ku_out obs st' = ku_out obs st @ crlf cs"
proof (rule entered [OF ok, where nr = SYS_WRITE and ?a0.0 = STDOUT and ?a1.0 = a and ?a2.0 = "length cs"], goal_cases)
  case (1 t f g st1 t1)
  have io: "sy_uart st1 = sy_uart st" "sy_dev st1 = sy_dev st" using 1(9) by simp_all
  have "umem sp (k_mm (sy_k st1)) (a + i) \<noteq> None \<and> fst (the (umem sp (k_mm (sy_k st1)) (a + i))) = cs ! i" if "i < length cs" for i
    using h that 1(11) by (fastforce simp: user_loads_def split: option.splits if_splits)
  then have b: "user_bytes sp (k_mm (sy_k st1)) a (length cs) = Some cs" by (auto simp: user_bytes_def intro!: nth_equalityI)
  have run: "proc_ok K kern p t1 sp (sy_k st1)" "current (en_hart E) (sy_k st1) = Some p" using 1(10) by (simp_all add: running_def)
  have dev: "ns16550 (en_machine E) (us_uart (sy_uart st1)) obs" "\<not> dlab (obs (sy_dev st1))" using ok io by (simp_all add: ku_ok_def)
  obtain d' where w: "sys_write E STDOUT a (length cs) st1 = Some (Ret (int (length cs)), st1\<lparr>sy_dev := d'\<rparr>)"
    "o_lcr (obs d') = o_lcr (obs (sy_dev st1))" "o_sent (obs d') = o_sent (obs (sy_dev st1)) @ crlf cs"
    using sys_write_view [OF run dev, of STDOUT a "length cs"] b len by auto
  have "running pc K kern (en_hart E) p t1 sp (sy_k (st1\<lparr>sy_dev := d'\<rparr>))" using 1(10) by simp
  moreover have disp: "dispatch E ss g (st\<lparr>sy_k := upd_frame p (\<lambda>_. g) (sy_k st)\<rparr>) = Some (Ret (int (length cs)), st1\<lparr>sy_dev := d'\<rparr>)" for ss
    using w(1) 1(5-9) by (simp add: dispatch_def)
  moreover have "- (2 ^ 63) \<le> int (length cs)" "int (length cs) < 2 ^ 63" using len(1) by simp_all
  ultimately obtain t3 k3 where "user_ecall E T c pc SYS_WRITE STDOUT a (length cs) st = Some (int (length cs), (st1\<lparr>sy_dev := d'\<rparr>)\<lparr>sy_k := k3\<rparr>)"
    "running pc K kern (en_hart E) p t3 sp k3" "k_mm k3 = k_mm (sy_k (st1\<lparr>sy_dev := d'\<rparr>))"
    using ecall_answered [OF 1(1-4) disp, where T = T and c = c] by blast
  then show ?case using ok io w 1(11) by (auto simp: ku_ok_def ku_inp_def ku_out_def)
qed

lemma ku_store:
  assumes ok: "ku_ok E obs pc K kern p sp st" and w: "ku_wr sp st a"
  shows "\<exists>st'. um_store (kernel_user E T c pc sp lit) a b st = Some st' \<and> ku_ok E obs pc K kern p sp st' \<and>
    byte_set sp a b (k_mm (sy_k st)) (k_mm (sy_k st')) \<and> ku_inp st' = ku_inp st \<and> ku_out obs st' = ku_out obs st"
proof -
  obtain t where t: "running pc K kern (en_hart E) p t sp (sy_k st)" using ok by (auto simp: ku_ok_def)
  have "user_writable sp (k_mm (sy_k st)) a" "proc_ok K kern p t sp (sy_k st)" using w t by (simp_all add: ku_wr_def running_def)
  then obtain s' where s': "user_stores sp a b (k_mm (sy_k st)) = Some s'" "proc_ok K kern p t sp ((sy_k st)\<lparr>k_mm := s'\<rparr>)" "byte_set sp a b (k_mm (sy_k st)) s'"
    by (metis user_store_ok)
  have "running pc K kern (en_hart E) p t sp ((sy_k st)\<lparr>k_mm := s'\<rparr>)" using t s'(2) by (simp add: running_def current_def)
  then show ?thesis using s'(1,3) ok by (auto simp: kernel_user_def ku_ok_def ku_inp_def ku_out_def)
qed

lemma ku_byte_set:
  assumes "byte_set sp a b (k_mm (sy_k st)) (k_mm (sy_k st'))" "ku_wr sp st a"
  shows "user_loads sp (k_mm (sy_k st')) x = (if x = a then Some b else user_loads sp (k_mm (sy_k st)) x)" "ku_wr sp st' = ku_wr sp st"
  using byte_set_view [OF assms(1)] assms(2) by (auto simp: ku_wr_def fun_eq_iff)

lemma user_loads_range: "user_loads sp s a \<noteq> None \<Longrightarrow> a < USER_MAX_ADDR"
  by (auto simp: user_loads_def umem_def split: if_splits)

interpretation ku: user_terminal "kernel_user E T c pc sp lit" "ku_ok E obs pc K kern p sp" "ku_wr sp" ku_inp "ku_out obs"
  for E :: "'d env" and T c pc sp lit obs K kern p
proof (unfold_locales, goal_cases)
  case (1 u a b)
  from ku_store [OF this, of T c lit b] obtain u' where u': "um_store (kernel_user E T c pc sp lit) a b u = Some u'" "ku_ok E obs pc K kern p sp u'"
    "byte_set sp a b (k_mm (sy_k u)) (k_mm (sy_k u'))" by blast
  then show ?case using ku_byte_set [OF u'(3) 1(2)] by auto
next
  case (2 u a)
  then show ?case by (simp add: ku_wr_def)
next
  case (3 u a b u')
  then show ?case using ku_store [OF 3(1,2), of T c lit b] by auto
next
  case (4 u a b bs)
  from ku_read [OF this, of T c] obtain u' where u': "user_ecall E T c pc SYS_READ STDIN a 1 u = Some (1, u')" "ku_ok E obs pc K kern p sp u'"
    "byte_set sp a b (k_mm (sy_k u)) (k_mm (sy_k u'))" "ku_inp u' = bs" "ku_out obs u' = ku_out obs u" by blast
  then show ?case using ku_byte_set [OF u'(3) 4(2)] by auto
next
  case (5 u a cs)
  then show ?case using ku_write [OF 5(1) _ 5(3,4), of T c] by (auto simp: holds_def ku_wr_def fun_eq_iff)
next
  case (6 u a)
  then show ?case using user_loads_range by simp
qed

section \<open>Arguments on the stack\<close>

lemma holds_concat:
  "(\<And>x. length (f x) = w) \<Longrightarrow> holds M a (concat (map f xs)) u \<Longrightarrow> j < length xs \<Longrightarrow> holds M (a + j * w) (f (xs ! j)) u"
proof (induction xs arbitrary: a j)
  case (Cons x xs)
  then show ?case using Cons.IH [of "a + w" "j - 1"] by (cases j) (auto simp: holds_append add.assoc)
qed simp

abbreviation on_stack :: "virt_addr \<Rightarrow> bool" where
  "on_stack x \<equiv> USER_STACK_TOP - USER_STACK_SIZE \<le> x \<and> x < USER_STACK_TOP"

lemma stack_loads:
  assumes "user_bytes sp s a (length bs) = Some bs" "\<forall>x. on_stack x \<longrightarrow> map_option snd (umem sp s x) = Some (leaf_flags (FL_RW OR FL_USER))"
    "\<And>i. i < length bs \<Longrightarrow> on_stack (a + i)" "k_mm (sy_k st) = s"
  shows "holds (kernel_user E T c pc sp lit) a bs st"
  unfolding holds_def
proof (intro allI impI)
  fix i assume i: "i < length bs"
  have b: "\<forall>i<length bs. umem sp s (a + i) \<noteq> None" "map (\<lambda>i. fst (the (umem sp s (a + i)))) [0..<length bs] = bs"
    using assms(1) by (auto simp: user_bytes_def split: if_splits)
  have "umem sp s (a + i) \<noteq> None" "bs ! i = fst (the (umem sp s (a + i)))" using b(1) i arg_cong [OF b(2), of "\<lambda>xs. xs ! i"] by simp_all
  moreover have "map_option snd (umem sp s (a + i)) = Some (leaf_flags (FL_RW OR FL_USER))" using assms(2,3) i by blast
  ultimately have "umem sp s (a + i) = Some (bs ! i, leaf_flags (FL_RW OR FL_USER))" by auto
  then show "um_load (kernel_user E T c pc sp lit) (a + i) st = Some (bs ! i)" using assms(4) by (simp add: user_loads_def fl_contains_def)
qed

lemma stack_args:
  assumes h: "argv_holds sp s argv USER_STACK_TOP args" and lo: "USER_STACK_TOP - USER_STACK_SIZE \<le> argv"
    and fl: "\<forall>x. on_stack x \<longrightarrow> map_option snd (umem sp s x) = Some (leaf_flags (FL_RW OR FL_USER))"
    and st: "k_mm (sy_k st) = s" and nul: "\<forall>a \<in> set args. 0 \<notin> set a"
  shows "args_at (kernel_user E T c pc sp lit) argv args st"
  unfolding args_at_def
proof (intro allI impI)
  let ?M = "kernel_user E T c pc sp lit"
  fix n assume n: "n < length args"
  obtain ptrs where p: "length ptrs = length args" "argv + (length args + 1) * 8 \<le> USER_STACK_TOP"
    "user_bytes sp s argv ((length args + 1) * 8) = Some (pointer_bytes (ptrs @ [0]))"
    "argv \<le> ptrs ! n" "ptrs ! n + length (args ! n) < USER_STACK_TOP" "user_bytes sp s (ptrs ! n) (length (args ! n) + 1) = Some (args ! n @ [0])"
    using h n unfolding argv_holds_def by blast
  have len: "length (pointer_bytes (ptrs @ [0])) = (length args + 1) * 8" using p(1) by simp
  have "holds ?M argv (pointer_bytes (ptrs @ [0])) st"
    by (rule stack_loads [OF _ fl _ st]) (use p(2,3) len lo in \<open>simp_all only: len\<close>, linarith)
  from holds_concat [OF to_le_bytes_length this, of n] have "holds ?M (argv + n * 8) (to_le_bytes 8 (ptrs ! n)) st" using n p(1) by (simp add: nth_append)
  moreover have "holds ?M (ptrs ! n) (args ! n @ [0]) st" by (rule stack_loads [OF _ fl _ st]) (use p(4-6) lo in auto)
  moreover have "ptrs ! n < 2 ^ 64" "0 \<notin> set (args ! n)" using p(5) nul n by simp_all
  ultimately show "\<exists>q<2 ^ 64. holds ?M (argv + n * 8) (to_le_bytes 8 q) st \<and> holds ?M q (args ! n @ [0]) st \<and> 0 \<notin> set (args ! n)" by blast
qed

lemma arg_at_nul: "arg_at sp s a x \<Longrightarrow> 0 \<notin> set x \<and> length x < MAX_STR"
  by (auto simp: arg_at_def is_cstr_def)

lemma exec_args_nul:
  assumes "exec_args sp s a b path args" "x \<in> set args"
  shows "0 \<notin> set x \<and> length x < MAX_STR"
proof -
  obtain j where j: "j < length args" "args ! j = x" using assms(2) by (auto simp: in_set_conv_nth)
  then have "arg_at sp s (b + j * 8) x" using assms(1) by (auto simp: exec_args_def is_argv_def split: if_splits)
  then show ?thesis by (rule arg_at_nul)
qed

lemma exec_installed_args:
  assumes i: "exec_installed K kern h p img args old k k'" and nul: "\<forall>a \<in> set args. 0 \<notin> set a"
  obtains t f sp where "proc_ok K kern p t sp k'" "ti_frame (tk_inner t) = Some f" "tf_arg f 0 = length args"
    "\<And>E T c pc lit st. sy_k st = k' \<Longrightarrow> args_at (kernel_user E T c pc sp lit) (tf_arg f 1) args st"
proof -
  obtain t f sp argv where t: "proc_ok K kern p t sp k'" "ti_frame (tk_inner t) = Some f" "tf_arg f 0 = length args" "tf_arg f 1 = argv"
    "argv_holds sp (k_mm k') argv USER_STACK_TOP args" "USER_STACK_TOP - USER_STACK_SIZE \<le> argv"
    "\<forall>x. on_stack x \<longrightarrow> map_option snd (umem sp (k_mm k') x) = Some (leaf_flags (FL_RW OR FL_USER))"
    using i unfolding exec_installed_def by blast
  have "args_at (kernel_user E T c pc sp lit) (tf_arg f 1) args st" if "sy_k st = k'" for E T c pc lit st
    using stack_args [OF t(5-7) _ nul, of st] that t(4) by simp
  then show thesis by (rule that [OF t(1-3)])
qed

section \<open>A process with input waiting\<close>

lemma rx_filled: "length cs \<le> 255 \<Longrightarrow> \<exists>r. rx_ok r \<and> rx_items r = cs"
proof (induction cs rule: rev_induct)
  case (snoc c cs)
  then obtain r where "rx_ok r" "rx_items r = cs" by auto
  then show ?case using rx.push_room [of r c] snoc.prems by auto
qed (use rx_new_ok in blast)

abbreviation demo_user_machine :: "address_space \<Rightarrow> (u8 list \<Rightarrow> virt_addr) \<Rightarrow> uart_obs sys user_machine" where
  "demo_user_machine sp lit \<equiv> kernel_user (demo_env []) demo_traps
     \<lparr>csr_sstatus = 0, csr_sie = 0, csr_sip = 0, csr_stvec = 0, csr_scause = 0, csr_stval = 0\<rparr> 0x10078 sp lit"

lemma demo_user_state:
  assumes "length cs \<le> 255" "length bs \<le> 4096"
  obtains K kern sp st where "ku_ok (demo_env []) (\<lambda>d. d) 0x10078 K kern 1 sp st" "\<forall>lit. holds (demo_user_machine sp lit) 0x11000 bs st"
    "\<forall>x. 0x11000 \<le> x \<and> x < 0x12000 \<longrightarrow> ku_wr sp st x" "ku_inp st = cs" "ku_out (\<lambda>d. d) st = []"
proof -
  obtain K kern sp s where d: "proc_ok K kern 1 (Process_Correct.demo_task sp) sp (demo_k kern sp s)"
    and u: "umem sp s = (\<lambda>x. if 0x11000 \<le> x \<and> x < 0x12000 then Some (0, leaf_flags (FL_RW OR FL_USER)) else None)" by (rule demo_proc)
  obtain r where r: "rx_ok r" "rx_items r = cs" using rx_filled [OF assms(1)] by blast
  define st where "st = \<lparr>sy_k = demo_k kern sp s, sy_uart = uart_statics_new, sy_timer = \<lparr>tm_ticks = 0, tm_next = 0\<rparr>, sy_dev = demo_obs\<rparr>"
  have mm: "k_mm (demo_k kern sp s) = s" by (simp add: demo_k_def)
  have run: "running 0x10078 K kern 0 1 (Process_Correct.demo_task sp) sp (sy_k st)"
    using d by (simp add: running_def st_def demo_k_def current_def Process_Correct.demo_task_def fresh_inner_def tf_default_def)
  have dev: "ns16550 demo_uart (us_uart uart_statics_new) (\<lambda>d. d)" "\<not> dlab demo_obs" "o_sent demo_obs = []" using demo_uart_ok by (simp_all add: demo_obs_def)
  have ok: "ku_ok (demo_env []) (\<lambda>d. d) 0x10078 K kern 1 sp st"
    using run dev rx_new_ok by (auto simp: ku_ok_def demo_env_def st_def uart_statics_new_def)
  have w: "ku_wr sp st x" if "0x11000 \<le> x" "x < 0x12000" for x
    using that by (simp add: ku_wr_def st_def mm user_writable_def user_loads_def u fl_contains_def)
  obtain st1 where st1: "ku_ok (demo_env []) (\<lambda>d. d) 0x10078 K kern 1 sp st1" "ku_wr sp st1 = ku_wr sp st" "holds (demo_user_machine sp (\<lambda>_. 0)) 0x11000 bs st1"
    using ku.store_bytes_ok [OF ok, of "0x11000" bs] w assms(2) by (force simp: within_def)
  let ?st = "st1\<lparr>sy_uart := uart_statics_new\<lparr>us_rx := r\<rparr>, sy_dev := demo_obs\<rparr>"
  have "ku_ok (demo_env []) (\<lambda>d. d) 0x10078 K kern 1 sp ?st" using st1(1) dev r(1) by (auto simp: ku_ok_def demo_env_def uart_statics_new_def)
  moreover have "ku_wr sp ?st x" if "0x11000 \<le> x \<and> x < 0x12000" for x using w that st1(2) by (simp add: ku_wr_def fun_eq_iff)
  ultimately show thesis using that st1(3) r(2) dev(3) by (auto simp: holds_def ku_inp_def ku_out_def)
qed

section \<open>Properties\<close>

text \<open>
  C38: reading a line is line editing. Whatever has been typed up to a newline, the call returns, the buffer holds the
  line after all erasures and without anything unprintable or beyond its capacity, the terminal has shown exactly the editing, and
  what was typed after the newline is left for the next call. This holds for a process of this kernel, through its traps, the receive ring
  and the serial port.
\<close>

theorem read_line_correct:
  assumes "ku_ok E obs pc K kern p sp st" "line_setup (kernel_user E T c pc sp lit) (ku_wr sp) byte buf st"
    and "is_newline nl" "ku_inp st = cs @ nl # rest" "\<forall>b \<in> set cs. \<not> is_newline b"
  shows "\<exists>st'. read_line (kernel_user E T c pc sp lit) byte buf st = Some (length (fst (edit_line (snd buf) [] cs)), st') \<and>
    holds (kernel_user E T c pc sp lit) (fst buf) (fst (edit_line (snd buf) [] cs)) st' \<and>
    (\<forall>b \<in> set (fst (edit_line (snd buf) [] cs)). is_ascii_graphic b \<or> b = 32) \<and> length (fst (edit_line (snd buf) [] cs)) \<le> snd buf \<and>
    ku_inp st' = rest \<and> ku_out obs st' = ku_out obs st @ snd (edit_line (snd buf) [] cs) @ [13, 10] \<and> ku_ok E obs pc K kern p sp st'"
  using ku.read_line_ok [OF assms] edit_line_printable [of "[]" "snd buf" cs] by (auto simp: line_state_def)

theorem read_line_correct_witness:
  "\<exists>K kern sp st st' lit. ku_ok (demo_env []) (\<lambda>d. d) 0x10078 K kern 1 sp st \<and> ku_inp st = [97, 98, 8, 99, 13, 100] \<and>
     read_line (demo_user_machine sp lit) 0x11100 (0x11200, 16) st = Some (2, st') \<and>
     holds (demo_user_machine sp lit) 0x11200 [97, 99] st' \<and> ku_inp st' = [100] \<and> ku_out (\<lambda>d. d) st' = [97, 98, 8, 32, 8, 99, 13, 10]"
proof -
  define lit :: "u8 list \<Rightarrow> virt_addr" where "lit = (\<lambda>bs. if bs = [10] then 0x11000 else 0x11001)"
  obtain K kern sp st where d: "ku_ok (demo_env []) (\<lambda>d. d) 0x10078 K kern 1 sp st" "\<forall>lit. holds (demo_user_machine sp lit) 0x11000 ([10] @ [8, 32, 8]) st"
    "\<forall>x. 0x11000 \<le> x \<and> x < 0x12000 \<longrightarrow> ku_wr sp st x" "ku_inp st = [97, 98, 8, 99] @ 13 # [100]" "ku_out (\<lambda>d. d) st = []"
    by (rule demo_user_state [of "[97, 98, 8, 99] @ 13 # [100]" "[10] @ [8, 32, 8]"]) simp_all
  have "holds (demo_user_machine sp lit) 0x11000 [10] st" "holds (demo_user_machine sp lit) 0x11001 [8, 32, 8] st"
    using d(2) [rule_format, of lit] unfolding holds_append by simp_all
  then have ls: "line_setup (demo_user_machine sp lit) (ku_wr sp) 0x11100 (0x11200, 16) st"
    using d(3) by (auto simp: line_setup_def text_ok_def lit_def within_def)
  have e: "edit_line 16 [] [97, 98, 8, 99] = ([97, 99], [97, 98, 8, 32, 8, 99])" by (simp add: edit_def echoed_def is_erase_def is_ascii_graphic_def)
  have nl: "is_newline 13" "\<forall>b \<in> set [97, 98, 8, 99]. \<not> is_newline b" by (simp_all add: is_newline_def)
  from read_line_correct [OF d(1) ls nl(1) d(4) nl(2), unfolded fst_conv snd_conv e] obtain st' where
    "read_line (demo_user_machine sp lit) 0x11100 (0x11200, 16) st = Some (length [97 :: u8, 99], st')" "holds (demo_user_machine sp lit) 0x11200 [97, 99] st'"
    "ku_inp st' = [100]" "ku_out (\<lambda>d. d) st' = ku_out (\<lambda>d. d) st @ [97, 98, 8, 32, 8, 99] @ [13, 10]" by blast
  then show ?thesis using d(1,4,5)
    by (intro exI [of _ K] exI [of _ kern] exI [of _ sp] exI [of _ st] exI [of _ st'] exI [of _ lit]) simp
qed



text \<open>
  Arguments survive \<^verbatim>\<open>exec\<close>. After a successful call the new image finds, through the registers it starts with and the
  accessor of the user library, exactly the arguments the old image passed by pointer, each with its bytes, and none beyond them.
\<close>

lemma exec_args_delivered:
  assumes pr: "proc_ok K kern p t sp k" and cur: "current (en_hart E) k = Some p" and ks: "ks_top (ti_kstack (tk_inner t)) = Some ksp"
    and h: "en_hart E < length (k_cpus k)" and a: "argv_ptr < 2 ^ 64" and imgs: "\<forall>(n, img) \<in> set (en_programs E). length img < 2 ^ 63"
    and ok: "sys_exec E sstatus path_ptr argv_ptr k = Some (Replaced v, sy_k st)"
  shows "\<exists>path args t' f sp'. exec_args sp (k_mm k) path_ptr argv_ptr path args \<and> proc_ok K kern p t' sp' (sy_k st) \<and> ti_frame (tk_inner t') = Some f \<and>
    (\<forall>n. if n < length args
         then \<exists>q. args_get (kernel_user E T c pc sp' lit) (args_new (tf_arg f 0) (tf_arg f 1)) n st = Some (Some (q, length (args ! n))) \<and>
           holds (kernel_user E T c pc sp' lit) q (args ! n) st
         else args_get (kernel_user E T c pc sp' lit) (args_new (tf_arg f 0) (tf_arg f 1)) n st = Some None)"
proof -
  obtain path args img where e: "exec_args sp (k_mm k) path_ptr argv_ptr path args" "exec_installed K kern (en_hart E) p img args sp k (sy_k st)"
    using sys_exec_view [OF pr cur ks h a imgs, of sstatus path_ptr] ok by auto
  obtain t' f sp' where f: "proc_ok K kern p t' sp' (sy_k st)" "ti_frame (tk_inner t') = Some f" "tf_arg f 0 = length args"
    and args: "args_at (kernel_user E T c pc sp' lit) (tf_arg f 1) args st"
    by (rule exec_installed_args [OF e(2)]) (use exec_args_nul [OF e(1)] in blast)+
  have "\<exists>q. args_get (kernel_user E T c pc sp' lit) (args_new (tf_arg f 0) (tf_arg f 1)) n st = Some (Some (q, length (args ! n))) \<and>
      holds (kernel_user E T c pc sp' lit) q (args ! n) st" if "n < length args" for n
    using args_get_at [OF args that, of 0] f(3) by (auto simp: args_new_def holds_append)
  moreover have "args_get (kernel_user E T c pc sp' lit) (args_new (tf_arg f 0) (tf_arg f 1)) n st = Some None" if "\<not> n < length args" for n
    using that f(3) by (simp add: args_get_def args_new_def)
  ultimately show ?thesis using e(1) f(1,2) by (intro exI [of _ path] exI [of _ args] exI [of _ t'] exI [of _ f] exI [of _ sp']) auto
qed

text \<open>
  C40: echo prints its arguments after the first, separated by single spaces and followed by a newline, and ends with status 0.
\<close>

theorem echo_correct:
  assumes "ku_ok E obs pc K kern p sp st" "args_at (kernel_user E T c pc sp lit) argv args st"
    and "holds (kernel_user E T c pc sp lit) (lit [32]) [32] st" "holds (kernel_user E T c pc sp lit) (lit [10]) [10] st" "\<forall>x \<in> set args. length x \<le> MAX_IO"
  shows "\<exists>st'. echo_main (kernel_user E T c pc sp lit) (args_new (length args) argv) st = Some (0, st') \<and>
    ku_out obs st' = ku_out obs st @ crlf (spaced (tl args)) @ [13, 10] \<and> ku_inp st' = ku_inp st"
  using ku.echo_ok [of E obs pc K kern p sp st T c lit argv args] assms by auto

theorem echo_correct_witness:
  "\<exists>K kern sp st st' lit. ku_ok (demo_env []) (\<lambda>d. d) 0x10078 K kern 1 sp st \<and>
     args_at (demo_user_machine sp lit) 0x11000 [[101], [104, 105], [33]] st \<and>
     echo_main (demo_user_machine sp lit) (args_new 3 0x11000) st = Some (0, st') \<and> ku_out (\<lambda>d. d) st' = [104, 105, 32, 33, 13, 10]"
proof -
  define lit :: "u8 list \<Rightarrow> virt_addr" where "lit = (\<lambda>bs. if bs = [32] then 0x1101f else 0x11020)"
  let ?bs = "to_le_bytes 8 0x11018 @ to_le_bytes 8 0x1101a @ to_le_bytes 8 0x1101d @ ([101] @ [0]) @ ([104, 105] @ [0]) @ ([33] @ [0]) @ [32] @ [10]"
  obtain K kern sp st where d: "ku_ok (demo_env []) (\<lambda>d. d) 0x10078 K kern 1 sp st" "\<forall>lit. holds (demo_user_machine sp lit) 0x11000 ?bs st"
    "ku_out (\<lambda>d. d) st = []"
    by (rule demo_user_state [of "[]" ?bs]) (simp_all add: to_le_bytes_length)
  let ?M = "demo_user_machine sp lit"
  have h: "holds ?M 0x11000 (to_le_bytes 8 0x11018) st" "holds ?M 0x11008 (to_le_bytes 8 0x1101a) st" "holds ?M 0x11010 (to_le_bytes 8 0x1101d) st"
    "holds ?M 0x11018 ([101] @ [0]) st" "holds ?M 0x1101a ([104, 105] @ [0]) st" "holds ?M 0x1101d ([33] @ [0]) st" "holds ?M 0x1101f [32] st" "holds ?M 0x11020 [10] st"
    using d(2) [rule_format, of lit] unfolding holds_append by (simp_all add: to_le_bytes_length)
  let ?args = "[[101], [104, 105], [33]] :: u8 list list"
  have "\<exists>q<2 ^ 64. holds ?M (0x11000 + n * 8) (to_le_bytes 8 q) st \<and> holds ?M q (?args ! n @ [0]) st \<and> 0 \<notin> set (?args ! n)" if "n < length ?args" for n
    using that h by (intro exI [of _ "[0x11018, 0x1101a, 0x1101d] ! n"]) (auto simp: less_Suc_eq)
  then have a: "args_at ?M 0x11000 ?args st" unfolding args_at_def by blast
  have len: "\<forall>x \<in> set ?args. length x \<le> MAX_IO" "length ?args = 3" and lit: "lit [32] = 0x1101f" "lit [10] = 0x11020" by (simp_all add: lit_def)
  from echo_correct [OF d(1) a, unfolded lit, OF h(7,8) len(1), unfolded len(2)] obtain st' where
    "echo_main ?M (args_new 3 0x11000) st = Some (0, st')" "ku_out (\<lambda>d. d) st' = ku_out (\<lambda>d. d) st @ crlf (spaced (tl ?args)) @ [13, 10]" by blast
  then show ?thesis using d(1,3) a
    by (intro exI [of _ K] exI [of _ kern] exI [of _ sp] exI [of _ st] exI [of _ st'] exI [of _ lit]) (simp add: crlf_def)
qed

end
