(* ===== verification/Spec2Isabelle.thy ===== *)
theory Spec2Isabelle
  imports Heap_Correct Sched_Props Timer Plic Spin Brk Kernel_User
begin

text \<open>
  AlexOS.
\<close>

end
